(* ===== verification/Prelude.thy ===== *)
theory Prelude
  imports "HOL-Library.Word"
begin

text \<open>
  Shared vocabulary of the development: the machine types of the i386 target (\<open>types.h\<close>), the
  faults a kernel routine can end in, a bind for fallible steps, byte-addressed memory with its
  little-endian 32-bit accesses and the alignment facts that separate two blocks of memory, and
  the first-match scan over a fixed-size table that most kernel routines perform. Nothing here is
  specific to one component.
\<close>

unbundle bit_operations_syntax

section \<open>Machine types and outcomes\<close>

type_synonym u8 = "8 word"
type_synonym u16 = "16 word"
type_synonym u32 = "32 word"

text \<open>Memory is byte addressed; kernel virtual addresses index it.\<close>

type_synonym mem = "u32 \<Rightarrow> u8"

text \<open>
  A routine that does not return ends in a fault: \<open>panic(msg)\<close>, an access outside the object the
  code believes it is working on, or a loop that never reaches its exit. \<open>Sleeps\<close> ends the run of a
  file-system routine that has to wait for a sleep lock another process holds.
\<close>

datatype fault = Panic string | Bad_Access string | Diverge | Sleeps

definition bind_res :: "'e + 'a \<Rightarrow> ('a \<Rightarrow> 'e + 'b) \<Rightarrow> 'e + 'b" where
  "bind_res r f = (case r of Inl e \<Rightarrow> Inl e | Inr x \<Rightarrow> f x)"

lemma bind_res_simps [simp]:
  "bind_res (Inl e) f = Inl e"
  "bind_res (Inr x) f = f x"
  by (simp_all add: bind_res_def)

lemma bind_res_Inr_iff: "bind_res r f = Inr y \<longleftrightarrow> (\<exists>x. r = Inr x \<and> f x = Inr y)"
  by (cases r) auto

lemma bind_res_InrE:
  assumes "bind_res r f = Inr y"
  obtains x where "r = Inr x" "f x = Inr y"
  using assms by (auto simp: bind_res_Inr_iff)

lemma bind_res_cong [fundef_cong]:
  "r = r' \<Longrightarrow> (\<And>x. r' = Inr x \<Longrightarrow> f x = f' x) \<Longrightarrow> bind_res r f = bind_res r' f'"
  by (cases r') auto

section \<open>Little-endian words in byte memory\<close>

definition read32 :: "mem \<Rightarrow> u32 \<Rightarrow> u32" where
  "read32 m a = ucast (m a) OR push_bit 8 (ucast (m (a + 1)))
     OR push_bit 16 (ucast (m (a + 2))) OR push_bit 24 (ucast (m (a + 3)))"

definition write32 :: "mem \<Rightarrow> u32 \<Rightarrow> u32 \<Rightarrow> mem" where
  "write32 m a v = m(a := ucast v, a + 1 := ucast (drop_bit 8 v),
     a + 2 := ucast (drop_bit 16 v), a + 3 := ucast (drop_bit 24 v))"

lemma write32_bytes [simp]:
  "write32 m a v a = ucast v"
  "write32 m a v (a + 1) = ucast (drop_bit 8 v)"
  "write32 m a v (a + 2) = ucast (drop_bit 16 v)"
  "write32 m a v (a + 3) = ucast (drop_bit 24 v)"
  by (simp_all add: write32_def)

lemma bit_byte_of_word:
  fixes v :: u32
  shows "bit (push_bit k (ucast (ucast (drop_bit k v) :: u8)) :: u32) n
    \<longleftrightarrow> k \<le> n \<and> n < k + 8 \<and> bit v n"
  using bit_imp_le_length[of v n]
  by (cases "k \<le> n") (auto simp: bit_push_bit_iff bit_ucast_iff bit_drop_bit_eq)

lemma bytes_of_word:
  fixes v :: u32
  shows "ucast (ucast v :: u8) OR push_bit 8 (ucast (ucast (drop_bit 8 v) :: u8))
    OR push_bit 16 (ucast (ucast (drop_bit 16 v) :: u8))
    OR push_bit 24 (ucast (ucast (drop_bit 24 v) :: u8)) = v" (is "?l = v")
proof (rule bit_word_eqI)
  fix n assume n: "n < LENGTH(32)"
  have "bit (ucast (ucast v :: u8) :: u32) n \<longleftrightarrow> n < 8 \<and> bit v n"
    using bit_byte_of_word[of 0 v n] by simp
  then have "bit ?l n \<longleftrightarrow> bit v n \<and> (n < 8 \<or> (8 \<le> n \<and> n < 16) \<or> (16 \<le> n \<and> n < 24) \<or> (24 \<le> n \<and> n < 32))"
    unfolding bit_or_iff bit_byte_of_word by auto
  then show "bit ?l n = bit v n" using n by auto
qed

lemma read32_write32_same [simp]: "read32 (write32 m a v) a = v"
  by (simp add: read32_def bytes_of_word)

lemma write32_outside: "4 \<le> unat (b - a) \<Longrightarrow> write32 m a v b = m b"
  by (auto simp: write32_def)

lemma read32_cong: 
  assumes h: "\<And>i. unat i < 4 \<Longrightarrow> m (a + i) = m' (a + i)"
  shows "read32 m a = read32 m' a"
  using h[of 0] h[of 1] h[of 2] h[of 3]  by (simp add: read32_def)

section \<open>Aligned blocks\<close>

definition aligned :: "nat \<Rightarrow> u32 \<Rightarrow> bool" where
  "aligned k a \<longleftrightarrow> 2 ^ k dvd unat a"

lemma aligned_iff_uint: "aligned k a \<longleftrightarrow> (2::int) ^ k dvd uint a"
proof -
  have "int (2 ^ k) dvd int (unat a) \<longleftrightarrow> 2 ^ k dvd unat a" by (rule int_dvd_int_iff)
  then show ?thesis by (simp add: aligned_def)
qed

lemma aligned_diff:
  assumes "aligned k a" "aligned k b" "k \<le> 32"
  shows "aligned k (b - a)"
proof -
  have "(2::int) ^ k dvd 2 ^ 32" using assms(3) by (rule le_imp_power_dvd)
  moreover have "(2::int) ^ k dvd uint b - uint a"
    using assms(1,2) by (simp only: aligned_iff_uint dvd_diff)
  ultimately have "(2::int) ^ k dvd (uint b - uint a) mod 2 ^ 32" by (rule dvd_mod[rotated])
  then show ?thesis by (simp only: aligned_iff_uint uint_word_arith_bintrs(2) take_bit_eq_mod len_num0 len_bit0 len_num1) simp
qed

lemma aligned_bound: "aligned k a \<Longrightarrow> k \<le> 32 \<Longrightarrow> unat a + 2 ^ k \<le> 2 ^ 32"
proof -
  assume "aligned k a" "k \<le> 32"
  then obtain q where q: "unat a = 2 ^ k * q" by (auto simp: aligned_def elim: dvdE)
  have "unat a < 2 ^ 32" using unsigned_less[of a] by simp
  moreover obtain j where "32 = k + j" using \<open>k \<le> 32\<close> le_Suc_ex by blast
  ultimately have "q < 2 ^ j" using q by (simp add: power_add)
  then have "2 ^ k * (q + 1) \<le> (2::nat) ^ k * 2 ^ j" by (intro mult_le_mono) auto
  then have "2 ^ k * (q + 1) \<le> (2::nat) ^ 32" unfolding \<open>32 = k + j\<close> power_add .
  then show ?thesis using q by (simp add: algebra_simps)
qed

lemma unat_add_aligned:
  "aligned k a \<Longrightarrow> k \<le> 32 \<Longrightarrow> unat i < 2 ^ k \<Longrightarrow> unat (a + i) = unat a + unat i"
  using aligned_bound[of k a] by (simp add: unat_word_ariths)

lemma blocks_disjoint:
  assumes "aligned k a" "aligned k b" "a \<noteq> b" "k \<le> 32" "unat i < 2 ^ k"
  shows "2 ^ k \<le> unat (b + i - a)"
proof -
  have d: "aligned k (b - a)" using assms aligned_diff by blast
  have "b - a \<noteq> 0" using assms(3) by auto
  then have "unat (b - a) \<noteq> 0" by (simp add: unat_eq_0)
  with d have "2 ^ k \<le> unat (b - a)" unfolding aligned_def by (meson dvd_imp_le neq0_conv)
  moreover have "b + i - a = (b - a) + i" by simp
  ultimately show ?thesis using unat_add_aligned[OF d assms(4,5)] by (simp only: trans_le_add1)
qed
lemma read32_write32_other:
  assumes "aligned 2 a" "aligned 2 b" "a \<noteq> b"
  shows "read32 (write32 m a v) b = read32 m b"
  using assms by (intro read32_cong write32_outside) (use blocks_disjoint[of 2 a b] in simp)

section \<open>Signed reading\<close>

lemma sint_small:
  assumes "unat (x :: u32) < 2 ^ 31"
  shows "sint x = int (unat x)"
proof -
  have "int (unat x) < int (2 ^ 31)" using assms by (simp only: of_nat_less_iff)
  then have "uint x < 2 ^ 31" by simp
  moreover have "- (2 ^ 31) \<le> uint x" using unsigned_greater_eq[of x] by (rule order.trans[rotated]) simp
  ultimately have "signed_take_bit 31 (uint x) = uint x" by (intro signed_take_bit_int_eq_self)
  then show ?thesis by (simp add: sint_uint)
qed

lemma sint_nonneg_iff: "0 \<le> sint (x :: u32) \<longleftrightarrow> unat x < 2 ^ 31"
proof -
  have "sint x < 0 \<longleftrightarrow> bit x 31" using bit_last_iff[of x] by simp
  also have "\<dots> \<longleftrightarrow> bit (unat x) 31" by (simp add: bit_unsigned_iff)
  also have "\<dots> \<longleftrightarrow> 2 ^ 31 \<le> unat x"
  proof -
    have l: "unat x < 2 * 2 ^ 31" using unsigned_less[of x] by simp
    show ?thesis
    proof (cases "2 ^ 31 \<le> unat x")
      case True
      have "unat x div 2 ^ 31 < 2" using l by (intro less_mult_imp_div_less) simp
      moreover have "1 \<le> unat x div 2 ^ 31" using True by (simp add: less_eq_div_iff_mult_less_eq)
      ultimately have "unat x div 2 ^ 31 = 1" by simp
      then have "odd (unat x div 2 ^ 31)" by simp
      then show ?thesis using True by (simp add: bit_iff_odd)
    qed (simp add: bit_iff_odd)
  qed
  finally show ?thesis by linarith
qed

section \<open>First match in a table\<close>

text \<open>
  The loop \<open>for(p = table; p < &table[N]; p++) if(cond) ...\<close> that leaves at the first hit: the index
  of that hit, or \<open>None\<close> when the loop runs to its end.
\<close>

primrec find_idx :: "('a \<Rightarrow> bool) \<Rightarrow> 'a list \<Rightarrow> nat option" where
  "find_idx P [] = None"
| "find_idx P (x # xs) = (if P x then Some 0 else map_option Suc (find_idx P xs))"

lemma find_idx_None_iff: "find_idx P xs = None \<longleftrightarrow> (\<forall>x \<in> set xs. \<not> P x)"
  by (induction xs) auto

lemma find_idx_SomeD:
  "find_idx P xs = Some i \<Longrightarrow> i < length xs \<and> P (xs ! i) \<and> (\<forall>j < i. \<not> P (xs ! j))"
proof (induction xs arbitrary: i)
  case (Cons x xs)
  then show ?case
    by (cases i) (auto split: if_splits simp: nth_Cons' less_Suc_eq_0_disj)
qed simp

lemma find_idx_SomeI:
  "i < length xs \<Longrightarrow> P (xs ! i) \<Longrightarrow> (\<And>j. j < i \<Longrightarrow> \<not> P (xs ! j)) \<Longrightarrow> find_idx P xs = Some i"
proof (induction xs arbitrary: i)
  case (Cons x xs)
  show ?case
  proof (cases i)
    case 0
    with Cons.prems show ?thesis by simp
  next
    case (Suc k)
    have "\<not> P x" using Cons.prems(3)[of 0] Suc by simp
    moreover have "find_idx P xs = Some k"
      using Cons.prems Suc by (intro Cons.IH) force+
    ultimately show ?thesis using Suc by simp
  qed
qed simp

lemma find_idx_ex: "i < length xs \<Longrightarrow> P (xs ! i) \<Longrightarrow> \<exists>j. find_idx P xs = Some j"
  using find_idx_None_iff[of P xs] nth_mem[of i xs] by (metis not_None_eq)

lemma nth_upd: "xs[i := v] ! j = (if i = j \<and> i < length xs then v else xs ! j)"
  by (cases "i < length xs") (auto simp: list_update_beyond)

section \<open>Invariants of step relations\<close>

text \<open>
  The contract of a state machine with an invariant: start states satisfy it and steps keep it. The
  components with a step relation (spin locks, the process table) interpret this locale.
\<close>

locale transition_system =
  fixes start :: "'s \<Rightarrow> bool"
    and step :: "'s \<Rightarrow> 's \<Rightarrow> bool"
    and inv :: "'s \<Rightarrow> bool"
  assumes start_inv: "start s \<Longrightarrow> inv s"
    and step_inv: "step s s' \<Longrightarrow> inv s \<Longrightarrow> inv s'"
begin

lemma steps_inv: "step\<^sup>*\<^sup>* s t \<Longrightarrow> inv s \<Longrightarrow> inv t"
  by (induction rule: rtranclp_induct) (auto intro: step_inv)

lemma reachable_inv: "start s \<Longrightarrow> step\<^sup>*\<^sup>* s t \<Longrightarrow> inv t"
  using start_inv steps_inv by blast

end

end
