(* ===== verification/CString.thy ===== *)
theory CString
  imports Prelude
begin

text \<open>
  The kernel's memory and string routines (\<open>string.c\<close>, with the string instructions of \<open>x86.h\<close>).
  The routines used on raw memory (\<open>memset\<close>, \<open>memmove\<close>, \<open>memcmp\<close>, \<open>strlen\<close>) work on byte-addressed
  memory; those used on character arrays inside kernel structures (\<open>strncmp\<close>, \<open>strncpy\<close>,
  \<open>safestrcpy\<close>) work on the arrays, and reading or writing past an array is a fault.
\<close>

section \<open>Memory routines\<close>

primrec stosb :: "mem \<Rightarrow> u32 \<Rightarrow> u8 \<Rightarrow> nat \<Rightarrow> mem" where
  "stosb m d c 0 = m"
| "stosb m d c (Suc n) = stosb (m(d := c)) (d + 1) c n"

primrec stosl :: "mem \<Rightarrow> u32 \<Rightarrow> u32 \<Rightarrow> nat \<Rightarrow> mem" where
  "stosl m d v 0 = m"
| "stosl m d v (Suc n) = stosl (write32 m d v) (d + 4) v n"

definition splat :: "u32 \<Rightarrow> u32" where
  "splat c = push_bit 24 c OR push_bit 16 c OR push_bit 8 c OR c"

definition memset :: "mem \<Rightarrow> u32 \<Rightarrow> u32 \<Rightarrow> u32 \<Rightarrow> mem" where
  "memset m dst c n =
     (if dst mod 4 = 0 \<and> n mod 4 = 0
      then let c = c AND 0xFF in stosl m dst (splat c) (unat (n div 4))
      else stosb m dst (ucast c) (unat n))"

primrec memcmp :: "mem \<Rightarrow> u32 \<Rightarrow> u32 \<Rightarrow> nat \<Rightarrow> int" where
  "memcmp m s1 s2 0 = 0"
| "memcmp m s1 s2 (Suc n) =
     (if m s1 \<noteq> m s2 then uint (m s1) - uint (m s2) else memcmp m (s1 + 1) (s2 + 1) n)"

primrec copy_down :: "mem \<Rightarrow> u32 \<Rightarrow> u32 \<Rightarrow> nat \<Rightarrow> mem" where
  \<comment> \<open>\<open>while(n-- > 0) *--d = *--s\<close>\<close>
  "copy_down m d s 0 = m"
| "copy_down m d s (Suc n) = copy_down (m(d - 1 := m (s - 1))) (d - 1) (s - 1) n"

primrec copy_up :: "mem \<Rightarrow> u32 \<Rightarrow> u32 \<Rightarrow> nat \<Rightarrow> mem" where
  \<comment> \<open>\<open>while(n-- > 0) *d++ = *s++\<close>\<close>
  "copy_up m d s 0 = m"
| "copy_up m d s (Suc n) = copy_up (m(d := m s)) (d + 1) (s + 1) n"

definition memmove :: "mem \<Rightarrow> u32 \<Rightarrow> u32 \<Rightarrow> u32 \<Rightarrow> mem" where
  "memmove m dst src n =
     (if src < dst \<and> src + n > dst then copy_down m (dst + n) (src + n) (unat n)
      else copy_up m dst src (unat n))"

partial_function (option) strlen_from :: "mem \<Rightarrow> u32 \<Rightarrow> nat \<Rightarrow> nat option" where
  "strlen_from m s n = (if m (s + of_nat n) \<noteq> 0 then strlen_from m s (Suc n) else Some n)"

definition strlen :: "mem \<Rightarrow> u32 \<Rightarrow> nat option" where
  "strlen m s = strlen_from m s 0"

section \<open>What the memory routines compute\<close>

definition fill :: "mem \<Rightarrow> u32 \<Rightarrow> nat \<Rightarrow> u8 \<Rightarrow> mem" where
  "fill m d n c = (\<lambda>a. if unat (a - d) < n then c else m a)"

definition blit :: "mem \<Rightarrow> u32 \<Rightarrow> u32 \<Rightarrow> nat \<Rightarrow> mem" where
  "blit m d s n = (\<lambda>a. if unat (a - d) < n then m (s + (a - d)) else m a)"

lemma fill_0 [simp]: "fill m d 0 c = m"
  by (simp add: fill_def)

lemma unat_diff_succ:
  fixes a d :: u32
  shows "a \<noteq> d \<Longrightarrow> unat (a - (d + 1)) = unat (a - d) - 1"
  using unat_minus_one[of "a - d"] by (simp add: diff_diff_eq)

lemma unat_u32_less: "unat (x :: u32) < 4294967296"
  using unsigned_less[of x] by simp

lemma fill_Suc:
  "Suc n \<le> 2 ^ 32 \<Longrightarrow> fill (m(d := c)) (d + 1) n c = fill m d (Suc n) c"
proof (rule ext)
  fix a assume n: "Suc n \<le> 2 ^ 32"
  show "fill (m(d := c)) (d + 1) n c a = fill m d (Suc n) c a"
  proof (cases "a = d")
    case False
    moreover have "unat (a - d) \<noteq> 0" using False by (simp add: unat_eq_0)
    ultimately show ?thesis by (auto simp: fill_def unat_diff_succ)
  qed (simp add: fill_def)
qed

lemma stosb_fill: "n \<le> 2 ^ 32 \<Longrightarrow> stosb m d c n = fill m d n c"
  by (induction n arbitrary: m d) (simp_all add: fill_Suc)

lemma fill_fill: "j + k \<le> 2 ^ 32 \<Longrightarrow> fill (fill m d j c) (d + of_nat j) k c = fill m d (j + k) c"
proof (induction j arbitrary: m d)
  case (Suc j)
  have "fill (fill m d (Suc j) c) (d + of_nat (Suc j)) k c
      = fill (fill (m(d := c)) (d + 1) j c) ((d + 1) + of_nat j) k c"
    using Suc.prems by (simp add: fill_Suc[symmetric] add.assoc)
  also have "\<dots> = fill (m(d := c)) (d + 1) (j + k) c" using Suc by simp
  also have "\<dots> = fill m d (Suc j + k) c" using Suc.prems by (simp add: fill_Suc)
  finally show ?case .
qed simp

lemma splat_byte:
  assumes k: "k \<in> {0, 8, 16, 24}"
  shows "ucast (drop_bit k (splat (c AND 0xFF))) = (ucast c :: u8)"
proof (rule bit_word_eqI)
  fix n assume n: "n < LENGTH(8)"
  have m: "c AND 0xFF = take_bit 8 c"
    by (simp add: take_bit_eq_mask mask_eq_exp_minus_1)
  have b: "bit (c AND 0xFF) i \<longleftrightarrow> i < 8 \<and> bit c i" for i
    unfolding m by (simp add: bit_take_bit_iff)
  have "bit (ucast (drop_bit k (splat (c AND 0xFF))) :: u8) n \<longleftrightarrow> bit (splat (c AND 0xFF)) (k + n)"
    using n by (simp add: bit_ucast_iff bit_drop_bit_eq)
  also have "\<dots> \<longleftrightarrow> bit c n"
  proof -
    from k consider "k = 0" | "k = 8" | "k = 16" | "k = 24" by auto
    then show ?thesis
      unfolding splat_def bit_or_iff bit_push_bit_iff b by cases (use n in simp_all)
  qed
  finally show "bit (ucast (drop_bit k (splat (c AND 0xFF))) :: u8) n = bit (ucast c :: u8) n"
    using n by (simp add: bit_ucast_iff)
qed

lemma write32_splat: "write32 m d (splat (c AND 0xFF)) = fill m d 4 (ucast c)"
proof -
  have "ucast (splat (c AND 0xFF)) = (ucast c :: u8)"
    using splat_byte[of 0 c] by simp
  then have "write32 m d (splat (c AND 0xFF)) = stosb m d (ucast c) (Suc (Suc (Suc (Suc 0))))"
    by (simp add: write32_def splat_byte add.assoc)
  also have "\<dots> = fill m d (Suc (Suc (Suc (Suc 0)))) (ucast c)"
    by (rule stosb_fill) simp
  also have "Suc (Suc (Suc (Suc 0))) = 4" by simp
  finally show ?thesis .
qed

lemma stosl_splat:
  "4 * n \<le> 2 ^ 32 \<Longrightarrow> stosl m d (splat (c AND 0xFF)) n = fill m d (4 * n) (ucast c)"
proof (induction n arbitrary: m d)
  case (Suc n)
  then show ?case using fill_fill[of 4 "4 * n" m d "ucast c"] by (simp add: write32_splat)
qed simp

lemma memset_fill: "memset m d c n = fill m d (unat n) (ucast c)"
proof (cases "d mod 4 = 0 \<and> n mod 4 = 0")
  case True
  then have "unat n mod 4 = 0" using unat_mod[of n 4] by simp
  then have q: "4 * (unat n div 4) = unat n" by presburger
  have "unat (n div 4) = unat n div 4" using unat_div[of n 4] by simp
  then show ?thesis
    using True q stosl_splat[of "unat n div 4" m d c] unat_u32_less[of n]
    by (simp add: memset_def Let_def)
next
  case False
  then have "memset m d c n = stosb m d (ucast c) (unat n)" by (auto simp: memset_def)
  then show ?thesis using unat_u32_less[of n] by (simp add: stosb_fill)
qed

lemma copy_up_blit:
  "n \<le> 2 ^ 32 \<Longrightarrow> d = s \<or> n \<le> unat (d - s) \<Longrightarrow> copy_up m d s n = blit m d s n"
proof (induction n arbitrary: m d s)
  case (Suc n)
  have "copy_up m d s (Suc n) = blit (m(d := m s)) (d + 1) (s + 1) n"
    unfolding copy_up.simps by (rule Suc.IH) (use Suc.prems in auto)
  also have "\<dots> = blit m d s (Suc n)"
  proof (rule ext)
    fix a
    show "blit (m(d := m s)) (d + 1) (s + 1) n a = blit m d s (Suc n) a"
    proof (cases "a = d")
      case True
      have "unat (a - (d + 1)) = 4294967295" using True by (simp add: diff_diff_eq unsigned_minus_1_eq_mask mask_eq_exp_minus_1)
      then show ?thesis using True Suc.prems by (simp add: blit_def)
    next
      case False
      then have nz: "unat (a - d) \<noteq> 0" by (simp add: unat_eq_0)
      have hit: False if h: "s + (a - d) = d" "unat (a - d) < Suc n"
      proof -
        have "a - d = d - s" using h(1) by (metis add_diff_cancel_left')
        with h(2) False Suc.prems(2) show False by auto
      qed
      have "s + 1 + (a - (d + 1)) = s + (a - d)" by simp
      then show ?thesis using False nz hit by (auto simp: blit_def unat_diff_succ)
    qed
  qed
  finally show ?case .
qed (simp add: blit_def)

lemma unat_add_neq:
  fixes x y :: u32
  shows "Suc n \<le> unat x \<Longrightarrow> unat y < n \<Longrightarrow> unat (x + y) \<noteq> n"
  using unat_u32_less[of x] by (auto simp: unat_plus_if' split: if_splits)

lemma copy_down_blit:
  "n \<le> 2 ^ 32 \<Longrightarrow> d = s \<or> n \<le> unat (s - d) \<Longrightarrow>
   copy_down m (d + of_nat n) (s + of_nat n) n = blit m d s n"
proof (induction n arbitrary: m)
  case (Suc n)
  let ?m = "m(d + of_nat n := m (s + of_nat n))"
  have n: "unat (of_nat n :: u32) = n" using Suc.prems(1) by (simp add: unat_of_nat)
  have "copy_down m (d + of_nat (Suc n)) (s + of_nat (Suc n)) (Suc n)
      = copy_down ?m (d + of_nat n) (s + of_nat n) n"
    by simp
  also have "\<dots> = blit ?m d s n" by (rule Suc.IH) (use Suc.prems in auto)
  also have "\<dots> = blit m d s (Suc n)"
  proof (rule ext)
    fix a
    have hit: False if h: "s + (a - d) = d + of_nat n" "unat (a - d) < n"
    proof -
      have e: "(s - d) + (a - d) = of_nat n" using h(1) by (simp add: algebra_simps)
      show False
      proof (cases "s = d")
        case True
        then show False using e h(2) n by simp
      next
        case False
        then have "Suc n \<le> unat (s - d)" using Suc.prems(2) by auto
        then have "unat ((s - d) + (a - d)) \<noteq> n" using h(2) by (rule unat_add_neq)
        then show False using n unfolding e by simp
      qed
    qed
    have same: "unat (a - d) = n \<longleftrightarrow> a = d + of_nat n"
      using n by (metis add_diff_cancel_left' diff_add_cancel add.commute word_unat_eq_iff)
    then have "s + (a - d) = s + of_nat n" if "unat (a - d) = n" using that by simp
    then show "blit ?m d s n a = blit m d s (Suc n) a"
      using hit same by (auto simp: blit_def less_Suc_eq)
  qed
  finally show ?case .
qed (simp add: blit_def)

text \<open>
  The overlap test of \<open>memmove\<close> picks the direction that never overwrites a source byte before it is
  read, for every pair of regions that do not run past the end of the address space.
\<close>

lemma memmove_blit:
  assumes "unat src + unat n < 2 ^ 32" "unat dst + unat n \<le> 2 ^ 32"
  shows "memmove m dst src n = blit m dst src (unat n)"
proof (cases "src < dst \<and> src + n > dst")
  case True
  then have "unat src < unat dst" by (simp add: word_less_nat_alt)
  then have "unat n \<le> unat (src - dst)" using assms by (simp add: unat_sub_if_size word_size)
  then have "copy_down m (dst + of_nat (unat n)) (src + of_nat (unat n)) (unat n) = blit m dst src (unat n)"
    using unat_u32_less[of n] by (intro copy_down_blit) auto
  then show ?thesis using True by (simp add: memmove_def)
next
  case False
  have "unat (src + n) = unat src + unat n" using assms(1) by (simp add: unat_word_ariths)
  then have "dst = src \<or> unat n \<le> unat (dst - src)"
    using False assms by (auto simp: unat_sub_if_size word_size word_less_nat_alt word_unat_eq_iff)
  then have "copy_up m dst src (unat n) = blit m dst src (unat n)"
    using unat_u32_less[of n] by (intro copy_up_blit) auto
  then show ?thesis using False by (auto simp: memmove_def)
qed

lemma memcmp_eq_0_iff:
  "memcmp m s1 s2 n = 0 \<longleftrightarrow> (\<forall>i < n. m (s1 + of_nat i) = m (s2 + of_nat i))"
proof (induction n arbitrary: s1 s2)
  case (Suc n)
  show ?case
  proof (cases "m s1 = m s2")
    case True
    have "(\<forall>i < Suc n. m (s1 + of_nat i) = m (s2 + of_nat i)) \<longleftrightarrow>
        (\<forall>i < n. m (s1 + 1 + of_nat i) = m (s2 + 1 + of_nat i))"
      using True by (auto simp: less_Suc_eq_0_disj add.assoc)
    with True Suc show ?thesis by simp
  next
    case False
    then have "uint (m s1) \<noteq> uint (m s2)" by (simp add: word_uint_eq_iff)
    with False show ?thesis by (auto intro: exI[of _ 0])
  qed
qed simp

lemma strlen_from_eq:
  "m (s + of_nat k) = 0 \<Longrightarrow> (\<And>i. n \<le> i \<Longrightarrow> i < k \<Longrightarrow> m (s + of_nat i) \<noteq> 0) \<Longrightarrow> n \<le> k \<Longrightarrow>
   strlen_from m s n = Some k"
proof (induction "k - n" arbitrary: n)
  case 0
  then show ?case by (simp add: strlen_from.simps[of m s n])
next
  case (Suc d)
  then have "strlen_from m s (Suc n) = Some k" by (intro Suc.hyps(1)) auto
  moreover have "m (s + of_nat n) \<noteq> 0" using Suc by auto
  ultimately show ?case by (simp add: strlen_from.simps[of m s n])
qed

lemma strlen_eq:
  "m (s + of_nat k) = 0 \<Longrightarrow> (\<And>i. i < k \<Longrightarrow> m (s + of_nat i) \<noteq> 0) \<Longrightarrow> strlen m s = Some k"
  unfolding strlen_def by (rule strlen_from_eq) auto

section \<open>Routines on character arrays\<close>

fun strncmp :: "u8 list \<Rightarrow> u8 list \<Rightarrow> nat \<Rightarrow> fault + int" where
  "strncmp p q 0 = Inr 0"
| "strncmp (a # p) (b # q) (Suc n) =
     (if a \<noteq> 0 \<and> a = b then strncmp p q n else Inr (uint a - uint b))"
| "strncmp [] q (Suc n) = Inl (Bad_Access ''strncmp'')"
| "strncmp p [] (Suc n) = Inl (Bad_Access ''strncmp'')"

fun strncpy_copy :: "u8 list \<Rightarrow> nat \<Rightarrow> u8 list \<Rightarrow> nat \<Rightarrow> fault + u8 list \<times> nat \<times> nat" where
  \<comment> \<open>\<open>while(n-- > 0 && (*s++ = *t++) != 0);\<close>\<close>
  "strncpy_copy d i t 0 = Inr (d, i, 0)"
| "strncpy_copy d i (c # t) (Suc n) =
     (if i < length d
      then if c \<noteq> 0 then strncpy_copy (d[i := c]) (Suc i) t n else Inr (d[i := c], Suc i, n)
      else Inl (Bad_Access ''strncpy''))"
| "strncpy_copy d i [] (Suc n) = Inl (Bad_Access ''strncpy'')"

fun strncpy_pad :: "u8 list \<Rightarrow> nat \<Rightarrow> nat \<Rightarrow> fault + u8 list" where
  \<comment> \<open>\<open>while(n-- > 0) *s++ = 0;\<close>\<close>
  "strncpy_pad d i 0 = Inr d"
| "strncpy_pad d i (Suc n) =
     (if i < length d then strncpy_pad (d[i := 0]) (Suc i) n else Inl (Bad_Access ''strncpy''))"

definition strncpy :: "u8 list \<Rightarrow> u8 list \<Rightarrow> nat \<Rightarrow> fault + u8 list" where
  "strncpy d t n = bind_res (strncpy_copy d 0 t n) (\<lambda>(d, i, k). strncpy_pad d i k)"

fun safestrcpy_copy :: "u8 list \<Rightarrow> nat \<Rightarrow> u8 list \<Rightarrow> nat \<Rightarrow> fault + u8 list \<times> nat" where
  \<comment> \<open>\<open>while(--n > 0 && (*s++ = *t++) != 0);\<close> the last argument is the number of copies left\<close>
  "safestrcpy_copy d i t 0 = Inr (d, i)"
| "safestrcpy_copy d i (c # t) (Suc n) =
     (if i < length d
      then if c \<noteq> 0 then safestrcpy_copy (d[i := c]) (Suc i) t n else Inr (d[i := c], Suc i)
      else Inl (Bad_Access ''safestrcpy''))"
| "safestrcpy_copy d i [] (Suc n) = Inl (Bad_Access ''safestrcpy'')"

definition safestrcpy :: "u8 list \<Rightarrow> u8 list \<Rightarrow> nat \<Rightarrow> fault + u8 list" where
  "safestrcpy d t n =
     (if n = 0 then Inr d
      else bind_res (safestrcpy_copy d 0 t (n - 1)) (\<lambda>(d, i).
        if i < length d then Inr (d[i := 0]) else Inl (Bad_Access ''safestrcpy'')))"

text \<open>The string an array holds, and when reading up to \<open>n\<close> characters of it stays inside it.\<close>

definition cstr :: "u8 list \<Rightarrow> u8 list" where
  "cstr t = takeWhile (\<lambda>c. c \<noteq> 0) t"

definition readable :: "u8 list \<Rightarrow> nat \<Rightarrow> bool" where
  "readable t n \<longleftrightarrow> n \<le> length t \<or> 0 \<in> set t"

lemma cstr_simps [simp]: "cstr [] = []" "cstr (c # t) = (if c = 0 then [] else c # cstr t)"
  by (simp_all add: cstr_def)

lemma readable_simps [simp]:
  "readable t 0" "\<not> readable [] (Suc n)" "readable (c # t) (Suc n) \<longleftrightarrow> c = 0 \<or> readable t n"
  by (auto simp: readable_def)

lemma cstr_nonzero: "0 \<notin> set (cstr t)"
  by (induction t) auto

lemma strncmp_total:
  "readable p n \<Longrightarrow> readable q n \<Longrightarrow> \<exists>r. strncmp p q n = Inr r"
  by (induction p q n rule: strncmp.induct) auto

lemma strncmp_eq_0_iff:
  "readable p n \<Longrightarrow> readable q n \<Longrightarrow>
   strncmp p q n = Inr 0 \<longleftrightarrow> take n (cstr p) = take n (cstr q)"
proof (induction p q n rule: strncmp.induct)
  case (2 a p b q n)
  have "uint a = uint b \<longleftrightarrow> a = b" by (simp add: word_uint_eq_iff)
  with 2 show ?case by auto
qed auto

lemma strncpy_pad_eq:
  "i + n \<le> length d \<Longrightarrow> strncpy_pad d i n = Inr (take i d @ replicate n 0 @ drop (i + n) d)"
proof (induction d i n rule: strncpy_pad.induct)
  case (2 d i n)
  then have "strncpy_pad d i (Suc n) = Inr (take (Suc i) (d[i := 0]) @ replicate n 0 @ drop (Suc i + n) (d[i := 0]))"
    by simp
  moreover have "take (Suc i) (d[i := 0]) = take i d @ [0]"
    using 2 by (simp add: take_Suc_conv_app_nth)
  ultimately show ?case by simp
qed simp

lemma strncpy_copy_pad:
  "i + n \<le> length d \<Longrightarrow> readable t n \<Longrightarrow>
   bind_res (strncpy_copy d i t n) (\<lambda>(d, i, k). strncpy_pad d i k)
     = Inr (take i d @ take n (cstr t @ replicate n 0) @ drop (i + n) d)"
proof (induction d i t n rule: strncpy_copy.induct)
  case (2 d i c t n)
  have t: "take (Suc i) (d[i := c]) = take i d @ [c]"
    using 2 by (simp add: take_Suc_conv_app_nth)
  show ?case
  proof (cases "c = 0")
    case True
    then show ?thesis using 2 t by (simp add: strncpy_pad_eq)
  next
    case False
    then have "bind_res (strncpy_copy d i (c # t) (Suc n)) (\<lambda>(d, i, k). strncpy_pad d i k)
        = Inr (take (Suc i) (d[i := c]) @ take n (cstr t @ replicate n 0) @ drop (Suc i + n) (d[i := c]))"
      using 2 by simp
    also have "take n (cstr t @ replicate n 0) = take n (cstr t @ replicate (Suc n) 0)"
      by (simp del: replicate.simps)
    finally show ?thesis using t False by simp
  qed
qed auto

lemma strncpy_eq:
  "n \<le> length d \<Longrightarrow> readable t n \<Longrightarrow>
   strncpy d t n = Inr (take n (cstr t @ replicate n 0) @ drop n d)"
  unfolding strncpy_def using strncpy_copy_pad[of 0 n d t] by simp

lemma safestrcpy_copy_ok:
  "i + n < length d \<Longrightarrow> readable t n \<Longrightarrow>
   \<exists>d' j. safestrcpy_copy d i t n = Inr (d', j) \<and> j \<le> i + n \<and> length d' = length d
     \<and> take (i + min n (length (cstr t))) d' = take i d @ take n (cstr t)
     \<and> (j = i + length (take n (cstr t)) \<or> j = Suc (i + length (cstr t)) \<and> d' ! (i + length (cstr t)) = 0)
     \<and> drop (i + n) d' = drop (i + n) d"
proof (induction d i t n rule: safestrcpy_copy.induct)
  case (2 d i c t n)
  have t: "take (Suc i) (d[i := c]) = take i d @ [c]"
    using 2 by (simp add: take_Suc_conv_app_nth)
  show ?case
  proof (cases "c = 0")
    case True
    then show ?thesis using 2 by auto
  next
    case False
    then obtain d' j where "safestrcpy_copy (d[i := c]) (Suc i) t n = Inr (d', j)" "j \<le> Suc i + n"
      "length d' = length (d[i := c])"
      "take (Suc i + min n (length (cstr t))) d' = take (Suc i) (d[i := c]) @ take n (cstr t)"
      "j = Suc i + length (take n (cstr t)) \<or> j = Suc (Suc i + length (cstr t)) \<and> d' ! (Suc i + length (cstr t)) = 0"
      "drop (Suc i + n) d' = drop (Suc i + n) (d[i := c])"
      using 2 by force
    then show ?thesis using 2 False t by auto
  qed
qed auto

lemma safestrcpy_eq:
  assumes "0 < n" "n \<le> length d" "readable t (n - 1)"
  obtains d' where "safestrcpy d t n = Inr d'" "length d' = length d"
    "cstr d' = take (n - 1) (cstr t)" "0 \<in> set (take n d')" "drop n d' = drop n d"
proof -
  let ?k = "n - 1"
  let ?l = "length (take ?k (cstr t))"
  have k: "0 + ?k < length d" using assms by simp
  obtain d' j where r: "safestrcpy_copy d 0 t ?k = Inr (d', j)" "j \<le> ?k" "length d' = length d"
    "take ?l d' = take ?k (cstr t)" "j = ?l \<or> j = Suc (length (cstr t)) \<and> d' ! length (cstr t) = 0"
    "drop ?k d' = drop ?k d"
    using safestrcpy_copy_ok[OF k assms(3)] by (auto simp: min.commute)
  have j: "j < length d'" using r assms by simp
  have l: "?l < length d'" using r assms by simp
  have z: "d'[j := 0] ! ?l = 0"
  proof (cases "j = ?l")
    case True
    then show ?thesis using j by simp
  next
    case False
    then have "j = Suc (length (cstr t))" "d' ! length (cstr t) = 0" using r(5) by auto
    moreover from this have "?l = length (cstr t)" using r(2) by simp
    ultimately show ?thesis using l by simp
  qed
  have tk: "take ?l (d'[j := 0]) = take ?k (cstr t)"
    using r(4,5) by (auto simp: take_update_cancel)
  have nz: "0 \<notin> set (take ?k (cstr t))"
    using cstr_nonzero[of t] by (meson in_set_takeD)
  have "cstr (d'[j := 0]) = takeWhile (\<lambda>c. c \<noteq> 0) (take ?l (d'[j := 0]) @ drop ?l (d'[j := 0]))"
    by (simp add: cstr_def)
  also have "drop ?l (d'[j := 0]) = 0 # drop (Suc ?l) (d'[j := 0])"
    using z l by (metis Cons_nth_drop_Suc length_list_update)
  finally have c: "cstr (d'[j := 0]) = take ?k (cstr t)"
    using nz unfolding tk by (auto simp: takeWhile_append)
  have "?l < n" using assms(1) by auto
  then have "0 \<in> set (take n (d'[j := 0]))"
    using z l by (metis in_set_conv_nth length_list_update length_take min_less_iff_conj nth_take)
  moreover have "drop n (d'[j := 0]) = drop n d"
  proof -
    have "drop n d' = drop n d" using arg_cong[OF r(6), of "drop 1"] assms(1) by simp
    then show ?thesis using r(2) assms(1) by simp
  qed
  ultimately show thesis
    using that[of "d'[j := 0]"] r(1,3) j c assms(1) by (simp add: safestrcpy_def)
qed

section \<open>Properties\<close>

text \<open>
  C8. \<open>memmove\<close> copies correctly whether or not the areas overlap: every byte of the destination gets
  the byte the source held before the call, and no other byte changes. The sizes are such that
  neither area wraps around the end of memory.
\<close>

theorem memmove_correct:
  assumes "unat src + unat n < 2 ^ 32" "unat dst + unat n \<le> 2 ^ 32"
  shows "(\<forall>i. unat i < unat n \<longrightarrow> memmove m dst src n (dst + i) = m (src + i)) \<and>
    (\<forall>a. unat n \<le> unat (a - dst) \<longrightarrow> memmove m dst src n a = m a)"
  using memmove_blit[OF assms] by (simp add: blit_def)

theorem memmove_correct_witness:
  "memmove (\<lambda>a. ucast a) 101 100 3 103 = 102 \<and> memmove (\<lambda>a. ucast a) 101 100 3 104 = (104 :: u8)"
proof -
  note c = memmove_correct[of 100 3 101 "\<lambda>a. ucast a"]
  have "memmove (\<lambda>a. ucast a) 101 100 3 (101 + 2) = (ucast (100 + 2 :: u32) :: u8)"
    by (rule conjunct1[OF c, rule_format]) simp_all
  moreover have "memmove (\<lambda>a. ucast a) 101 100 3 104 = (ucast (104 :: u32) :: u8)"
    by (rule conjunct2[OF c, rule_format]) simp_all
  ultimately show ?thesis by simp
qed

text \<open>
  C9. \<open>safestrcpy\<close> always leaves a terminated string. It writes only the \<open>n\<close> bytes it was given, and
  the string it leaves is the source cut to \<open>n - 1\<close> bytes.
\<close>

theorem safestrcpy_correct:
  assumes "0 < n" "n \<le> length d" "readable t (n - 1)"
  shows "\<exists>d'. safestrcpy d t n = Inr d' \<and> length d' = length d \<and> 0 \<in> set (take n d') \<and>
    cstr d' = take (n - 1) (cstr t) \<and> drop n d' = drop n d"
  using safestrcpy_eq[OF assms] by metis

theorem safestrcpy_correct_witness:
  "\<exists>d'. safestrcpy [9, 9, 9, 9] [1, 2, 3, 4, 0] 3 = Inr d' \<and> cstr d' = [1, 2] \<and> drop 3 d' = [9]"
  using safestrcpy_correct[of 3 "[9, 9, 9, 9]" "[1, 2, 3, 4, 0]"] by (auto simp: numeral_3_eq_3)

end
