(* ===== verification/Layout.thy ===== *)
theory Layout
  imports CString
begin

text \<open>
  Constants and address macros of the i386 memory layout (\<open>mmu.h\<close>, \<open>memlayout.h\<close>), with the
  arithmetic meaning of each macro: rounding to pages, the split of a virtual address into directory
  index, table index and offset, and the address and flag parts of a page-table entry.
\<close>

section \<open>Constants and macros\<close>

abbreviation (input) PGSIZE :: u32 where "PGSIZE \<equiv> 4096"
abbreviation (input) EXTMEM :: u32 where "EXTMEM \<equiv> 0x100000"
abbreviation (input) PHYSTOP :: u32 where "PHYSTOP \<equiv> 0xE000000"
abbreviation (input) DEVSPACE :: u32 where "DEVSPACE \<equiv> 0xFE000000"
abbreviation (input) KERNBASE :: u32 where "KERNBASE \<equiv> 0x80000000"
abbreviation (input) KERNLINK :: u32 where "KERNLINK \<equiv> KERNBASE + EXTMEM"
abbreviation (input) PTE_P :: u32 where "PTE_P \<equiv> 1"
abbreviation (input) PTE_W :: u32 where "PTE_W \<equiv> 2"
abbreviation (input) PTE_U :: u32 where "PTE_U \<equiv> 4"

definition V2P :: "u32 \<Rightarrow> u32" where "V2P a = a - KERNBASE"
definition P2V :: "u32 \<Rightarrow> u32" where "P2V a = a + KERNBASE"

definition PGROUNDUP :: "u32 \<Rightarrow> u32" where
  "PGROUNDUP sz = (sz + PGSIZE - 1) AND NOT (PGSIZE - 1)"

definition PGROUNDDOWN :: "u32 \<Rightarrow> u32" where
  "PGROUNDDOWN a = a AND NOT (PGSIZE - 1)"

definition PDX :: "u32 \<Rightarrow> u32" where "PDX va = drop_bit 22 va AND 0x3FF"
definition PTX :: "u32 \<Rightarrow> u32" where "PTX va = drop_bit 12 va AND 0x3FF"

definition PGADDR :: "u32 \<Rightarrow> u32 \<Rightarrow> u32 \<Rightarrow> u32" where
  "PGADDR d t off = push_bit 22 d OR push_bit 12 t OR off"

definition PTE_ADDR :: "u32 \<Rightarrow> u32" where "PTE_ADDR pte = pte AND NOT 0xFFF"
definition PTE_FLAGS :: "u32 \<Rightarrow> u32" where "PTE_FLAGS pte = pte AND 0xFFF"

section \<open>Their arithmetic meaning\<close>

lemma V2P_P2V [simp]: "V2P (P2V a) = a" and P2V_V2P [simp]: "P2V (V2P a) = a"
  by (simp_all add: V2P_def P2V_def)

lemma and_not_mask_eq: "a AND NOT (mask n) = push_bit n (drop_bit n (a :: u32))"
proof (rule bit_word_eqI)
  fix i assume "i < LENGTH(32)"
  then show "bit (a AND NOT (mask n)) i = bit (push_bit n (drop_bit n a)) i"
    by (auto simp: bit_and_iff bit_not_iff bit_mask_iff bit_push_bit_iff bit_drop_bit_eq)
qed

lemma unat_and_not_mask: "unat (a AND NOT (mask n)) = 2 ^ n * (unat (a :: u32) div 2 ^ n)"
proof -
  have "2 ^ n * (unat a div 2 ^ n) \<le> unat a" by (rule times_div_less_eq_dividend)
  also have "unat a < 2 ^ 32" using unat_u32_less[of a] by simp
  finally have "2 ^ n * (unat a div 2 ^ n) < 2 ^ 32" .
  then have "take_bit LENGTH(32) (push_bit n (drop_bit n (unat a))) = 2 ^ n * (unat a div 2 ^ n)"
    by (simp add: push_bit_eq_mult drop_bit_eq_div take_bit_nat_eq_self mult.commute)
  then show ?thesis
    unfolding and_not_mask_eq by (simp only: unsigned_push_bit_eq unat_drop_bit_eq)
qed

lemma unat_and_mask: "unat (a AND mask n) = unat (a :: u32) mod 2 ^ n"
proof -
  have "a AND mask n = take_bit n a" by (simp add: take_bit_eq_mask)
  then have "unat (a AND mask n) = take_bit n (unat a)" by (simp only: unsigned_take_bit_eq)
  then show ?thesis by (simp only: take_bit_eq_mod)
qed

lemma mask_12: "(0xFFF :: u32) = mask 12" and mask_10: "(0x3FF :: u32) = mask 10"
  by (simp_all add: mask_eq_exp_minus_1)

lemma unat_PGROUNDDOWN: "unat (PGROUNDDOWN a) = 4096 * (unat a div 4096)"
  using unat_and_not_mask[of a 12] by (simp add: PGROUNDDOWN_def mask_eq_exp_minus_1)

lemma unat_PTE_ADDR: "unat (PTE_ADDR a) = 4096 * (unat a div 4096)"
  using unat_and_not_mask[of a 12] by (simp add: PTE_ADDR_def mask_eq_exp_minus_1)

lemma unat_PTE_FLAGS: "unat (PTE_FLAGS a) = unat a mod 4096"
  using unat_and_mask[of a 12] by (simp add: PTE_FLAGS_def mask_eq_exp_minus_1)

lemma unat_PGROUNDUP:
  "unat a + 4095 < 2 ^ 32 \<Longrightarrow> unat (PGROUNDUP a) = 4096 * ((unat a + 4095) div 4096)"
proof -
  assume "unat a + 4095 < 2 ^ 32"
  then have "unat (4095 + a) = unat a + 4095" by (simp add: unat_word_ariths)
  then show ?thesis
    using unat_and_not_mask[of "4095 + a" 12] by (simp add: PGROUNDUP_def mask_eq_exp_minus_1)
qed

lemma PGROUNDUP_ge: "unat a + 4095 < 2 ^ 32 \<Longrightarrow> a \<le> PGROUNDUP a"
proof -
  assume "unat a + 4095 < 2 ^ 32"
  moreover have "unat a \<le> 4096 * ((unat a + 4095) div 4096)"
    using div_mult_mod_eq[of "unat a + 4095" 4096] mod_less_divisor[of 4096 "unat a + 4095"] by linarith
  ultimately show ?thesis by (simp add: word_le_nat_alt unat_PGROUNDUP)
qed

lemma unat_PDX: "unat (PDX a) = unat a div 2 ^ 22"
proof -
  have "unat a div 4194304 < 1024" using unat_u32_less[of a] by (simp add: less_mult_imp_div_less)
  then show ?thesis
    using unat_and_mask[of "drop_bit 22 a" 10] unat_div[of a 4194304]
    by (simp add: PDX_def mask_eq_exp_minus_1 drop_bit_eq_div)
qed

lemma unat_PTX: "unat (PTX a) = unat a div 4096 mod 1024"
  using unat_and_mask[of "drop_bit 12 a" 10] unat_div[of a 4096]
  by (simp add: PTX_def mask_eq_exp_minus_1 drop_bit_eq_div)

lemma PDX_less: "unat (PDX a) < 1024" and PTX_less: "unat (PTX a) < 1024"
  using unat_u32_less[of a] by (simp_all add: unat_PDX unat_PTX less_mult_imp_div_less)

lemma aligned_PGROUNDDOWN [simp]: "aligned 12 (PGROUNDDOWN a)"
  by (simp add: aligned_def unat_PGROUNDDOWN)

lemma aligned_PTE_ADDR [simp]: "aligned 12 (PTE_ADDR a)"
  by (simp add: aligned_def unat_PTE_ADDR)

lemma aligned_PGROUNDUP [simp]: "aligned 12 (PGROUNDUP a)"
  using unat_and_not_mask[of "4095 + a" 12]
  by (simp add: aligned_def PGROUNDUP_def mask_eq_exp_minus_1)

lemma PGROUNDDOWN_aligned: "aligned 12 a \<Longrightarrow> PGROUNDDOWN a = a"
  by (auto simp: word_unat_eq_iff unat_PGROUNDDOWN aligned_def)

lemma aligned_mod_iff: "aligned 12 v \<longleftrightarrow> v mod PGSIZE = 0"
  using unat_mod[of v 4096] by (simp add: aligned_def word_unat_eq_iff dvd_eq_mod_eq_0)

end
