(* ===== verification/Kalloc.thy ===== *)
theory Kalloc
  imports Layout
begin

text \<open>
  The physical page allocator (\<open>kalloc.c\<close>). The free list is threaded through the free pages
  themselves: the first word of a free page is the pointer to the next one (\<open>struct run\<close>). The model
  keeps it there, in byte memory, and the abstraction relation \<open>run_list\<close> reads it back as a list of
  page addresses. The contract of the allocator is the locale \<open>page_allocator\<close>, which the model's
  \<open>kalloc\<close> and \<open>kfree\<close> interpret; clients use the facts of that interpretation.
\<close>

section \<open>State and operations\<close>

text \<open>
  \<open>kend\<close> is the linker symbol \<open>end\<close>, the first address after the kernel image. The spin lock of
  \<open>kmem\<close> brackets each list operation; a call is one step of the model.
\<close>

record kmem =
  memory :: mem
  use_lock :: bool
  freelist :: u32
  kend :: u32

definition kfree :: "u32 \<Rightarrow> 'a kmem_scheme \<Rightarrow> fault + 'a kmem_scheme" where
  "kfree v s =
     (if v mod PGSIZE \<noteq> 0 \<or> v < kend s \<or> V2P v \<ge> PHYSTOP then Inl (Panic ''kfree'')
      else let m = memset (memory s) v 1 PGSIZE
           in Inr (s\<lparr>memory := write32 m v (freelist s), freelist := v\<rparr>))"

definition kalloc :: "'a kmem_scheme \<Rightarrow> u32 \<times> 'a kmem_scheme" where
  "kalloc s =
     (let r = freelist s
      in if r \<noteq> 0 then (r, s\<lparr>freelist := read32 (memory s) r\<rparr>) else (r, s))"

lemma kfree_SomeD:
  assumes "kfree v s = Inr s'"
  shows "v mod PGSIZE = 0" "kend s \<le> v" "KERNBASE \<le> v" "v < KERNBASE + PHYSTOP"
proof -
  have c: "v mod PGSIZE = 0" "kend s \<le> v" "V2P v < PHYSTOP"
    using assms by (auto simp: kfree_def split: if_splits)
  then show "v mod PGSIZE = 0" "kend s \<le> v" by simp_all
  have "unat (V2P v) < 0xE000000" using c(3) by (simp add: word_less_nat_alt)
  then have "0x80000000 \<le> unat v \<and> unat v < 0x8E000000"
    using unat_u32_less[of v] by (auto simp: V2P_def unat_sub_if_size word_size split: if_splits)
  then show "KERNBASE \<le> v" "v < KERNBASE + PHYSTOP"
    by (simp_all add: word_le_nat_alt word_less_nat_alt)
qed

text \<open>The loop of \<open>freerange\<close> ends: \<open>kfree\<close> panics before the page pointer can wrap around.\<close>

function freerange_loop :: "u32 \<Rightarrow> u32 \<Rightarrow> 'a kmem_scheme \<Rightarrow> fault + 'a kmem_scheme" where
  "freerange_loop p vend s =
     (if p + PGSIZE \<le> vend
      then bind_res (kfree p s) (\<lambda>s'. freerange_loop (p + PGSIZE) vend s')
      else Inr s)"
  by pat_completeness auto
termination
proof (relation "measure (\<lambda>(p, vend, s). 2 ^ 32 - unat p)")
  fix p vend and s s' :: "'a kmem_scheme"
  assume "kfree p s = Inr s'"
  then have "unat p < 0x8E000000" using kfree_SomeD(4) by (auto simp: word_less_nat_alt)
  then have "unat (p + PGSIZE) = unat p + 4096" by (simp add: unat_word_ariths)
  then show "((p + PGSIZE, vend, s'), p, vend, s) \<in> measure (\<lambda>(p, vend, s). 2 ^ 32 - unat p)"
    using \<open>unat p < 0x8E000000\<close> by simp
qed simp

declare freerange_loop.simps [simp del]

definition freerange :: "u32 \<Rightarrow> u32 \<Rightarrow> 'a kmem_scheme \<Rightarrow> fault + 'a kmem_scheme" where
  "freerange vstart vend s = freerange_loop (PGROUNDUP vstart) vend s"

definition kinit1 :: "u32 \<Rightarrow> u32 \<Rightarrow> 'a kmem_scheme \<Rightarrow> fault + 'a kmem_scheme" where
  "kinit1 vstart vend s = freerange vstart vend (s\<lparr>use_lock := False\<rparr>)"

definition kinit2 :: "u32 \<Rightarrow> u32 \<Rightarrow> 'a kmem_scheme \<Rightarrow> fault + 'a kmem_scheme" where
  "kinit2 vstart vend s =
     bind_res (freerange vstart vend s) (\<lambda>s. Inr (s\<lparr>use_lock := True\<rparr>))"

section \<open>Abstraction: the list of free pages\<close>

primrec run_list :: "mem \<Rightarrow> u32 \<Rightarrow> u32 list \<Rightarrow> bool" where
  "run_list m p [] \<longleftrightarrow> p = 0"
| "run_list m p (x # xs) \<longleftrightarrow> p = x \<and> x \<noteq> 0 \<and> run_list m (read32 m x) xs"

definition page_ok :: "'a kmem_scheme \<Rightarrow> u32 \<Rightarrow> bool" where
  "page_ok s v \<longleftrightarrow> aligned 12 v \<and> kend s \<le> v \<and> V2P v < PHYSTOP"

definition free_pages :: "'a kmem_scheme \<Rightarrow> u32 list \<Rightarrow> bool" where
  "free_pages s xs \<longleftrightarrow>
     run_list (memory s) (freelist s) xs \<and> distinct xs \<and> (\<forall>x \<in> set xs. page_ok s x)"

text \<open>Two memories that agree outside one page.\<close>

definition only_page :: "u32 \<Rightarrow> mem \<Rightarrow> mem \<Rightarrow> bool" where
  "only_page v m m' \<longleftrightarrow> (\<forall>a. 4096 \<le> unat (a - v) \<longrightarrow> m' a = m a)"

lemma only_page_refl [simp]: "only_page v m m"
  by (simp add: only_page_def)

lemma only_page_trans: "only_page v m m' \<Longrightarrow> only_page v m' m'' \<Longrightarrow> only_page v m m''"
  by (simp add: only_page_def)

lemma only_page_read32:
  assumes "only_page v m m'" "aligned 12 v" "aligned 12 x" "x \<noteq> v" "unat i + 4 \<le> 4096"
  shows "read32 m' (x + i) = read32 m (x + i)"
proof (rule read32_cong)
  fix j :: u32 assume "unat j < 4"
  then have "unat (i + j) < 2 ^ 12" using assms(5) by (simp add: unat_word_ariths)
  then have "2 ^ 12 \<le> unat (x + (i + j) - v)" using assms by (intro blocks_disjoint) auto
  then show "m' (x + i + j) = m (x + i + j)"
    using assms(1) by (simp add: only_page_def add.assoc)
qed

lemma only_page_byte:
  assumes "only_page v m m'" "aligned 12 v" "aligned 12 x" "x \<noteq> v" "unat i < 4096"
  shows "m' (x + i) = m (x + i)"
  using blocks_disjoint[of 12 v x i] assms by (simp add: only_page_def)

lemma run_list_cong:
  "(\<And>x. x \<in> set xs \<Longrightarrow> read32 m' x = read32 m x) \<Longrightarrow> run_list m' p xs = run_list m p xs"
  by (induction xs arbitrary: p) auto

lemma run_list_frame:
  assumes "only_page v m m'" "aligned 12 v" "v \<notin> set xs" "\<And>x. x \<in> set xs \<Longrightarrow> aligned 12 x"
  shows "run_list m' p xs = run_list m p xs"
proof (rule run_list_cong)
  fix x assume "x \<in> set xs"
  then show "read32 m' x = read32 m x"
    using assms only_page_read32[of v m m' x 0] by auto
qed

lemma page_ok_nonzero: "page_ok s v \<Longrightarrow> v \<noteq> 0"
  by (auto simp: page_ok_def V2P_def)

lemma page_okD:
  assumes "page_ok s v"
  shows "aligned 12 v" "kend s \<le> v" "0x80000000 \<le> unat v" "unat v < 0x8E000000"
proof -
  have "unat (V2P v) < 0xE000000" using assms by (simp add: page_ok_def word_less_nat_alt)
  then show "0x80000000 \<le> unat v" "unat v < 0x8E000000"
    using unat_u32_less[of v] by (auto simp: V2P_def unat_sub_if_size word_size split: if_splits)
qed (use assms in \<open>simp_all add: page_ok_def\<close>)

section \<open>The operations on the abstraction\<close>

lemma kfree_eq:
  assumes "page_ok s v"
  shows "kfree v s = Inr (s\<lparr>memory := write32 (fill (memory s) v 4096 1) v (freelist s), freelist := v\<rparr>)"
  using assms by (simp add: kfree_def page_ok_def memset_fill aligned_mod_iff Let_def not_le not_less)

lemma kfree_panics: "\<not> page_ok s v \<Longrightarrow> kfree v s = Inl (Panic ''kfree'')"
  by (auto simp: kfree_def page_ok_def aligned_mod_iff not_le not_less)

lemma kfree_only_page: "kfree v s = Inr s' \<Longrightarrow> only_page v (memory s) (memory s')"
proof -
  assume "kfree v s = Inr s'"
  then have "memory s' = write32 (fill (memory s) v 4096 1) v (freelist s)"
    by (auto simp: kfree_def memset_fill Let_def split: if_splits)
  then show ?thesis by (simp add: only_page_def write32_outside fill_def)
qed

lemma kfree_links:
  "kfree v s = Inr s' \<Longrightarrow> freelist s' = v \<and> read32 (memory s') v = freelist s \<and> kend s' = kend s"
  by (auto simp: kfree_def Let_def split: if_splits)

lemma kfree_page_ok [simp]: "kfree v s = Inr s' \<Longrightarrow> page_ok s' = page_ok s"
  by (auto simp: kfree_def page_ok_def fun_eq_iff Let_def split: if_splits)

lemma kalloc_page_ok [simp]: "page_ok (snd (kalloc s)) = page_ok s"
  by (auto simp: kalloc_def page_ok_def fun_eq_iff Let_def)

lemma kalloc_memory [simp]: "memory (snd (kalloc s)) = memory s"
  by (auto simp: kalloc_def Let_def)

lemma kfree_free_pages:
  assumes "free_pages s xs" "page_ok s v" "v \<notin> set xs" "kfree v s = Inr s'"
  shows "free_pages s' (v # xs)"
proof -
  have m: "only_page v (memory s) (memory s')" using assms(4) by (rule kfree_only_page)
  have "run_list (memory s') (freelist s) xs"
    using assms run_list_frame[OF m, of xs] by (auto simp: free_pages_def page_ok_def)
  moreover have "freelist s' = v" "read32 (memory s') v = freelist s"
    using kfree_links[OF assms(4)] by simp_all
  ultimately show ?thesis
    using assms page_ok_nonzero by (auto simp: free_pages_def)
qed

lemma kalloc_empty: "free_pages s [] \<Longrightarrow> kalloc s = (0, s)"
  by (simp add: free_pages_def kalloc_def)

lemma kalloc_cons: "free_pages s (x # xs) \<Longrightarrow> fst (kalloc s) = x \<and> free_pages (snd (kalloc s)) xs"
  by (auto simp: free_pages_def kalloc_def Let_def page_ok_def)

section \<open>The allocator contract\<close>

text \<open>
  What the rest of the kernel relies on. \<open>pages s xs\<close> says that the free pages of \<open>s\<close> are \<open>xs\<close>, next
  page to hand out first; \<open>ok s v\<close> that \<open>v\<close> is the address of an allocatable page.
\<close>

primrec alloc_many :: "('s \<Rightarrow> u32 \<times> 's) \<Rightarrow> nat \<Rightarrow> 's \<Rightarrow> u32 list \<times> 's" where
  "alloc_many alloc 0 s = ([], s)"
| "alloc_many alloc (Suc n) s =
     (let (x, s1) = alloc s; (xs, s2) = alloc_many alloc n s1 in (x # xs, s2))"

locale page_allocator =
  fixes alloc :: "'s \<Rightarrow> u32 \<times> 's"
    and free :: "u32 \<Rightarrow> 's \<Rightarrow> fault + 's"
    and pages :: "'s \<Rightarrow> u32 list \<Rightarrow> bool"
    and ok :: "'s \<Rightarrow> u32 \<Rightarrow> bool"
  assumes alloc_none: "pages s [] \<Longrightarrow> alloc s = (0, s)"
    and alloc_some: "pages s (x # xs) \<Longrightarrow> fst (alloc s) = x \<and> pages (snd (alloc s)) xs"
    and free_page: "pages s xs \<Longrightarrow> ok s v \<Longrightarrow> v \<notin> set xs \<Longrightarrow>
      \<exists>s'. free v s = Inr s' \<and> pages s' (v # xs)"
    and free_bad: "\<not> ok s v \<Longrightarrow> \<exists>e. free v s = Inl e"
    and pages_distinct: "pages s xs \<Longrightarrow> distinct xs"
    and pages_ok: "pages s xs \<Longrightarrow> x \<in> set xs \<Longrightarrow> ok s x"
    and ok_nonzero: "ok s v \<Longrightarrow> v \<noteq> 0"
begin

lemma alloc_zero_iff: "pages s xs \<Longrightarrow> fst (alloc s) = 0 \<longleftrightarrow> xs = []"
  by (cases xs) (use alloc_none[of s] alloc_some[of s "hd xs" "tl xs"] pages_ok[of s xs "hd xs"]
      ok_nonzero[of s "hd xs"] in auto)

lemma alloc_pages: "pages s xs \<Longrightarrow> pages (snd (alloc s)) (tl xs)"
  by (cases xs) (use alloc_none[of s] in \<open>auto dest: alloc_some\<close>)

lemma alloc_in: "pages s xs \<Longrightarrow> fst (alloc s) \<noteq> 0 \<Longrightarrow> xs = fst (alloc s) # tl xs"
  by (cases xs) (auto dest: alloc_none alloc_some)

lemma alloc_fresh: "pages s xs \<Longrightarrow> fst (alloc s) \<noteq> 0 \<Longrightarrow> fst (alloc s) \<notin> set (tl xs)"
  by (metis alloc_in distinct.simps(2) pages_distinct)

lemma free_alloc:
  assumes "pages s xs" "ok s v" "v \<notin> set xs" "free v s = Inr s'"
  shows "fst (alloc s') = v \<and> pages (snd (alloc s')) xs"
  using free_page[OF assms(1-3)] assms(4) alloc_some[of s' v xs] by auto

lemma alloc_many_take:
  "pages s xs \<Longrightarrow> n \<le> length xs \<Longrightarrow>
   \<exists>s'. alloc_many alloc n s = (take n xs, s') \<and> pages s' (drop n xs)"
proof (induction n arbitrary: s xs)
  case (Suc n)
  then obtain x ys where xs: "xs = x # ys" by (cases xs) auto
  obtain s1 where s1: "alloc s = (x, s1)" "pages s1 ys"
    using alloc_some[of s x ys] Suc.prems xs by (cases "alloc s") auto
  then obtain s2 where "alloc_many alloc n s1 = (take n ys, s2)" "pages s2 (drop n ys)"
    using Suc.IH[of s1 ys] Suc.prems xs by auto
  then show ?case using s1 xs by simp
qed simp

text \<open>The pages handed out in a row are pairwise different, until the list is used up.\<close>

lemma alloc_many_distinct:
  "pages s xs \<Longrightarrow> n \<le> length xs \<Longrightarrow> distinct (fst (alloc_many alloc n s))"
  using alloc_many_take[of s xs n] pages_distinct[of s xs] by fastforce

end

lemma free_pages_distinct: "free_pages s xs \<Longrightarrow> distinct xs"
  by (simp add: free_pages_def)

lemma free_pages_ok: "free_pages s xs \<Longrightarrow> x \<in> set xs \<Longrightarrow> page_ok s x"
  by (simp add: free_pages_def)

lemma kfree_page:
  "free_pages s xs \<Longrightarrow> page_ok s v \<Longrightarrow> v \<notin> set xs \<Longrightarrow>
   \<exists>s'. kfree v s = Inr s' \<and> free_pages s' (v # xs)"
  using kfree_eq[of s v] kfree_free_pages[of s xs v] by blast

lemma kfree_bad: "\<not> page_ok s v \<Longrightarrow> \<exists>e. kfree v s = Inl e"
  by (simp add: kfree_panics)

interpretation ka: page_allocator "kalloc :: 'a kmem_scheme \<Rightarrow> u32 \<times> 'a kmem_scheme" kfree free_pages page_ok
  by unfold_locales
    (rule kalloc_empty kalloc_cons kfree_page free_pages_distinct free_pages_ok page_ok_nonzero
        kfree_bad; assumption)+

section \<open>Filling the free list at boot\<close>

primrec page_range :: "u32 \<Rightarrow> nat \<Rightarrow> u32 list" where
  "page_range p 0 = []"
| "page_range p (Suc n) = p # page_range (p + PGSIZE) n"

lemma page_range_bounds:
  "x \<in> set (page_range p n) \<Longrightarrow> unat p + 4096 * n \<le> 2 ^ 32 \<Longrightarrow>
   unat p \<le> unat x \<and> unat x + 4096 \<le> unat p + 4096 * n"
proof (induction n arbitrary: p)
  case (Suc n)
  show ?case
  proof (cases "n = 0")
    case False
    then have "unat (p + PGSIZE) = unat p + 4096"
      using Suc.prems(2) by (simp add: unat_word_ariths)
    then show ?thesis using Suc by fastforce
  qed (use Suc.prems in simp)
qed simp

lemma freerange_loop_pages:
  assumes "free_pages s xs" "aligned 12 p" "kend s \<le> p" "0x80000000 \<le> unat p"
    "unat vend \<le> 0x8E000000" "n = (unat vend - unat p) div 4096" "unat p \<le> unat vend"
    "set xs \<inter> set (page_range p n) = {}"
  shows "\<exists>s'. freerange_loop p vend s = Inr s' \<and> free_pages s' (rev (page_range p n) @ xs)
    \<and> kend s' = kend s"
  using assms
proof (induction n arbitrary: p s xs)
  case 0
  then have "unat vend < unat p + 4096" by auto
  moreover have "unat (p + PGSIZE) = unat p + 4096" using 0 by (simp add: unat_word_ariths)
  ultimately have "\<not> p + PGSIZE \<le> vend" by (simp add: word_le_nat_alt)
  then show ?case using 0 by (simp add: freerange_loop.simps[of p])
next
  case (Suc n)
  have p4: "unat (p + PGSIZE) = unat p + 4096" using Suc.prems by (simp add: unat_word_ariths)
  have "4096 \<le> unat vend - unat p"
    using Suc.prems(6) div_greater_zero_iff[of "unat vend - unat p" 4096] by simp
  then have le: "unat p + 4096 \<le> unat vend" by simp
  have guard: "p + PGSIZE \<le> vend" using le p4 by (simp add: word_le_nat_alt)
  have okp: "page_ok s p"
    using Suc.prems le
    by (auto simp: page_ok_def V2P_def word_less_nat_alt unat_sub_if_size word_size)
  have notin: "p \<notin> set xs" using Suc.prems(8) by auto
  obtain s1 where s1: "kfree p s = Inr s1" "free_pages s1 (p # xs)"
    using ka.free_page[OF Suc.prems(1) okp notin] by blast
  have kend: "kend s1 = kend s" using kfree_links[OF s1(1)] by simp
  have n: "n = (unat vend - unat (p + PGSIZE)) div 4096"
    using Suc.prems(6) p4 le le_div_geq[of 4096 "unat vend - unat p"] by simp
  have rng: "unat (p + PGSIZE) + 4096 * n \<le> 2 ^ 32"
  proof -
    have "4096 * n \<le> unat vend - unat (p + PGSIZE)"
      unfolding n by (rule times_div_less_eq_dividend)
    then show ?thesis using p4 le Suc.prems(5) by simp
  qed
  have "p \<notin> set (page_range (p + PGSIZE) n)"
    using page_range_bounds[OF _ rng, of p] p4 by auto
  then have disj: "set (p # xs) \<inter> set (page_range (p + PGSIZE) n) = {}"
    using Suc.prems(8) by auto
  have al: "aligned 12 (p + PGSIZE)"
    using Suc.prems(2) p4 by (simp add: aligned_def)
  have ke: "kend s1 \<le> p + PGSIZE"
    using Suc.prems(3) kend p4 by (simp add: word_le_nat_alt)
  have "\<exists>s'. freerange_loop (p + PGSIZE) vend s1 = Inr s'
      \<and> free_pages s' (rev (page_range (p + PGSIZE) n) @ p # xs) \<and> kend s' = kend s1"
    using Suc.prems le p4 by (intro Suc.IH s1(2) al ke n disj) auto
  then show ?case using guard s1(1) kend by (auto simp: freerange_loop.simps[of p])
qed

section \<open>Properties\<close>

text \<open>The examples use a machine with no free page yet, whose kernel image ends at \<open>0x80110000\<close>.\<close>

definition boot_mem :: kmem where
  "boot_mem = \<lparr>memory = \<lambda>_. 0, use_lock = False, freelist = 0, kend = 0x80110000\<rparr>"

lemma boot_mem_pages: "free_pages boot_mem []"
  by (simp add: free_pages_def boot_mem_def)

lemma boot_mem_ok: "page_ok boot_mem 0x80200000"
  by (simp add: page_ok_def boot_mem_def aligned_def V2P_def)

text \<open>
  C1. The allocator never hands out a page twice. As long as the free list lasts, the next \<open>n\<close> calls of
  \<open>kalloc\<close> return its first \<open>n\<close> pages, pairwise distinct, and leave the rest on the list.
\<close>

theorem kalloc_distinct:
  assumes "free_pages s xs" "n \<le> length xs"
  shows "\<exists>s'. alloc_many kalloc n s = (take n xs, s') \<and> distinct (take n xs) \<and> free_pages s' (drop n xs)"
  using ka.alloc_many_take[OF assms] ka.pages_distinct[OF assms(1)] distinct_take by blast

theorem kalloc_distinct_witness:
  "\<exists>s s'. kfree 0x80200000 boot_mem = Inr s \<and> alloc_many kalloc 1 s = ([0x80200000], s') \<and> free_pages s' []"
proof -
  obtain s where s: "kfree 0x80200000 boot_mem = Inr s" "free_pages s [0x80200000]"
    using ka.free_page[OF boot_mem_pages boot_mem_ok] by auto
  show ?thesis using kalloc_distinct[OF s(2), of 1] s(1) by auto
qed

text \<open>
  C6. \<open>kfree\<close> accepts exactly the page-aligned addresses between \<open>end\<close> and \<open>PHYSTOP\<close> and panics on any
  other. A page that was not free becomes the head of the free list, and the next \<open>kalloc\<close> returns
  it and restores the list.
\<close>

theorem kfree_kalloc:
  assumes "free_pages s xs" "v \<notin> set xs"
  shows "(v mod PGSIZE \<noteq> 0 \<or> v < kend s \<or> V2P v \<ge> PHYSTOP) \<and> kfree v s = Inl (Panic ''kfree'') \<or>
    (\<exists>s'. kfree v s = Inr s' \<and> free_pages s' (v # xs) \<and>
       fst (kalloc s') = v \<and> free_pages (snd (kalloc s')) xs)"
proof (cases "page_ok s v")
  case True
  then obtain s' where s': "kfree v s = Inr s'" "free_pages s' (v # xs)"
    using ka.free_page[OF assms(1) _ assms(2)] by blast
  then show ?thesis using ka.free_alloc[OF assms(1) True assms(2) s'(1)] by blast
next
  case False
  then show ?thesis using kfree_panics[OF False] by (auto simp: page_ok_def aligned_mod_iff not_le)
qed

theorem kfree_kalloc_witness:
  "\<exists>s'. kfree 0x80200000 boot_mem = Inr s' \<and> free_pages s' [0x80200000] \<and> fst (kalloc s') = 0x80200000"
  using kfree_kalloc[OF boot_mem_pages, of "0x80200000"] kfree_eq[OF boot_mem_ok] by auto

text \<open>
  C7. Boot. \<open>kinit1\<close> puts every whole page between \<open>vstart\<close> and \<open>vend\<close> on the free list, last page
  first, without a panic.
\<close>

theorem kinit1_pages:
  assumes "free_pages s []" "kend s \<le> vstart" "KERNBASE \<le> vstart" "PGROUNDUP vstart \<le> vend"
    "vstart \<le> vend" "vend \<le> KERNBASE + PHYSTOP"
  shows "\<exists>s'. kinit1 vstart vend s = Inr s' \<and>
    free_pages s' (rev (page_range (PGROUNDUP vstart) ((unat vend - unat (PGROUNDUP vstart)) div 4096)))"
proof -
  let ?p = "PGROUNDUP vstart" and ?s = "s\<lparr>use_lock := False\<rparr>"
  have hi: "unat vend \<le> 0x8E000000" using assms(6) by (simp add: word_le_nat_alt)
  have le: "unat ?p \<le> unat vend" using assms(4) by (simp add: word_le_nat_alt)
  have "unat vstart \<le> 0x8E000000" using assms(5) hi by (simp add: word_le_nat_alt)
  then have "vstart \<le> ?p" by (intro PGROUNDUP_ge) simp
  then have "kend ?s \<le> ?p" "0x80000000 \<le> unat ?p" using assms(2,3) by (auto simp: word_le_nat_alt)
  moreover have "free_pages ?s []" using assms(1) by (simp add: free_pages_def)
  ultimately show ?thesis
    using freerange_loop_pages[of ?s "[]" ?p vend, OF _ aligned_PGROUNDUP _ _ hi refl le]
    by (auto simp: kinit1_def freerange_def)
qed

theorem kinit1_pages_witness:
  "\<exists>s'. kinit1 0x80110000 0x80400000 boot_mem = Inr s' \<and>
     free_pages s' (rev (page_range 0x80110000 752))"
  using kinit1_pages[OF boot_mem_pages, of "0x80110000" "0x80400000"]
  by (simp add: boot_mem_def PGROUNDUP_def)

text \<open>
  Freeing a page that is already free breaks the allocator: the list becomes a cycle through that
  page, and two calls of \<open>kalloc\<close> in a row both return it. \<open>kfree\<close> has no test against this, so its
  callers must not free a page twice.
\<close>

theorem kfree_twice:
  assumes "page_ok s v" "kfree v s = Inr s1" "kfree v s1 = Inr s2"
  shows "fst (kalloc s2) = v \<and> fst (kalloc (snd (kalloc s2))) = v"
proof -
  have "freelist s2 = v" "read32 (memory s2) v = freelist s1" "freelist s1 = v"
    using kfree_links[OF assms(2)] kfree_links[OF assms(3)] by simp_all
  then show ?thesis using page_ok_nonzero[OF assms(1)] by (simp add: kalloc_def Let_def)
qed

theorem kfree_twice_witness:
  "\<exists>s1 s2. kfree 0x80200000 boot_mem = Inr s1 \<and> kfree 0x80200000 s1 = Inr s2 \<and>
     fst (kalloc s2) = 0x80200000 \<and> fst (kalloc (snd (kalloc s2))) = 0x80200000"
proof -
  obtain s1 where s1: "kfree 0x80200000 boot_mem = Inr s1" using kfree_eq[OF boot_mem_ok] by blast
  then have "page_ok s1 0x80200000" using boot_mem_ok by simp
  then obtain s2 where "kfree 0x80200000 s1 = Inr s2" using kfree_eq by blast
  then show ?thesis using kfree_twice[OF boot_mem_ok s1] s1 by blast
qed

end
