(* ===== verification/Pagetable.thy ===== *)
theory Pagetable
  imports Vm
begin

text \<open>
  Page directories as functions. \<open>pte_of m pgdir va\<close> is the page-table entry the directory at
  \<open>pgdir\<close> gives the virtual address \<open>va\<close> (0 when there is no page table). \<open>pt_wf\<close> says that the
  directory and its tables are distinct pages outside the free list; under it, \<open>walkpgdir\<close> and
  \<open>mappages\<close> are point updates of \<open>pte_of\<close>, and they touch no page of another address space.
\<close>

section \<open>Pages and slots\<close>

definition only_pages :: "u32 set \<Rightarrow> mem \<Rightarrow> mem \<Rightarrow> bool" where
  "only_pages S m m' \<longleftrightarrow> (\<forall>a. PGROUNDDOWN a \<notin> S \<longrightarrow> m' a = m a)"

lemma only_pages_refl [simp]: "only_pages S m m"
  by (simp add: only_pages_def)

lemma only_pages_trans: "only_pages S m m' \<Longrightarrow> only_pages S m' m'' \<Longrightarrow> only_pages S m m''"
  by (simp add: only_pages_def)

lemma only_pages_mono: "only_pages S m m' \<Longrightarrow> S \<subseteq> T \<Longrightarrow> only_pages T m m'"
  by (auto simp: only_pages_def)

lemma PGROUNDDOWN_add:
  assumes "aligned 12 p" "unat i < 4096"
  shows "PGROUNDDOWN (p + i) = p"
proof -
  have "unat (p + i) = unat p + unat i" using assms unat_add_aligned[of 12 p i] by simp
  moreover obtain q where "unat p = 4096 * q" using assms(1) by (auto simp: aligned_def)
  ultimately show ?thesis
    using assms(2) by (simp add: word_unat_eq_iff unat_PGROUNDDOWN)
qed

lemma PGROUNDDOWN_off: "\<exists>i. a = PGROUNDDOWN a + i \<and> unat i < 4096"
  by (rule exI[of _ "a - PGROUNDDOWN a"]) (simp add: page_offset_less)

lemma only_page_pages:
  assumes "only_page v m m'" "aligned 12 v"
  shows "only_pages {v} m m'"
  unfolding only_pages_def
proof (intro allI impI)
  fix a assume "PGROUNDDOWN a \<notin> {v}"
  moreover obtain i where "a = PGROUNDDOWN a + i" "unat i < 4096" using PGROUNDDOWN_off by blast
  ultimately show "m' a = m a"
    using only_page_byte[OF assms, of "PGROUNDDOWN a" i] by simp
qed

lemma only_pages_byte:
  "only_pages S m m' \<Longrightarrow> aligned 12 p \<Longrightarrow> p \<notin> S \<Longrightarrow> unat i < 4096 \<Longrightarrow> m' (p + i) = m (p + i)"
  by (simp add: only_pages_def PGROUNDDOWN_add)

lemma only_pages_read32:
  assumes "only_pages S m m'" "aligned 12 p" "p \<notin> S" "unat i + 4 \<le> 4096"
  shows "read32 m' (p + i) = read32 m (p + i)"
proof (rule read32_cong)
  fix j :: u32 assume "unat j < 4"
  then have "unat (i + j) < 4096" using assms(4) by (simp add: unat_word_ariths)
  then show "m' (p + i + j) = m (p + i + j)"
    using only_pages_byte[OF assms(1-3), of "i + j"] by (simp add: add.assoc)
qed

lemma unat_slot_off: "unat d < 1024 \<Longrightarrow> unat (4 * d) = 4 * unat (d :: u32)"
  by (simp add: unat_word_ariths)

lemma unat_slot:
  "aligned 12 p \<Longrightarrow> unat d < 1024 \<Longrightarrow> unat (p + 4 * d) = unat p + 4 * unat d"
  using unat_add_aligned[of 12 p "4 * d"] by (simp add: unat_slot_off)

lemma aligned_slot: "aligned 12 p \<Longrightarrow> unat d < 1024 \<Longrightarrow> aligned 2 (p + 4 * d)"
  by (auto simp: aligned_def unat_slot intro!: dvd_add intro: dvd_trans[of 4 4096])

lemma slot_inject:
  assumes "aligned 12 p" "aligned 12 q" "unat d < 1024" "unat e < 1024"
  shows "p + 4 * d = q + 4 * e \<longleftrightarrow> p = q \<and> d = e"
proof
  assume eq: "p + 4 * d = q + 4 * e"
  have "p = PGROUNDDOWN (p + 4 * d)" "q = PGROUNDDOWN (q + 4 * e)"
    using assms by (simp_all add: PGROUNDDOWN_add unat_slot_off)
  then have "p = q" using eq by simp
  moreover have "unat d = unat e" using unat_slot[OF assms(1,3)] unat_slot[OF assms(2,4)] eq \<open>p = q\<close> by simp
  ultimately show "p = q \<and> d = e" by (simp add: word_unat_eq_iff)
qed simp

lemma read32_write32_slot:
  assumes "aligned 12 p" "aligned 12 q" "unat d < 1024" "unat e < 1024"
  shows "read32 (write32 m (p + 4 * d) v) (q + 4 * e) =
    (if p = q \<and> d = e then v else read32 m (q + 4 * e))"
  using assms read32_write32_other[of "p + 4 * d" "q + 4 * e"] slot_inject[OF assms]
  by (auto simp: aligned_slot)

lemma only_pages_write32_slot:
  assumes "aligned 12 p" "unat d < 1024"
  shows "only_pages {p} m (write32 m (p + 4 * d) v)"
proof (rule only_page_pages)
  show "only_page p m (write32 m (p + 4 * d) v)"
    unfolding only_page_def
  proof (intro allI impI write32_outside)
    fix a assume a: "4096 \<le> unat (a - p)"
    have "unat (a - p - 4 * d) = unat (a - p) - 4 * unat d"
      using a assms(2) by (simp only: unat_sub_if_size word_size) (simp add: unat_slot_off)
    then show "4 \<le> unat (a - (p + 4 * d))" using a assms(2) by (simp add: diff_diff_eq)
  qed
qed (use assms in simp)

lemma only_pages_fill: "aligned 12 p \<Longrightarrow> only_pages {p} m (fill m p 4096 c)"
  by (rule only_page_pages) (auto simp: only_page_def fill_def)

lemma read32_fill_zero:
  assumes "unat d < 1024"
  shows "read32 (fill m p 4096 0) (p + 4 * d) = 0"
proof -
  have "read32 (fill m p 4096 0) (p + 4 * d) = read32 (\<lambda>_. 0) (p + 4 * d)"
  proof (rule read32_cong)
    fix j :: u32 assume "unat j < 4"
    then have "unat (4 * d + j) < 4096" using assms by (simp add: unat_word_ariths)
    then show "fill m p 4096 0 (p + 4 * d + j) = 0" by (simp add: fill_def add.assoc)
  qed
  then show ?thesis by (simp add: read32_def)
qed

lemma pte_parts:
  assumes "aligned 12 a" "unat f < 4096"
  shows "PTE_ADDR (a OR f) = a" "PTE_FLAGS (a OR f) = f"
proof -
  have a: "a AND NOT (mask 12) = a"
    using unat_and_not_mask[of a 12] assms(1) by (auto simp: word_unat_eq_iff aligned_def)
  have f: "f AND NOT (mask 12) = 0"
    using unat_and_not_mask[of f 12] assms(2) by (simp add: word_unat_eq_iff)
  have "f AND mask 12 = f" using unat_and_mask[of f 12] assms(2) by (simp add: word_unat_eq_iff)
  moreover have "a AND mask 12 = 0"
    using unat_and_mask[of a 12] assms(1) by (simp add: word_unat_eq_iff aligned_def dvd_eq_mod_eq_0)
  ultimately show "PTE_FLAGS (a OR f) = f"
    by (simp add: PTE_FLAGS_def mask_12 bit.conj_disj_distrib2)
  show "PTE_ADDR (a OR f) = a" using a f by (simp add: PTE_ADDR_def mask_12 bit.conj_disj_distrib2)
qed

lemma or_present [simp]: "(a OR 1) AND 1 = (1 :: u32)"
  by (simp add: bit.conj_disj_distrib2 bit.disj_conj_distrib)

section \<open>The abstraction\<close>

abbreviation (input) present :: "u32 \<Rightarrow> bool" where "present e \<equiv> e AND PTE_P \<noteq> 0"

definition pde_of :: "mem \<Rightarrow> u32 \<Rightarrow> u32 \<Rightarrow> u32" where
  "pde_of m pgdir d = read32 m (pgdir + 4 * d)"

definition tab_of :: "mem \<Rightarrow> u32 \<Rightarrow> u32 \<Rightarrow> u32" where
  "tab_of m pgdir d = P2V (PTE_ADDR (pde_of m pgdir d))"

definition pte_of :: "mem \<Rightarrow> u32 \<Rightarrow> u32 \<Rightarrow> u32" where
  "pte_of m pgdir va =
     (if present (pde_of m pgdir (PDX va)) then read32 m (tab_of m pgdir (PDX va) + 4 * PTX va) else 0)"

text \<open>The pages that make up a directory: itself and its page tables.\<close>

definition pt_pages :: "mem \<Rightarrow> u32 \<Rightarrow> u32 set" where
  "pt_pages m pgdir =
     insert pgdir {tab_of m pgdir d | d. unat d < 1024 \<and> present (pde_of m pgdir d)}"

definition pt_wf :: "'a kmem_scheme \<Rightarrow> u32 list \<Rightarrow> u32 \<Rightarrow> bool" where
  "pt_wf s xs pgdir \<longleftrightarrow>
     free_pages s xs \<and> page_ok s pgdir \<and> pgdir \<notin> set xs \<and>
     (\<forall>d. unat d < 1024 \<longrightarrow> present (pde_of (memory s) pgdir d) \<longrightarrow>
        page_ok s (tab_of (memory s) pgdir d) \<and> tab_of (memory s) pgdir d \<notin> set xs \<and>
        tab_of (memory s) pgdir d \<noteq> pgdir) \<and>
     (\<forall>d e. unat d < 1024 \<longrightarrow> unat e < 1024 \<longrightarrow>
        present (pde_of (memory s) pgdir d) \<longrightarrow> present (pde_of (memory s) pgdir e) \<longrightarrow>
        tab_of (memory s) pgdir d = tab_of (memory s) pgdir e \<longrightarrow> d = e)"

lemma pt_wfD:
  assumes "pt_wf s xs pgdir"
  shows "free_pages s xs" "page_ok s pgdir" "pgdir \<notin> set xs" "aligned 12 pgdir"
  using assms by (auto simp: pt_wf_def page_ok_def)

lemma pt_wfI:
  assumes "free_pages s xs" "page_ok s pgdir" "pgdir \<notin> set xs"
    "\<And>d. unat d < 1024 \<Longrightarrow> present (pde_of (memory s) pgdir d) \<Longrightarrow>
      page_ok s (tab_of (memory s) pgdir d) \<and> tab_of (memory s) pgdir d \<notin> set xs \<and>
      tab_of (memory s) pgdir d \<noteq> pgdir"
    "\<And>d e. unat d < 1024 \<Longrightarrow> unat e < 1024 \<Longrightarrow> present (pde_of (memory s) pgdir d) \<Longrightarrow>
      present (pde_of (memory s) pgdir e) \<Longrightarrow>
      tab_of (memory s) pgdir d = tab_of (memory s) pgdir e \<Longrightarrow> d = e"
  shows "pt_wf s xs pgdir"
  using assms unfolding pt_wf_def by blast

lemma pt_wf_tab:
  assumes "pt_wf s xs pgdir" "unat d < 1024" "present (pde_of (memory s) pgdir d)"
  shows "page_ok s (tab_of (memory s) pgdir d)" "tab_of (memory s) pgdir d \<notin> set xs"
    "tab_of (memory s) pgdir d \<noteq> pgdir" "aligned 12 (tab_of (memory s) pgdir d)"
  using assms by (auto simp: pt_wf_def page_ok_def)

lemma pt_wf_tab_inj:
  assumes "pt_wf s xs pgdir" "unat d < 1024" "unat e < 1024"
    "present (pde_of (memory s) pgdir d)" "present (pde_of (memory s) pgdir e)"
    "tab_of (memory s) pgdir d = tab_of (memory s) pgdir e"
  shows "d = e"
  using assms by (auto simp: pt_wf_def)

lemma pde_of_frame:
  "only_pages S m m' \<Longrightarrow> aligned 12 pgdir \<Longrightarrow> pgdir \<notin> S \<Longrightarrow> unat d < 1024 \<Longrightarrow>
   pde_of m' pgdir d = pde_of m pgdir d"
  unfolding pde_of_def by (rule only_pages_read32) (auto simp: unat_slot_off)

lemma tab_of_cong: "pde_of m' pgdir d = pde_of m pgdir d \<Longrightarrow> tab_of m' pgdir d = tab_of m pgdir d"
  by (simp add: tab_of_def)

lemma free_pages_frame:
  assumes "free_pages s xs" "only_pages S (memory s) m'" "set xs \<inter> S = {}"
  shows "free_pages (s\<lparr>memory := m'\<rparr>) xs"
proof -
  have "run_list m' (freelist s) xs = run_list (memory s) (freelist s) xs"
  proof (rule run_list_cong)
    fix x assume "x \<in> set xs"
    then show "read32 m' x = read32 (memory s) x"
      using assms only_pages_read32[of S "memory s" m' x 0]
      by (auto simp: free_pages_def page_ok_def)
  qed
  then show ?thesis using assms(1) by (auto simp: free_pages_def page_ok_def)
qed

text \<open>Changes outside a directory's own pages leave its entries alone.\<close>

lemma pte_of_frame:
  assumes "only_pages S m m'" "aligned 12 pgdir" "pt_pages m pgdir \<inter> S = {}"
    "\<And>d. unat d < 1024 \<Longrightarrow> present (pde_of m pgdir d) \<Longrightarrow> aligned 12 (tab_of m pgdir d)"
  shows "pte_of m' pgdir va = pte_of m pgdir va"
proof -
  have pd: "pde_of m' pgdir (PDX va) = pde_of m pgdir (PDX va)"
    using assms(1-3) by (intro pde_of_frame) (auto simp: pt_pages_def PDX_less)
  show ?thesis
  proof (cases "present (pde_of m pgdir (PDX va))")
    case True
    then have "tab_of m pgdir (PDX va) \<notin> S"
      using assms(3) PDX_less[of va] by (auto simp: pt_pages_def)
    then have "read32 m' (tab_of m pgdir (PDX va) + 4 * PTX va)
        = read32 m (tab_of m pgdir (PDX va) + 4 * PTX va)"
      using assms(4)[OF PDX_less True] PTX_less[of va]
      by (intro only_pages_read32[OF assms(1)]) (simp_all add: unat_slot_off)
    then show ?thesis using pd tab_of_cong[OF pd] by (simp add: pte_of_def)
  qed (simp add: pte_of_def pd)
qed

lemma pt_wf_frame:
  assumes "pt_wf s xs pgdir" "only_pages S (memory s) m'" "pt_pages (memory s) pgdir \<inter> S = {}"
    "set xs \<inter> S = {}"
  shows "pt_wf (s\<lparr>memory := m'\<rparr>) xs pgdir"
proof -
  have pd: "pde_of m' pgdir d = pde_of (memory s) pgdir d" if "unat d < 1024" for d
    using assms pt_wfD(4)[OF assms(1)] that by (intro pde_of_frame[of S]) (auto simp: pt_pages_def)
  have tb: "tab_of m' pgdir d = tab_of (memory s) pgdir d" if "unat d < 1024" for d
    by (rule tab_of_cong) (rule pd[OF that])
  have "free_pages (s\<lparr>memory := m'\<rparr>) xs"
    using assms by (auto intro: free_pages_frame dest: pt_wfD)
  then show ?thesis using assms(1) pd tb by (simp add: pt_wf_def page_ok_def)
qed

section \<open>\<open>walkpgdir\<close>\<close>

lemma page_ok_V2P: "page_ok s v \<Longrightarrow> aligned 12 (V2P v)"
proof -
  assume "page_ok s v"
  then have "aligned 12 v" by (rule page_okD)
  then show ?thesis
    unfolding V2P_def by (intro aligned_diff) (auto simp: aligned_def)
qed

lemma slot_nonzero: "page_ok s p \<Longrightarrow> unat d < 1024 \<Longrightarrow> p + 4 * d \<noteq> 0"
  using page_okD[of s p] unat_slot[of p d] by (metis add_is_0 not_numeral_le_zero unat_0)

lemma pde_ptr_pde: "read32 m (pde_ptr pgdir va) = pde_of m pgdir (PDX va)"
  by (simp add: pde_ptr_def pde_of_def)

lemma walkpgdir_present:
  "present (pde_of (memory s) pgdir (PDX va)) \<Longrightarrow>
   walkpgdir pgdir va alloc s = (tab_of (memory s) pgdir (PDX va) + 4 * PTX va, s)"
  by (simp add: walkpgdir_def pde_ptr_pde tab_of_def)

lemma walkpgdir_absent:
  "\<not> present (pde_of (memory s) pgdir (PDX va)) \<Longrightarrow> walkpgdir pgdir va False s = (0, s)"
  by (simp add: walkpgdir_def pde_ptr_pde)

text \<open>What a new, zeroed page table does to memory.\<close>

definition new_table :: "u32 \<Rightarrow> u32 \<Rightarrow> u32 \<Rightarrow> mem \<Rightarrow> mem" where
  "new_table pgdir d x m = write32 (fill m x 4096 0) (pgdir + 4 * d) (V2P x OR PTE_P OR PTE_W OR PTE_U)"

lemma walkpgdir_new:
  assumes "\<not> present (pde_of (memory s) pgdir (PDX va))" "free_pages s (x # ys)"
  shows "walkpgdir pgdir va True s =
    (x + 4 * PTX va, snd (kalloc s)\<lparr>memory := new_table pgdir (PDX va) x (memory s)\<rparr>)"
proof -
  have "fst (kalloc s) = x" "x \<noteq> 0"
    using ka.alloc_some[OF assms(2)] ka.pages_ok[OF assms(2)] ka.ok_nonzero by auto
  then obtain s1 where k: "kalloc s = (x, s1)" by (cases "kalloc s") auto
  then have "memory s1 = memory s" using kalloc_memory[of s] by simp
  then show ?thesis
    using assms(1) k \<open>x \<noteq> 0\<close>
    by (simp add: walkpgdir_def Let_def pde_of_def new_table_def pde_ptr_def memset_fill)
qed

lemma walkpgdir_full:
  assumes "\<not> present (pde_of (memory s) pgdir (PDX va))" "free_pages s []"
  shows "walkpgdir pgdir va True s = (0, s)"
  using assms kalloc_empty[of s] by (simp add: walkpgdir_def pde_ptr_pde)

lemma pde_of_new_table:
  assumes "pt_wf s (x # ys) pgdir" "unat d < 1024" "unat e < 1024"
  shows "pde_of (new_table pgdir d x (memory s)) pgdir e =
    (if e = d then V2P x OR 7 else pde_of (memory s) pgdir e)"
proof -
  have x: "aligned 12 x" "x \<noteq> pgdir"
    using pt_wfD[OF assms(1)] ka.pages_ok[of s "x # ys" x] page_okD(1)[of s x] by auto
  have "read32 (fill (memory s) x 4096 0) (pgdir + 4 * e) = read32 (memory s) (pgdir + 4 * e)"
    using x pt_wfD(4)[OF assms(1)] assms(3)
    by (intro only_pages_read32[OF only_pages_fill]) (auto simp: unat_slot_off)
  then show ?thesis
    using pt_wfD(4)[OF assms(1)] assms by (simp add: pde_of_def new_table_def read32_write32_slot)
qed

lemma new_table_entry:
  assumes "page_ok s x"
  shows "PTE_ADDR (V2P x OR 7) = V2P x" "present (V2P x OR 7)"
proof -
  show "PTE_ADDR (V2P x OR 7) = V2P x" using page_ok_V2P[OF assms] by (rule pte_parts(1)) simp
  show "present (V2P x OR 7)" by (simp add: bit.conj_disj_distrib2)
qed

lemma only_pages_new_table:
  assumes "aligned 12 x" "aligned 12 pgdir" "unat d < 1024"
  shows "only_pages {x, pgdir} m (new_table pgdir d x m)"
proof (rule only_pages_trans)
  show "only_pages {x, pgdir} m (fill m x 4096 0)"
    by (rule only_pages_mono[OF only_pages_fill[OF assms(1)]]) auto
  show "only_pages {x, pgdir} (fill m x 4096 0) (new_table pgdir d x m)"
    unfolding new_table_def
    by (rule only_pages_mono[OF only_pages_write32_slot[OF assms(2,3)]]) auto
qed

text \<open>
  \<open>pt_grow pgdir s xs s' ys\<close>: the step from \<open>s\<close> to \<open>s'\<close> may have taken pages off the free list
  for tables of \<open>pgdir\<close>, and changed nothing but those pages and the pages of \<open>pgdir\<close>.
\<close>

definition kmem_same :: "'a kmem_scheme \<Rightarrow> 'a kmem_scheme \<Rightarrow> bool" where
  "kmem_same s s' \<longleftrightarrow> s' = s\<lparr>memory := memory s', freelist := freelist s'\<rparr>"

definition pt_grow ::
  "u32 \<Rightarrow> 'a kmem_scheme \<Rightarrow> u32 list \<Rightarrow> 'a kmem_scheme \<Rightarrow> u32 list \<Rightarrow> bool" where
  "pt_grow pgdir s xs s' ys \<longleftrightarrow>
     pt_wf s' ys pgdir \<and> kmem_same s s' \<and>
     (\<exists>zs. xs = zs @ ys \<and> only_pages (pt_pages (memory s) pgdir \<union> set zs) (memory s) (memory s') \<and>
        pt_pages (memory s') pgdir = pt_pages (memory s) pgdir \<union> set zs)"

lemma kmem_same_refl [simp]: "kmem_same s s"
  by (simp add: kmem_same_def)

lemma kmem_same_trans:
  assumes "kmem_same s t" "kmem_same t u" shows "kmem_same s u"
proof -
  have t: "t = s\<lparr>memory := memory t, freelist := freelist t\<rparr>" using assms(1) by (simp add: kmem_same_def)
  have "u = t\<lparr>memory := memory u, freelist := freelist u\<rparr>" using assms(2) by (simp add: kmem_same_def)
  also have "\<dots> = s\<lparr>memory := memory u, freelist := freelist u\<rparr>" by (subst t) simp
  finally show ?thesis by (simp only: kmem_same_def)
qed

lemma kmem_same_memory: "kmem_same s t \<Longrightarrow> kmem_same s (t\<lparr>memory := m\<rparr>)"
  unfolding kmem_same_def by (drule arg_cong[where f = "\<lambda>t. t\<lparr>memory := m\<rparr>"]) simp

lemma kmem_same_kalloc: "kmem_same s (snd (kalloc s))"
  by (simp add: kmem_same_def kalloc_def Let_def)

lemma kmem_same_kend: "kmem_same s s' \<Longrightarrow> kend s' = kend s"
  unfolding kmem_same_def by (drule arg_cong[where f = kend]) simp

lemma kmem_same_page_ok: "kmem_same s s' \<Longrightarrow> page_ok s' = page_ok s"
  by (simp add: page_ok_def fun_eq_iff kmem_same_kend)

lemma pt_grow_refl: "pt_wf s xs pgdir \<Longrightarrow> pt_grow pgdir s xs s xs"
  by (simp add: pt_grow_def)

lemma pt_grow_trans:
  assumes "pt_grow pgdir s xs t ys" "pt_grow pgdir t ys u zs"
  shows "pt_grow pgdir s xs u zs"
proof -
  obtain as where as: "xs = as @ ys" "only_pages (pt_pages (memory s) pgdir \<union> set as) (memory s) (memory t)"
    "pt_pages (memory t) pgdir = pt_pages (memory s) pgdir \<union> set as"
    using assms(1) by (auto simp: pt_grow_def)
  obtain bs where bs: "ys = bs @ zs" "only_pages (pt_pages (memory t) pgdir \<union> set bs) (memory t) (memory u)"
    "pt_pages (memory u) pgdir = pt_pages (memory t) pgdir \<union> set bs"
    using assms(2) by (auto simp: pt_grow_def)
  let ?S = "pt_pages (memory s) pgdir \<union> set (as @ bs)"
  have "only_pages ?S (memory s) (memory t)" using as(2) by (rule only_pages_mono) auto
  moreover have "only_pages ?S (memory t) (memory u)"
    using bs(2) by (rule only_pages_mono) (use as(3) in auto)
  ultimately have 1: "only_pages ?S (memory s) (memory u)" by (rule only_pages_trans)
  have 2: "pt_pages (memory u) pgdir = ?S" using as(3) bs(3) by auto
  have 3: "kmem_same s u" "pt_wf u zs pgdir"
    using assms by (auto simp: pt_grow_def intro: kmem_same_trans)
  have "xs = (as @ bs) @ zs" using as(1) bs(1) by simp
  then show ?thesis using 1 2 3 unfolding pt_grow_def by blast
qed

lemma tab_of_new_table:
  assumes "pt_wf s (x # ys) pgdir" "unat d < 1024" "unat e < 1024"
  shows "tab_of (new_table pgdir d x (memory s)) pgdir e = (if e = d then x else tab_of (memory s) pgdir e)"
  using pde_of_new_table[OF assms] new_table_entry(1)[of s x] ka.pages_ok[of s "x # ys" x] pt_wfD(1)[OF assms(1)]
  by (simp add: tab_of_def)

lemma pte_of_new_table:
  assumes wf: "pt_wf s (x # ys) pgdir" and d: "unat d < 1024"
    and abs: "\<not> present (pde_of (memory s) pgdir d)"
  shows "pte_of (new_table pgdir d x (memory s)) pgdir va = pte_of (memory s) pgdir va"
proof -
  let ?m = "new_table pgdir d x (memory s)"
  have x: "page_ok s x" "aligned 12 x" "x \<noteq> pgdir"
    using pt_wfD[OF wf] ka.pages_ok[of s "x # ys" x] page_okD(1)[of s x] by auto
  have op: "only_pages {x, pgdir} (memory s) ?m"
    using x pt_wfD(4)[OF wf] d by (intro only_pages_new_table)
  show ?thesis
  proof (cases "PDX va = d")
    case True
    have "read32 ?m (x + 4 * PTX va) = 0"
      using x pt_wfD(4)[OF wf] d by (simp add: new_table_def read32_write32_slot PTX_less read32_fill_zero)
    then show ?thesis
      using True abs pde_of_new_table[OF wf d d] tab_of_new_table[OF wf d d]
      by (simp add: pte_of_def)
  next
    case False
    have pd: "pde_of ?m pgdir (PDX va) = pde_of (memory s) pgdir (PDX va)"
      using pde_of_new_table[OF wf d PDX_less] False by simp
    show ?thesis
    proof (cases "present (pde_of (memory s) pgdir (PDX va))")
      case True
      note t = pt_wf_tab[OF wf PDX_less True]
      have "read32 ?m (tab_of (memory s) pgdir (PDX va) + 4 * PTX va) =
          read32 (memory s) (tab_of (memory s) pgdir (PDX va) + 4 * PTX va)"
        using t PTX_less[of va] by (intro only_pages_read32[OF op]) (auto simp: unat_slot_off)
      then show ?thesis using pd tab_of_cong[OF pd] by (simp add: pte_of_def)
    qed (simp add: pte_of_def pd)
  qed
qed

lemma pt_grow_new_table:
  assumes wf: "pt_wf s (x # ys) pgdir" and d: "unat d < 1024"
    and abs: "\<not> present (pde_of (memory s) pgdir d)"
  shows "pt_grow pgdir s (x # ys) (snd (kalloc s)\<lparr>memory := new_table pgdir d x (memory s)\<rparr>) ys"
    (is "pt_grow _ _ _ ?s' _")
proof -
  let ?m = "new_table pgdir d x (memory s)"
  have x: "page_ok s x" "aligned 12 x" "x \<noteq> pgdir" "x \<notin> set ys" "distinct (x # ys)"
    using pt_wfD[OF wf] ka.pages_ok[of s "x # ys" x] page_okD(1)[of s x] ka.pages_distinct[of s "x # ys"]
    by auto
  have op: "only_pages {x, pgdir} (memory s) ?m"
    using x pt_wfD(4)[OF wf] d by (intro only_pages_new_table)
  have same: "kmem_same s ?s'" by (intro kmem_same_memory kmem_same_kalloc)
  have fp: "free_pages ?s' ys"
    using ka.alloc_some[OF pt_wfD(1)[OF wf]] op x pt_wfD(3)[OF wf]
    by (intro free_pages_frame[where S = "{x, pgdir}"]) auto
  have pr: "present (pde_of ?m pgdir e) \<longleftrightarrow> e = d \<or> present (pde_of (memory s) pgdir e)"
    if "unat e < 1024" for e
    using pde_of_new_table[OF wf d that] new_table_entry(2)[OF x(1)] by simp
  note tb = tab_of_new_table[OF wf d]
  have m: "memory ?s' = ?m" by simp
  have wf': "pt_wf ?s' ys pgdir"
  proof (rule pt_wfI[OF fp])
    show "page_ok ?s' pgdir" "pgdir \<notin> set ys"
      using pt_wfD[OF wf] kmem_same_page_ok[OF same] by simp_all
  next
    fix e assume e: "unat e < 1024" "present (pde_of (memory ?s') pgdir e)"
    consider "e = d" | "e \<noteq> d" "present (pde_of (memory s) pgdir e)" using pr[OF e(1)] e(2) m by auto
    then show "page_ok ?s' (tab_of (memory ?s') pgdir e) \<and> tab_of (memory ?s') pgdir e \<notin> set ys \<and>
        tab_of (memory ?s') pgdir e \<noteq> pgdir"
    proof cases
      case 1
      then show ?thesis unfolding m kmem_same_page_ok[OF same] using x tb[OF e(1)] by simp
    next
      case 2
      then show ?thesis unfolding m kmem_same_page_ok[OF same]
        using pt_wf_tab[OF wf e(1) 2(2)] tb[OF e(1)] by simp
    qed
  next
    fix a b assume ab: "unat a < 1024" "unat b < 1024" "present (pde_of (memory ?s') pgdir a)"
      "present (pde_of (memory ?s') pgdir b)" "tab_of (memory ?s') pgdir a = tab_of (memory ?s') pgdir b"
    have n: "tab_of (memory s) pgdir c \<noteq> x" if "unat c < 1024" "present (pde_of (memory s) pgdir c)" for c
      using pt_wf_tab(2)[OF wf that] by auto
    show "a = b"
      using ab(3-5) pr[OF ab(1)] pr[OF ab(2)] tb[OF ab(1)] tb[OF ab(2)] n[OF ab(1)] n[OF ab(2)]
        pt_wf_tab_inj[OF wf ab(1,2)] unfolding m by metis
  qed
  have pp: "pt_pages ?m pgdir = insert x (pt_pages (memory s) pgdir)"
  proof -
    have "{tab_of ?m pgdir e | e. unat e < 1024 \<and> present (pde_of ?m pgdir e)}
        = insert x {tab_of (memory s) pgdir e | e. unat e < 1024 \<and> present (pde_of (memory s) pgdir e)}"
      using pr tb d abs by (auto split: if_splits) metis+
    then show ?thesis by (auto simp: pt_pages_def)
  qed
  have "only_pages (pt_pages (memory s) pgdir \<union> set [x]) (memory s) (memory ?s')"
    using op by (auto elim!: only_pages_mono simp: pt_pages_def)
  then show ?thesis
    using wf' same pp unfolding pt_grow_def by (intro conjI exI[of _ "[x]"]) auto
qed

text \<open>The outcome of a walk that may allocate.\<close>

lemma walkpgdir_alloc:
  assumes "pt_wf s xs pgdir"
  obtains (full) "walkpgdir pgdir va True s = (0, s)" "xs = []"
  | (entry) s' ys where "walkpgdir pgdir va True s = (tab_of (memory s') pgdir (PDX va) + 4 * PTX va, s')"
      "tab_of (memory s') pgdir (PDX va) + 4 * PTX va \<noteq> 0"
      "pt_grow pgdir s xs s' ys" "present (pde_of (memory s') pgdir (PDX va))"
      "pte_of (memory s') pgdir = pte_of (memory s) pgdir" "length xs \<le> Suc (length ys)"
proof (cases "present (pde_of (memory s) pgdir (PDX va))")
  case True
  then show ?thesis
    using entry[of s xs] walkpgdir_present[OF True] pt_grow_refl[OF assms]
      slot_nonzero[OF pt_wf_tab(1)[OF assms PDX_less True] PTX_less] by (metis le_SucI order_refl)
next
  case False
  show ?thesis
  proof (cases xs)
    case Nil
    then show ?thesis using full walkpgdir_full[OF False] pt_wfD(1)[OF assms] by simp
  next
    case (Cons x ys)
    let ?s' = "snd (kalloc s)\<lparr>memory := new_table pgdir (PDX va) x (memory s)\<rparr>"
    have wf: "pt_wf s (x # ys) pgdir" using assms Cons by simp
    have x: "page_ok s x" using pt_wfD(1)[OF wf] ka.pages_ok[of s "x # ys" x] by simp
    have tb: "tab_of (memory ?s') pgdir (PDX va) = x"
      using tab_of_new_table[OF wf PDX_less PDX_less, of va va] by simp
    show ?thesis
    proof (rule entry[of ?s' ys])
      show "walkpgdir pgdir va True s = (tab_of (memory ?s') pgdir (PDX va) + 4 * PTX va, ?s')"
        using walkpgdir_new[OF False pt_wfD(1)[OF wf]] tb by simp
      show "tab_of (memory ?s') pgdir (PDX va) + 4 * PTX va \<noteq> 0"
        unfolding tb using x PTX_less by (rule slot_nonzero)
      show "pt_grow pgdir s xs ?s' ys" using pt_grow_new_table[OF wf PDX_less False] Cons by simp
      show "present (pde_of (memory ?s') pgdir (PDX va))"
        using pde_of_new_table[OF wf PDX_less PDX_less, of va va] new_table_entry(2)[OF x] by simp
      show "pte_of (memory ?s') pgdir = pte_of (memory s) pgdir"
        using pte_of_new_table[OF wf PDX_less False] by (simp add: fun_eq_iff)
    qed (simp add: Cons)
  qed
qed

section \<open>Writing one entry\<close>

lemma same_page_iff: "PDX va = PDX vb \<and> PTX va = PTX vb \<longleftrightarrow> PGROUNDDOWN va = PGROUNDDOWN vb"
proof -
  have q: "x div 4194304 = x div 4096 div 1024" for x :: nat by (simp add: div_mult2_eq[symmetric])
  have e: "a = b" if "a div 1024 = b div 1024" "a mod 1024 = b mod 1024" for a b :: nat
    by (metis that div_mult_mod_eq)
  have "x div 4194304 = y div 4194304 \<and> x div 4096 mod 1024 = y div 4096 mod 1024
      \<longleftrightarrow> x div 4096 = y div 4096" for x y :: nat
    unfolding q using e[of "x div 4096" "y div 4096"] by auto
  then show ?thesis
    by (simp add: word_unat_eq_iff unat_PDX unat_PTX unat_PGROUNDDOWN)
qed

lemma set_pte:
  fixes v :: u32
  assumes wf: "pt_wf s xs pgdir" and pr: "present (pde_of (memory s) pgdir (PDX va))"
  defines "m' \<equiv> write32 (memory s) (tab_of (memory s) pgdir (PDX va) + 4 * PTX va) v"
  shows "pt_grow pgdir s xs (s\<lparr>memory := m'\<rparr>) xs"
    and "pte_of m' pgdir =
      (\<lambda>vb. if PGROUNDDOWN vb = PGROUNDDOWN va then v else pte_of (memory s) pgdir vb)"
proof -
  let ?t = "tab_of (memory s) pgdir (PDX va)"
  note t = pt_wf_tab[OF wf PDX_less pr]
  have op: "only_pages {?t} (memory s) m'"
    unfolding m'_def using t PTX_less by (intro only_pages_write32_slot)
  have pd: "pde_of m' pgdir d = pde_of (memory s) pgdir d" if "unat d < 1024" for d
    using t pt_wfD(4)[OF wf] that by (intro pde_of_frame[OF op]) auto
  have tb: "tab_of m' pgdir d = tab_of (memory s) pgdir d" if "unat d < 1024" for d
    by (rule tab_of_cong) (rule pd[OF that])
  have fp: "free_pages (s\<lparr>memory := m'\<rparr>) xs"
    using t pt_wfD(1)[OF wf] by (intro free_pages_frame[OF _ op]) auto
  have wf': "pt_wf (s\<lparr>memory := m'\<rparr>) xs pgdir"
    using wf pd tb fp by (simp add: pt_wf_def page_ok_def)
  have pp: "pt_pages m' pgdir = pt_pages (memory s) pgdir"
    unfolding pt_pages_def using pd tb by (intro arg_cong[of _ _ "insert pgdir"] Collect_cong) metis
  have "only_pages (pt_pages (memory s) pgdir \<union> set []) (memory s) m'"
    using op pr PDX_less[of va] by (elim only_pages_mono) (auto simp: pt_pages_def)
  then show "pt_grow pgdir s xs (s\<lparr>memory := m'\<rparr>) xs"
    using wf' pp unfolding pt_grow_def by (intro conjI exI[of _ "[]"]) (auto intro: kmem_same_memory)
  show "pte_of m' pgdir =
      (\<lambda>vb. if PGROUNDDOWN vb = PGROUNDDOWN va then v else pte_of (memory s) pgdir vb)"
  proof
    fix vb
    show "pte_of m' pgdir vb = (if PGROUNDDOWN vb = PGROUNDDOWN va then v else pte_of (memory s) pgdir vb)"
    proof (cases "present (pde_of (memory s) pgdir (PDX vb))")
      case True
      have "?t = tab_of (memory s) pgdir (PDX vb) \<longleftrightarrow> PDX va = PDX vb"
        using pt_wf_tab_inj[OF wf PDX_less PDX_less pr True] by auto
      then have "read32 m' (tab_of (memory s) pgdir (PDX vb) + 4 * PTX vb) =
          (if PDX va = PDX vb \<and> PTX va = PTX vb then v
           else read32 (memory s) (tab_of (memory s) pgdir (PDX vb) + 4 * PTX vb))"
        unfolding m'_def
        using t(4) pt_wf_tab(4)[OF wf PDX_less True] by (simp add: read32_write32_slot PTX_less)
      then show ?thesis
        using True pd[OF PDX_less] tb[OF PDX_less] same_page_iff[of va vb] by (auto simp: pte_of_def)
    next
      case False
      then have "PDX va \<noteq> PDX vb" using pr by auto
      then show ?thesis
        using False pd[OF PDX_less] same_page_iff[of va vb] by (auto simp: pte_of_def)
    qed
  qed
qed

section \<open>\<open>mappages\<close>\<close>

text \<open>\<open>n\<close> pages from \<open>a\<close> on mapped to consecutive frames from \<open>pa\<close> on.\<close>

definition map_pages :: "u32 \<Rightarrow> nat \<Rightarrow> u32 \<Rightarrow> u32 \<Rightarrow> (u32 \<Rightarrow> u32) \<Rightarrow> u32 \<Rightarrow> u32" where
  "map_pages a n pa perm f vb =
     (let off = PGROUNDDOWN vb - a
      in if unat off < 4096 * n then (pa + off) OR perm OR PTE_P else f vb)"

lemma map_pages_0 [simp]: "map_pages a 0 pa perm f = f"
  by (simp add: map_pages_def fun_eq_iff)

lemma aligned_unat_cases: "aligned 12 x \<Longrightarrow> x = 0 \<or> 4096 \<le> unat x"
  using dvd_imp_le[of 4096 "unat x"] by (auto simp: aligned_def unat_gt_0)

lemma map_pages_Suc:
  assumes "aligned 12 a" "4096 * Suc k \<le> 2 ^ 32"
  shows "map_pages (a + PGSIZE) k (pa + PGSIZE) perm
      (\<lambda>vb. if PGROUNDDOWN vb = a then pa OR perm OR PTE_P else f vb) = map_pages a (Suc k) pa perm f"
proof
  fix vb
  let ?o = "PGROUNDDOWN vb - a"
  have al: "aligned 12 ?o" using assms by (intro aligned_diff) auto
  have o': "PGROUNDDOWN vb - (a + PGSIZE) = ?o - PGSIZE" by (simp add: diff_diff_eq)
  show "map_pages (a + PGSIZE) k (pa + PGSIZE) perm
      (\<lambda>vb. if PGROUNDDOWN vb = a then pa OR perm OR PTE_P else f vb) vb = map_pages a (Suc k) pa perm f vb"
  proof (cases "?o = 0")
    case True
    then have "unat (?o - PGSIZE) = 2 ^ 32 - 4096" by simp
    then have "\<not> unat (?o - PGSIZE) < 4096 * k" using assms(2) by simp
    then show ?thesis using True o' by (simp add: map_pages_def)
  next
    case False
    then have "4096 \<le> unat ?o" using al aligned_unat_cases by blast
    then have "unat (?o - PGSIZE) = unat ?o - 4096"
      by (simp only: unat_sub_if_size word_size) simp
    then have "unat (?o - PGSIZE) < 4096 * k \<longleftrightarrow> unat ?o < 4096 * Suc k"
      using \<open>4096 \<le> unat ?o\<close> by auto
    then show ?thesis using False o' unfolding map_pages_def Let_def o' by auto
  qed
qed

lemma map_pages_1:
  assumes "aligned 12 a"
  shows "map_pages a 1 pa perm f = (\<lambda>vb. if PGROUNDDOWN vb = a then pa OR perm OR PTE_P else f vb)"
  using map_pages_Suc[OF assms, of 0 pa perm f] by simp

lemma pt_grow_wf: "pt_grow pgdir s xs s' ys \<Longrightarrow> pt_wf s' ys pgdir"
  by (simp add: pt_grow_def)

lemma pt_wf_pte: "pt_wf s xs pgdir \<Longrightarrow> present (pde_of (memory s) pgdir (PDX va)) \<Longrightarrow>
  read32 (memory s) (tab_of (memory s) pgdir (PDX va) + 4 * PTX va) = pte_of (memory s) pgdir va"
  by (simp add: pte_of_def)

text \<open>One round of the loop, for a page with no entry yet.\<close>

lemma mappages_round:
  assumes wf: "pt_wf s xs pgdir" and a: "aligned 12 a"
    and abs: "\<not> present (pte_of (memory s) pgdir a)"
  obtains (full) "xs = []" "mappages_loop pgdir a la pa perm s = Inr (- 1, s)"
  | (mapped) s' ys where "pt_grow pgdir s xs s' ys"
      "pte_of (memory s') pgdir = map_pages a 1 pa perm (pte_of (memory s) pgdir)"
      "mappages_loop pgdir a la pa perm s =
        (if a = la then Inr (0, s') else if la - a < PGSIZE then Inl Diverge
         else mappages_loop pgdir (a + PGSIZE) la (pa + PGSIZE) perm s')"
      "length xs \<le> Suc (length ys)"
  using wf
proof (cases rule: walkpgdir_alloc[where va = a])
  case full
  then show ?thesis using that(1) by (simp add: mappages_loop.simps[of pgdir a])
next
  case (entry t ys)
  let ?p = "tab_of (memory t) pgdir (PDX a) + 4 * PTX a"
  let ?t' = "t\<lparr>memory := write32 (memory t) ?p (pa OR perm OR PTE_P)\<rparr>"
  have wft: "pt_wf t ys pgdir" using entry(3) by (rule pt_grow_wf)
  note sp = set_pte[OF wft entry(4), of "pa OR perm OR PTE_P"]
  have e: "read32 (memory t) ?p = pte_of (memory s) pgdir a"
    using pt_wf_pte[OF wft entry(4)] entry(5) by simp
  have "pte_of (memory ?t') pgdir = map_pages a 1 pa perm (pte_of (memory s) pgdir)"
    using sp(2) PGROUNDDOWN_aligned[OF a] unfolding map_pages_1[OF a] entry(5)[symmetric] by simp
  then show ?thesis
    using that(2)[OF pt_grow_trans[OF entry(3) sp(1)]] entry(1,2,6) e abs
    by (simp add: mappages_loop.simps[of pgdir a] Let_def)
qed

lemma mappages_loop_spec:
  assumes "pt_wf s xs pgdir" "aligned 12 a" "unat (la - a) = 4096 * n"
    "\<And>vb. unat (PGROUNDDOWN vb - a) \<le> 4096 * n \<Longrightarrow> \<not> present (pte_of (memory s) pgdir vb)"
  shows "\<exists>r s' ys k. mappages_loop pgdir a la pa perm s = Inr (r, s') \<and> pt_grow pgdir s xs s' ys \<and>
    pte_of (memory s') pgdir = map_pages a k pa perm (pte_of (memory s) pgdir) \<and>
    (r = 0 \<and> k = Suc n \<or> r = - 1 \<and> ys = [] \<and> k \<le> n)"
  using assms
proof (induction n arbitrary: s xs a pa)
  case 0
  then have la: "la = a" by (simp add: unat_eq_0)
  have "\<not> present (pte_of (memory s) pgdir a)"
    using 0(4)[of a] PGROUNDDOWN_aligned[OF 0(2)] by simp
  with 0(1,2) show ?case
  proof (cases rule: mappages_round[where la = la and pa = pa and perm = perm])
    case full
    then show ?thesis using pt_grow_refl[OF 0(1)] by (intro exI[of _ "- 1"] exI[of _ s] exI[of _ xs] exI[of _ 0]) simp
  next
    case (mapped s' ys)
    then show ?thesis using la by (intro exI[of _ 0] exI[of _ s'] exI[of _ ys] exI[of _ 1]) simp
  qed
next
  case (Suc n)
  have big: "4096 \<le> unat (la - a)" "4096 * Suc (Suc n) \<le> 2 ^ 32"
  proof -
    have "4096 * Suc n < 2 ^ 32" using Suc.prems(3) unat_u32_less[of "la - a"] by simp
    then show "4096 * Suc (Suc n) \<le> 2 ^ 32" by simp
  qed (use Suc.prems(3) in simp)
  have la: "a \<noteq> la" "\<not> la - a < PGSIZE" using big(1) by (auto simp: word_less_nat_alt)
  have "unat (la - a - PGSIZE) = unat (la - a) - 4096"
    using big(1) by (simp only: unat_sub_if_size word_size) simp
  then have n: "unat (la - (a + PGSIZE)) = 4096 * n" using Suc.prems(3) by (simp add: diff_diff_eq)
  have al: "aligned 12 (a + PGSIZE)"
    using aligned_diff[of 12 "- PGSIZE" a] Suc.prems(2) by (simp add: aligned_def)
  have "\<not> present (pte_of (memory s) pgdir a)"
    using Suc.prems(4)[of a] PGROUNDDOWN_aligned[OF Suc.prems(2)] by simp
  with Suc.prems(1,2) show ?case
  proof (cases rule: mappages_round[where la = la and pa = pa and perm = perm])
    case full
    then show ?thesis
      using pt_grow_refl[OF Suc.prems(1)] by (intro exI[of _ "- 1"] exI[of _ s] exI[of _ xs] exI[of _ 0]) simp
  next
    case (mapped t zs)
    have abs: "\<not> present (pte_of (memory t) pgdir vb)" if "unat (PGROUNDDOWN vb - (a + PGSIZE)) \<le> 4096 * n" for vb
    proof -
      have o: "PGROUNDDOWN vb - (a + PGSIZE) = PGROUNDDOWN vb - a - PGSIZE" by (simp add: diff_diff_eq)
      have ne: "PGROUNDDOWN vb \<noteq> a" using that big(2) unfolding o by auto
      have "4096 \<le> unat (PGROUNDDOWN vb - a)"
        using aligned_unat_cases[OF aligned_diff[of 12 a "PGROUNDDOWN vb"]] Suc.prems(2) ne by simp
      then have "unat (PGROUNDDOWN vb - a - PGSIZE) = unat (PGROUNDDOWN vb - a) - 4096"
        by (simp only: unat_sub_if_size word_size) simp
      then have "unat (PGROUNDDOWN vb - a) \<le> 4096 * Suc n" using that o by simp
      then show ?thesis
        using Suc.prems(4) ne mapped(2) map_pages_1[OF Suc.prems(2)] by simp
    qed
    obtain r s' ys k where ih: "mappages_loop pgdir (a + PGSIZE) la (pa + PGSIZE) perm t = Inr (r, s')"
      "pt_grow pgdir t zs s' ys"
      "pte_of (memory s') pgdir = map_pages (a + PGSIZE) k (pa + PGSIZE) perm (pte_of (memory t) pgdir)"
      "r = 0 \<and> k = Suc n \<or> r = - 1 \<and> ys = [] \<and> k \<le> n"
      using Suc.IH[OF pt_grow_wf[OF mapped(1)] al n abs, of "pa + PGSIZE"] by blast
    have "4096 * Suc k \<le> 2 ^ 32" using ih(4) big(2) by auto
    then have "pte_of (memory s') pgdir = map_pages a (Suc k) pa perm (pte_of (memory s) pgdir)"
      using ih(3) mapped(2) map_pages_1[OF Suc.prems(2)] map_pages_Suc[OF Suc.prems(2)] by simp
    then show ?thesis
      using ih mapped(3) la pt_grow_trans[OF mapped(1) ih(2)]
      by (intro exI[of _ r] exI[of _ s'] exI[of _ ys] exI[of _ "Suc k"]) auto
  qed
qed

end
