(* ===== verification/Uvm.thy ===== *)
theory Uvm
  imports Pagetable
begin

text \<open>
  User address spaces: \<open>allocuvm\<close>, \<open>deallocuvm\<close>, \<open>freevm\<close> and the access routines built on the page
  tables. \<open>uvm_wf\<close> adds to \<open>pt_wf\<close> that the user half maps distinct allocatable frames that are
  neither free nor page tables. Under it the operations never panic, never lose a page and never
  free one twice: the free pages, the table pages and the mapped frames together stay the same set.
\<close>

section \<open>User frames\<close>

definition uframe :: "mem \<Rightarrow> u32 \<Rightarrow> u32 \<Rightarrow> u32" where
  "uframe m pgdir va = P2V (PTE_ADDR (pte_of m pgdir va))"

definition umapped :: "mem \<Rightarrow> u32 \<Rightarrow> u32 \<Rightarrow> bool" where
  "umapped m pgdir va \<longleftrightarrow> va < KERNBASE \<and> present (pte_of m pgdir va)"

definition uframes :: "mem \<Rightarrow> u32 \<Rightarrow> u32 set" where
  "uframes m pgdir = {uframe m pgdir va | va. umapped m pgdir va}"

definition uvm_wf :: "'a kmem_scheme \<Rightarrow> u32 list \<Rightarrow> u32 \<Rightarrow> bool" where
  "uvm_wf s xs pgdir \<longleftrightarrow>
     pt_wf s xs pgdir \<and> KERNBASE < kend s \<and>
     (\<forall>va. umapped (memory s) pgdir va \<longrightarrow> page_ok s (uframe (memory s) pgdir va) \<and>
        uframe (memory s) pgdir va \<notin> set xs \<and> uframe (memory s) pgdir va \<notin> pt_pages (memory s) pgdir) \<and>
     (\<forall>va vb. umapped (memory s) pgdir va \<longrightarrow> umapped (memory s) pgdir vb \<longrightarrow>
        uframe (memory s) pgdir va = uframe (memory s) pgdir vb \<longrightarrow> PGROUNDDOWN va = PGROUNDDOWN vb)"

text \<open>All the pages an address space and the free list are made of.\<close>

definition all_pages :: "'a kmem_scheme \<Rightarrow> u32 list \<Rightarrow> u32 \<Rightarrow> u32 set" where
  "all_pages s xs pgdir = set xs \<union> pt_pages (memory s) pgdir \<union> uframes (memory s) pgdir"

lemma uvm_wfI:
  assumes "pt_wf s xs pgdir" "KERNBASE < kend s"
    "\<And>va. umapped (memory s) pgdir va \<Longrightarrow> page_ok s (uframe (memory s) pgdir va) \<and>
        uframe (memory s) pgdir va \<notin> set xs \<and> uframe (memory s) pgdir va \<notin> pt_pages (memory s) pgdir"
    "\<And>va vb. umapped (memory s) pgdir va \<Longrightarrow> umapped (memory s) pgdir vb \<Longrightarrow>
        uframe (memory s) pgdir va = uframe (memory s) pgdir vb \<Longrightarrow> PGROUNDDOWN va = PGROUNDDOWN vb"
  shows "uvm_wf s xs pgdir"
  using assms unfolding uvm_wf_def by blast

lemma uvm_wfD:
  assumes "uvm_wf s xs pgdir"
  shows "pt_wf s xs pgdir" "KERNBASE < kend s"
  using assms by (simp_all add: uvm_wf_def)

lemma uvm_wf_frame:
  assumes "uvm_wf s xs pgdir" "umapped (memory s) pgdir va"
  shows "page_ok s (uframe (memory s) pgdir va)" "uframe (memory s) pgdir va \<notin> set xs"
    "uframe (memory s) pgdir va \<notin> pt_pages (memory s) pgdir"
  using assms unfolding uvm_wf_def by blast+

lemma uvm_wf_inj:
  assumes "uvm_wf s xs pgdir" "umapped (memory s) pgdir va" "umapped (memory s) pgdir vb"
    "uframe (memory s) pgdir va = uframe (memory s) pgdir vb"
  shows "PGROUNDDOWN va = PGROUNDDOWN vb"
  using assms unfolding uvm_wf_def by blast+

lemma PGROUNDDOWN_less: "PGROUNDDOWN va < KERNBASE \<longleftrightarrow> va < KERNBASE"
proof -
  have "4096 * (n div 4096) < 0x80000000 \<longleftrightarrow> n < 0x80000000" for n :: nat
    by (simp add: div_less_iff_less_mult)
  then show ?thesis by (simp add: word_less_nat_alt unat_PGROUNDDOWN)
qed

lemma pte_of_page: "PGROUNDDOWN va = PGROUNDDOWN vb \<Longrightarrow> pte_of m pgdir va = pte_of m pgdir vb"
  using same_page_iff[of va vb] by (simp add: pte_of_def)

lemma pt_pages_cong:
  assumes "\<And>d. unat d < 1024 \<Longrightarrow> pde_of m' pgdir d = pde_of m pgdir d"
  shows "pt_pages m' pgdir = pt_pages m pgdir"
proof -
  have "tab_of m' pgdir d = tab_of m pgdir d" if "unat d < 1024" for d
    by (rule tab_of_cong) (rule assms[OF that])
  then show ?thesis
    unfolding pt_pages_def using assms by (intro arg_cong[of _ _ "insert pgdir"] Collect_cong) metis
qed

lemma pt_pages_aligned: "pt_wf s xs pgdir \<Longrightarrow> p \<in> pt_pages (memory s) pgdir \<Longrightarrow> aligned 12 p"
  using pt_wf_tab(4) pt_wfD(4) by (fastforce simp: pt_pages_def)

lemma pt_pages_ok: "pt_wf s xs pgdir \<Longrightarrow> p \<in> pt_pages (memory s) pgdir \<Longrightarrow> page_ok s p \<and> p \<notin> set xs"
  using pt_wf_tab(1,2) pt_wfD(2,3) by (fastforce simp: pt_pages_def)

lemma pt_grow_same:
  assumes "pt_grow pgdir s xs s' xs"
  shows "pt_pages (memory s') pgdir = pt_pages (memory s) pgdir"
    "only_pages (pt_pages (memory s) pgdir) (memory s) (memory s')"
  using assms by (auto simp: pt_grow_def)

text \<open>Changing pages outside a directory.\<close>

lemma outside_directory:
  assumes "pt_wf s xs pgdir" "only_pages S (memory s) m'" "pt_pages (memory s) pgdir \<inter> S = {}"
  shows "pte_of m' pgdir = pte_of (memory s) pgdir" "pt_pages m' pgdir = pt_pages (memory s) pgdir"
    "unat d < 1024 \<Longrightarrow> pde_of m' pgdir d = pde_of (memory s) pgdir d"
proof -
  show "pte_of m' pgdir = pte_of (memory s) pgdir"
    using pte_of_frame[OF assms(2) pt_wfD(4)[OF assms(1)] assms(3)] pt_wf_tab(4)[OF assms(1)] by blast
  have pd: "pde_of m' pgdir d = pde_of (memory s) pgdir d" if "unat d < 1024" for d
    using assms pt_wfD(4)[OF assms(1)] that by (intro pde_of_frame[OF assms(2)]) (auto simp: pt_pages_def)
  then show "pt_pages m' pgdir = pt_pages (memory s) pgdir" by (rule pt_pages_cong)
  show "pde_of m' pgdir d = pde_of (memory s) pgdir d" if "unat d < 1024" using that by (rule pd)
qed

lemma kmem_same_kfree: "kfree v s = Inr s' \<Longrightarrow> kmem_same s s'"
  by (auto simp: kmem_same_def kfree_def Let_def split: if_splits)

lemma kfree_pt:
  assumes "pt_wf s xs pgdir" "page_ok s v" "v \<notin> set xs" "v \<notin> pt_pages (memory s) pgdir"
  obtains s1 where "kfree v s = Inr s1" "pt_wf s1 (v # xs) pgdir" "kmem_same s s1"
    "only_pages {v} (memory s) (memory s1)"
    "pte_of (memory s1) pgdir = pte_of (memory s) pgdir"
    "pt_pages (memory s1) pgdir = pt_pages (memory s) pgdir"
    "\<And>d. unat d < 1024 \<Longrightarrow> pde_of (memory s1) pgdir d = pde_of (memory s) pgdir d"
proof -
  obtain s1 where s1: "kfree v s = Inr s1" "free_pages s1 (v # xs)"
    using ka.free_page[OF pt_wfD(1)[OF assms(1)] assms(2,3)] by blast
  have op: "only_pages {v} (memory s) (memory s1)"
    using kfree_only_page[OF s1(1)] page_okD(1)[OF assms(2)] by (rule only_page_pages)
  note out = outside_directory[OF assms(1) op]
  have pd: "pde_of (memory s1) pgdir d = pde_of (memory s) pgdir d" if "unat d < 1024" for d
    using out(3) assms(4) that by simp
  have tb: "tab_of (memory s1) pgdir d = tab_of (memory s) pgdir d" if "unat d < 1024" for d
    by (rule tab_of_cong) (rule pd[OF that])
  have ok: "page_ok s1 = page_ok s" using kfree_page_ok[OF s1(1)] .
  have "pt_wf s1 (v # xs) pgdir"
  proof (rule pt_wfI[OF s1(2)], unfold ok)
    show "page_ok s pgdir" "pgdir \<notin> set (v # xs)"
      using pt_wfD[OF assms(1)] assms(4) by (auto simp: pt_pages_def)
    fix d assume d: "unat d < 1024" "present (pde_of (memory s1) pgdir d)"
    then have "tab_of (memory s) pgdir d \<noteq> v" using assms(4) pd by (auto simp: pt_pages_def)
    then show "page_ok s (tab_of (memory s1) pgdir d) \<and> tab_of (memory s1) pgdir d \<notin> set (v # xs) \<and>
        tab_of (memory s1) pgdir d \<noteq> pgdir"
      using pt_wf_tab[OF assms(1) d(1)] d pd tb by simp
  next
    show "d = e" if "unat d < 1024" "unat e < 1024" "present (pde_of (memory s1) pgdir d)"
      "present (pde_of (memory s1) pgdir e)" "tab_of (memory s1) pgdir d = tab_of (memory s1) pgdir e" for d e
      using pt_wf_tab_inj[OF assms(1) that(1,2)] that pd tb by simp
  qed
  then show ?thesis using that s1(1) kmem_same_kfree[OF s1(1)] op out assms(4) by simp
qed

section \<open>Unmapping a set of pages\<close>

definition unmap :: "u32 set \<Rightarrow> (u32 \<Rightarrow> u32) \<Rightarrow> u32 \<Rightarrow> u32" where
  "unmap P f vb = (if PGROUNDDOWN vb \<in> P \<and> present (f vb) then 0 else f vb)"

text \<open>
  From \<open>s\<close> with free pages \<open>xs\<close> to \<open>s'\<close> with free pages \<open>ys\<close>, the user pages in \<open>P\<close> lose their
  mapping and exactly their frames join the free list.
\<close>

definition unmapped ::
  "u32 \<Rightarrow> u32 set \<Rightarrow> 'a kmem_scheme \<Rightarrow> u32 list \<Rightarrow> 'a kmem_scheme \<Rightarrow> u32 list \<Rightarrow> bool" where
  "unmapped pgdir P s xs s' ys \<longleftrightarrow>
     uvm_wf s' ys pgdir \<and> kmem_same s s' \<and>
     pt_pages (memory s') pgdir = pt_pages (memory s) pgdir \<and>
     pte_of (memory s') pgdir = unmap P (pte_of (memory s) pgdir) \<and>
     only_pages (all_pages s xs pgdir) (memory s) (memory s') \<and>
     (\<exists>fs. ys = fs @ xs \<and>
        set fs = {uframe (memory s) pgdir va | va. umapped (memory s) pgdir va \<and> PGROUNDDOWN va \<in> P})"

lemma umapped_unmap:
  assumes "pte_of m' pgdir = unmap P (pte_of m pgdir)"
  shows "umapped m' pgdir va \<longleftrightarrow> umapped m pgdir va \<and> PGROUNDDOWN va \<notin> P"
    "umapped m' pgdir va \<Longrightarrow> uframe m' pgdir va = uframe m pgdir va"
  using assms by (auto simp: umapped_def uframe_def unmap_def)

lemma unmapped_skip:
  assumes "uvm_wf s xs pgdir" "\<And>va. PGROUNDDOWN va \<in> P \<Longrightarrow> \<not> present (pte_of (memory s) pgdir va)"
  shows "unmapped pgdir P s xs s xs"
proof -
  have "pte_of (memory s) pgdir = unmap P (pte_of (memory s) pgdir)"
    using assms(2) by (auto simp: unmap_def fun_eq_iff)
  moreover have "set [] = {uframe (memory s) pgdir va | va. umapped (memory s) pgdir va \<and> PGROUNDDOWN va \<in> P}"
    using assms(2) by (auto simp: umapped_def)
  ultimately show ?thesis
    using assms(1) unfolding unmapped_def by (intro conjI exI[of _ "[]"]) simp_all
qed

lemma unmapped_all_pages:
  assumes "unmapped pgdir P s xs s' ys"
  shows "all_pages s' ys pgdir = all_pages s xs pgdir"
proof -
  obtain fs where fs: "ys = fs @ xs"
    "set fs = {uframe (memory s) pgdir va | va. umapped (memory s) pgdir va \<and> PGROUNDDOWN va \<in> P}"
    using assms by (auto simp: unmapped_def)
  have f: "pte_of (memory s') pgdir = unmap P (pte_of (memory s) pgdir)"
    using assms by (simp add: unmapped_def)
  have "uframes (memory s) pgdir = set fs \<union> uframes (memory s') pgdir"
    unfolding fs(2) uframes_def using umapped_unmap[OF f] by auto metis+
  then show ?thesis using fs(1) assms by (auto simp: all_pages_def unmapped_def)
qed

lemma unmapped_trans:
  assumes "unmapped pgdir P s xs t ys" "unmapped pgdir Q t ys u zs"
  shows "unmapped pgdir (P \<union> Q) s xs u zs"
proof -
  obtain fs where fs: "ys = fs @ xs"
    "set fs = {uframe (memory s) pgdir va | va. umapped (memory s) pgdir va \<and> PGROUNDDOWN va \<in> P}"
    using assms(1) by (auto simp: unmapped_def)
  obtain gs where gs: "zs = gs @ ys"
    "set gs = {uframe (memory t) pgdir va | va. umapped (memory t) pgdir va \<and> PGROUNDDOWN va \<in> Q}"
    using assms(2) by (auto simp: unmapped_def)
  have f: "pte_of (memory t) pgdir = unmap P (pte_of (memory s) pgdir)"
    using assms(1) by (simp add: unmapped_def)
  have "pte_of (memory u) pgdir = unmap Q (unmap P (pte_of (memory s) pgdir))"
    using assms(2) f by (simp add: unmapped_def)
  also have "\<dots> = unmap (P \<union> Q) (pte_of (memory s) pgdir)" by (auto simp: unmap_def fun_eq_iff)
  finally have 1: "pte_of (memory u) pgdir = unmap (P \<union> Q) (pte_of (memory s) pgdir)" .
  have 2: "set (gs @ fs) =
      {uframe (memory s) pgdir va | va. umapped (memory s) pgdir va \<and> PGROUNDDOWN va \<in> P \<union> Q}"
    unfolding set_append fs(2) gs(2) using umapped_unmap[OF f] by auto metis+
  have 3: "only_pages (all_pages s xs pgdir) (memory s) (memory u)"
    using assms unmapped_all_pages[OF assms(1)]
    by (auto simp: unmapped_def intro: only_pages_trans[of _ "memory s" "memory t"])
  have 4: "uvm_wf u zs pgdir" "kmem_same s u" "pt_pages (memory u) pgdir = pt_pages (memory s) pgdir"
    using assms by (auto simp: unmapped_def intro: kmem_same_trans)
  have "zs = (gs @ fs) @ xs" using fs(1) gs(1) by simp
  then show ?thesis using 1 2 3 4 unfolding unmapped_def by blast
qed

lemma kmem_same_uvm:
  assumes "pt_wf s' ys pgdir" "kmem_same s s'" "uvm_wf s xs pgdir"
    "\<And>va. umapped (memory s') pgdir va \<Longrightarrow> umapped (memory s) pgdir va \<and>
       uframe (memory s') pgdir va = uframe (memory s) pgdir va \<and> uframe (memory s) pgdir va \<notin> set ys \<and>
       uframe (memory s) pgdir va \<notin> pt_pages (memory s') pgdir"
  shows "uvm_wf s' ys pgdir"
proof (rule uvm_wfI[OF assms(1)])
  show "KERNBASE < kend s'" using uvm_wfD(2)[OF assms(3)] kmem_same_kend[OF assms(2)] by simp
next
  fix va assume "umapped (memory s') pgdir va"
  then show "page_ok s' (uframe (memory s') pgdir va) \<and> uframe (memory s') pgdir va \<notin> set ys \<and>
      uframe (memory s') pgdir va \<notin> pt_pages (memory s') pgdir"
    using assms(4) uvm_wf_frame(1)[OF assms(3)] kmem_same_page_ok[OF assms(2)] by simp
next
  fix va vb assume "umapped (memory s') pgdir va" "umapped (memory s') pgdir vb"
    "uframe (memory s') pgdir va = uframe (memory s') pgdir vb"
  then show "PGROUNDDOWN va = PGROUNDDOWN vb"
    using assms(4)[of va] assms(4)[of vb] uvm_wf_inj[OF assms(3), of va vb] by simp
qed

text \<open>Freeing one mapped page, as the body of the loop of \<open>deallocuvm\<close> does.\<close>

lemma unmapped_page:
  assumes wf: "uvm_wf s xs pgdir" and a: "aligned 12 a" "umapped (memory s) pgdir a"
  obtains s1 where "kfree (uframe (memory s) pgdir a) s = Inr s1"
    "unmapped pgdir {a} s xs
      (s1\<lparr>memory := write32 (memory s1) (tab_of (memory s) pgdir (PDX a) + 4 * PTX a) 0\<rparr>)
      (uframe (memory s) pgdir a # xs)"
proof -
  let ?v = "uframe (memory s) pgdir a"
  have pt: "pt_wf s xs pgdir" using wf by (rule uvm_wfD)
  obtain s1 where s1: "kfree ?v s = Inr s1" "pt_wf s1 (?v # xs) pgdir" "kmem_same s s1"
    "only_pages {?v} (memory s) (memory s1)" "pte_of (memory s1) pgdir = pte_of (memory s) pgdir"
    "pt_pages (memory s1) pgdir = pt_pages (memory s) pgdir"
    "\<And>d. unat d < 1024 \<Longrightarrow> pde_of (memory s1) pgdir d = pde_of (memory s) pgdir d"
    using kfree_pt[OF pt uvm_wf_frame[OF wf a(2)]] by blast
  let ?s2 = "s1\<lparr>memory := write32 (memory s1) (tab_of (memory s) pgdir (PDX a) + 4 * PTX a) 0\<rparr>"
  have pr: "present (pde_of (memory s1) pgdir (PDX a))"
    using a(2) s1(7)[OF PDX_less] by (auto simp: umapped_def pte_of_def split: if_splits)
  have tb: "tab_of (memory s1) pgdir (PDX a) = tab_of (memory s) pgdir (PDX a)"
    using s1(7)[OF PDX_less] by (rule tab_of_cong)
  note sp = set_pte[OF s1(2) pr, of 0, unfolded tb]
  have pa: "present (pte_of (memory s) pgdir vb)" if "PGROUNDDOWN vb = a" for vb
    using a(2) pte_of_page[of vb a] that PGROUNDDOWN_aligned[OF a(1)] by (simp add: umapped_def)
  have f: "pte_of (memory ?s2) pgdir = unmap {a} (pte_of (memory s) pgdir)"
    using sp(2) s1(5) PGROUNDDOWN_aligned[OF a(1)] pa by (auto simp: unmap_def fun_eq_iff)
  note um = umapped_unmap[OF f]
  have same: "kmem_same s ?s2" using s1(3) by (rule kmem_same_memory)
  have pp: "pt_pages (memory ?s2) pgdir = pt_pages (memory s) pgdir"
    using pt_grow_same(1)[OF sp(1)] s1(6) by simp
  have wf2: "uvm_wf ?s2 (?v # xs) pgdir"
  proof (rule kmem_same_uvm[OF pt_grow_wf[OF sp(1)] same wf])
    fix va assume m: "umapped (memory ?s2) pgdir va"
    then have "uframe (memory s) pgdir va \<noteq> ?v"
      using um(1)[of va] uvm_wf_inj[OF wf _ a(2), of va] PGROUNDDOWN_aligned[OF a(1)] by auto
    then show "umapped (memory s) pgdir va \<and> uframe (memory ?s2) pgdir va = uframe (memory s) pgdir va \<and>
        uframe (memory s) pgdir va \<notin> set (?v # xs) \<and>
        uframe (memory s) pgdir va \<notin> pt_pages (memory ?s2) pgdir"
      using um(1)[of va] um(2)[OF m] m uvm_wf_frame[OF wf, of va] pp by simp
  qed
  have vv: "?v \<in> uframes (memory s) pgdir" using a(2) by (auto simp: uframes_def)
  have "only_pages (all_pages s xs pgdir) (memory s) (memory s1)"
    using s1(4) by (rule only_pages_mono) (use vv in \<open>simp add: all_pages_def\<close>)
  moreover have "only_pages (all_pages s xs pgdir) (memory s1) (memory ?s2)"
    using pt_grow_same(2)[OF sp(1)] by (rule only_pages_mono) (auto simp: s1(6) all_pages_def)
  ultimately have op: "only_pages (all_pages s xs pgdir) (memory s) (memory ?s2)" by (rule only_pages_trans)
  have fv: "uframe (memory s) pgdir va = ?v" if "PGROUNDDOWN va = a" for va
    using pte_of_page[of va a] that PGROUNDDOWN_aligned[OF a(1)] by (simp add: uframe_def)
  have fs: "set [?v] = {uframe (memory s) pgdir va | va. umapped (memory s) pgdir va \<and> PGROUNDDOWN va \<in> {a}}"
    (is "_ = ?R")
  proof
    show "set [?v] \<subseteq> ?R" using a(2) PGROUNDDOWN_aligned[OF a(1)] by auto
    show "?R \<subseteq> set [?v]"
    proof
      fix x assume "x \<in> ?R"
      then obtain va where "x = uframe (memory s) pgdir va" "PGROUNDDOWN va = a" by blast
      then show "x \<in> set [?v]" using fv[of va] by simp
    qed
  qed
  have "unmapped pgdir {a} s xs ?s2 (?v # xs)"
    unfolding unmapped_def using wf2 same pp f op fs by (intro conjI exI[of _ "[?v]"]) auto
  then show ?thesis using that s1(1) by blast
qed

section \<open>\<open>deallocuvm\<close>\<close>

definition upages :: "u32 \<Rightarrow> u32 \<Rightarrow> u32 set" where
  "upages a b = {p. aligned 12 p \<and> a \<le> p \<and> p < b}"

lemma next_table:
  assumes "a < KERNBASE"
  shows "unat (PGADDR (PDX a + 1) 0 0 - PGSIZE + PGSIZE) = 4194304 * (unat a div 4194304 + 1)"
proof -
  have q: "unat a div 4194304 < 512" using assms by (simp add: word_less_nat_alt less_mult_imp_div_less)
  then have "unat (PDX a + 1) = unat a div 4194304 + 1"
    using unat_PDX[of a] by (simp add: unat_word_ariths)
  then have "unat ((PDX a + 1) * 4194304) = 4194304 * (unat a div 4194304 + 1)"
    using q by (simp only: unat_word_ariths) simp
  then show ?thesis by (simp add: PGADDR_def push_bit_eq_mult add.commute)
qed

lemma upages_step:
  assumes "aligned 12 a" "a < oldsz" "oldsz \<le> KERNBASE"
  shows "upages a oldsz = {a} \<union> upages (a + PGSIZE) oldsz" "a < a + PGSIZE" "aligned 12 (a + PGSIZE)"
proof -
  have u: "unat (a + PGSIZE) = unat a + 4096"
    using assms(2,3) by (simp add: word_less_nat_alt word_le_nat_alt unat_word_ariths)
  then show "a < a + PGSIZE" by (simp add: word_less_nat_alt)
  show "aligned 12 (a + PGSIZE)" using assms(1) u by (simp add: aligned_def)
  have "a + PGSIZE \<le> p" if "aligned 12 p" "a < p" for p
    using that assms(1) u by (auto simp: aligned_def word_le_nat_alt word_less_nat_alt elim!: dvdE)
  then show "upages a oldsz = {a} \<union> upages (a + PGSIZE) oldsz"
    using assms(1,2) \<open>a < a + PGSIZE\<close> by (force simp: upages_def)
qed

text \<open>One round without a page table: the loop skips to the next one.\<close>

lemma unmapped_no_table:
  assumes wf: "uvm_wf s xs pgdir" and a: "a < KERNBASE"
    and abs: "\<not> present (pde_of (memory s) pgdir (PDX a))"
  defines "b \<equiv> PGADDR (PDX a + 1) 0 0 - PGSIZE + PGSIZE"
  shows "unmapped pgdir (upages a oldsz - upages b oldsz) s xs s xs" "a < b" "aligned 12 b"
proof -
  have ub: "unat b = 4194304 * (unat a div 4194304 + 1)" unfolding b_def by (rule next_table[OF a])
  show "a < b" unfolding word_less_nat_alt ub by (simp add: dividend_less_times_div)
  show "aligned 12 b" unfolding aligned_def ub by simp
  have "\<not> present (pte_of (memory s) pgdir va)" if "PGROUNDDOWN va \<in> upages a oldsz - upages b oldsz" for va
  proof -
    have "unat a \<le> unat (PGROUNDDOWN va)" "unat (PGROUNDDOWN va) < unat b"
      using that by (auto simp: upages_def word_le_nat_alt word_less_nat_alt)
    moreover have "unat va div 4194304 = unat (PGROUNDDOWN va) div 4194304"
      using unat_PDX[of va] unat_PDX[of "PGROUNDDOWN va"] same_page_iff[of va "PGROUNDDOWN va"]
      by (simp add: PGROUNDDOWN_aligned)
    ultimately have "unat va div 4194304 = unat a div 4194304"
      using ub div_le_mono[of "unat a" "unat (PGROUNDDOWN va)" 4194304]
        less_mult_imp_div_less[of "unat (PGROUNDDOWN va)" "unat a div 4194304 + 1" 4194304]
      by (simp add: mult.commute)
    then have "PDX va = PDX a" using unat_PDX[of va] unat_PDX[of a] by (simp add: word_unat_eq_iff)
    then show ?thesis using abs by (simp add: pte_of_def)
  qed
  then show "unmapped pgdir (upages a oldsz - upages b oldsz) s xs s xs" by (rule unmapped_skip[OF wf])
qed

text \<open>One round with a page table: the page of \<open>a\<close> is unmapped.\<close>

lemma deallocuvm_round:
  assumes wf: "uvm_wf s xs pgdir" and a: "aligned 12 a" "a < KERNBASE" "a < oldsz"
    and pd: "present (pde_of (memory s) pgdir (PDX a))"
  obtains t zs where "unmapped pgdir {a} s xs t zs"
    "deallocuvm_loop pgdir a oldsz s =
      (if a < a + PGSIZE then deallocuvm_loop pgdir (a + PGSIZE) oldsz t else Inl Diverge)"
proof -
  let ?p = "tab_of (memory s) pgdir (PDX a) + 4 * PTX a"
  note pt = uvm_wfD(1)[OF wf] and w = walkpgdir_present[OF pd, of False]
  note e = pt_wf_pte[OF pt pd]
  have nz: "?p \<noteq> 0" using pt_wf_tab(1)[OF pt PDX_less pd] PTX_less by (rule slot_nonzero)
  show ?thesis
  proof (cases "present (pte_of (memory s) pgdir a)")
    case False
    then have "\<not> present (pte_of (memory s) pgdir va)" if "PGROUNDDOWN va \<in> {a}" for va
      using that pte_of_page[of va a] PGROUNDDOWN_aligned[OF a(1)] by simp
    then have "unmapped pgdir {a} s xs s xs" by (rule unmapped_skip[OF wf])
    then show ?thesis
      using that w nz e False a(3) by (auto simp: deallocuvm_loop.simps[of pgdir a])
  next
    case True
    then have um: "umapped (memory s) pgdir a" using a(2) by (simp add: umapped_def)
    obtain s1 where s1: "kfree (uframe (memory s) pgdir a) s = Inr s1"
      "unmapped pgdir {a} s xs (s1\<lparr>memory := write32 (memory s1) ?p 0\<rparr>) (uframe (memory s) pgdir a # xs)"
      using unmapped_page[OF wf a(1) um] by blast
    have "kend s \<le> uframe (memory s) pgdir a" using uvm_wf_frame(1)[OF wf um] by (rule page_okD)
    then have "PTE_ADDR (pte_of (memory s) pgdir a) \<noteq> 0"
      using uvm_wfD(2)[OF wf] by (auto simp: uframe_def P2V_def)
    then show ?thesis
      using that[OF s1(2)] s1(1) w nz e True a(3)
      by (simp add: deallocuvm_loop.simps[of pgdir a] uframe_def Let_def)
  qed
qed

lemma deallocuvm_loop_spec:
  fixes s :: "'a kmem_scheme"
  assumes "uvm_wf s xs pgdir" "aligned 12 a" "oldsz \<le> KERNBASE"
  shows "\<exists>s' ys. deallocuvm_loop pgdir a oldsz s = Inr s' \<and> unmapped pgdir (upages a oldsz) s xs s' ys"
  using assms
proof (induction "2 ^ 32 - unat a" arbitrary: a s xs rule: less_induct)
  case less
  show ?case
  proof (cases "a < oldsz")
    case False
    then have "upages a oldsz = {}" by (auto simp: upages_def)
    then show ?thesis
      using False unmapped_skip[OF less.prems(1), of "{}"] by (auto simp: deallocuvm_loop.simps[of pgdir a])
  next
    case True
    then have ak: "a < KERNBASE" using less.prems(3) by simp
    have ih: "\<exists>s' ys. deallocuvm_loop pgdir b oldsz t = Inr s' \<and> unmapped pgdir (upages b oldsz) t zs s' ys"
      if "uvm_wf t zs pgdir" "a < b" "aligned 12 b" for t :: "'a kmem_scheme" and zs b
      using that(2) unat_u32_less[of b] by (intro less.hyps that less.prems) (simp add: word_less_nat_alt)
    show ?thesis
    proof (cases "present (pde_of (memory s) pgdir (PDX a))")
      case False
      note skip = unmapped_no_table[OF less.prems(1) ak False]
      let ?b = "PGADDR (PDX a + 1) 0 0 - PGSIZE + PGSIZE"
      obtain s' ys where ih: "deallocuvm_loop pgdir ?b oldsz s = Inr s'"
        "unmapped pgdir (upages ?b oldsz) s xs s' ys"
        using ih[OF less.prems(1) skip(2,3)] by blast
      have "unmapped pgdir (upages a oldsz - upages ?b oldsz \<union> upages ?b oldsz) s xs s' ys"
        using skip(1) ih(2) by (rule unmapped_trans)
      moreover have "upages a oldsz - upages ?b oldsz \<union> upages ?b oldsz = upages a oldsz"
        using skip(2) by (auto simp: upages_def)
      ultimately show ?thesis
        using ih(1) True skip(2) walkpgdir_absent[OF False]
        by (auto simp: deallocuvm_loop.simps[of pgdir a] Let_def)
    next
      case pd: True
      note st = upages_step[OF less.prems(2) True less.prems(3)]
      obtain t zs where t: "unmapped pgdir {a} s xs t zs"
        "deallocuvm_loop pgdir a oldsz s =
          (if a < a + PGSIZE then deallocuvm_loop pgdir (a + PGSIZE) oldsz t else Inl Diverge)"
        using deallocuvm_round[OF less.prems(1,2) ak True pd] by blast
      then have "uvm_wf t zs pgdir" by (simp add: unmapped_def)
      from ih[OF this st(2,3)] obtain s' ys where "deallocuvm_loop pgdir (a + PGSIZE) oldsz t = Inr s'"
        "unmapped pgdir (upages (a + PGSIZE) oldsz) t zs s' ys" by blast
      then show ?thesis using unmapped_trans[OF t(1), of "upages (a + PGSIZE) oldsz" s' ys] t(2) st by auto
    qed
  qed
qed

lemma deallocuvm_spec:
  assumes "uvm_wf s xs pgdir" "oldsz \<le> KERNBASE" "newsz < oldsz"
  shows "\<exists>s' ys. deallocuvm pgdir oldsz newsz s = Inr (newsz, s') \<and>
    unmapped pgdir (upages (PGROUNDUP newsz) oldsz) s xs s' ys"
  using deallocuvm_loop_spec[OF assms(1) aligned_PGROUNDUP assms(2)] assms(3)
  by (fastforce simp: deallocuvm_def)

section \<open>\<open>allocuvm\<close>\<close>

text \<open>
  \<open>fresh_map pgdir P s xs s' ys\<close>: the pages in \<open>P\<close> are now mapped user-writable, each to a zeroed
  frame of its own taken from the free list, and no other entry has changed.
\<close>

definition fresh_map ::
  "u32 \<Rightarrow> u32 set \<Rightarrow> 'a kmem_scheme \<Rightarrow> u32 list \<Rightarrow> 'a kmem_scheme \<Rightarrow> u32 list \<Rightarrow> bool" where
  "fresh_map pgdir P s xs s' ys \<longleftrightarrow>
     uvm_wf s' ys pgdir \<and> kmem_same s s' \<and> all_pages s' ys pgdir = all_pages s xs pgdir \<and>
     only_pages (pt_pages (memory s) pgdir \<union> set xs) (memory s) (memory s') \<and> set ys \<subseteq> set xs \<and>
     pt_pages (memory s') pgdir \<subseteq> pt_pages (memory s) pgdir \<union> set xs \<and>
     (\<forall>va. PGROUNDDOWN va \<notin> P \<longrightarrow> pte_of (memory s') pgdir va = pte_of (memory s) pgdir va) \<and>
     (\<forall>va. PGROUNDDOWN va \<in> P \<longrightarrow>
        (\<exists>v \<in> set xs. pte_of (memory s') pgdir va = V2P v OR PTE_W OR PTE_U OR PTE_P \<and>
           (\<forall>i. unat i < 4096 \<longrightarrow> memory s' (v + i) = 0)))"

lemma fresh_map_empty: "uvm_wf s xs pgdir \<Longrightarrow> fresh_map pgdir {} s xs s xs"
  by (simp add: fresh_map_def)

lemma leaf_parts:
  assumes "page_ok s v"
  shows "PTE_ADDR (V2P v OR PTE_W OR PTE_U OR PTE_P) = V2P v"
    "present (V2P v OR PTE_W OR PTE_U OR PTE_P)"
  using new_table_entry[OF assms] by simp_all

lemma fresh_map_frame:
  assumes "fresh_map pgdir P s xs s' ys" "PGROUNDDOWN va \<in> P" "va < KERNBASE" "free_pages s xs"
  shows "umapped (memory s') pgdir va" "uframe (memory s') pgdir va \<in> set xs"
    "pte_of (memory s') pgdir va = V2P (uframe (memory s') pgdir va) OR PTE_W OR PTE_U OR PTE_P"
    "unat i < 4096 \<Longrightarrow> memory s' (uframe (memory s') pgdir va + i) = 0"
proof -
  obtain v where v: "v \<in> set xs" "pte_of (memory s') pgdir va = V2P v OR PTE_W OR PTE_U OR PTE_P"
    "\<And>i. unat i < 4096 \<Longrightarrow> memory s' (v + i) = 0"
    using assms(1,2) unfolding fresh_map_def by blast
  have "page_ok s v" using ka.pages_ok[OF assms(4) v(1)] .
  note lp = leaf_parts[OF this]
  have u: "uframe (memory s') pgdir va = v" using v(2) lp(1) by (simp add: uframe_def)
  show "umapped (memory s') pgdir va" using v(2) lp(2) assms(3) by (simp add: umapped_def)
  show "uframe (memory s') pgdir va \<in> set xs"
    "pte_of (memory s') pgdir va = V2P (uframe (memory s') pgdir va) OR PTE_W OR PTE_U OR PTE_P"
    "unat i < 4096 \<Longrightarrow> memory s' (uframe (memory s') pgdir va + i) = 0"
    unfolding u using v by auto
qed

lemma fresh_map_trans:
  assumes 1: "fresh_map pgdir P s xs t ys" and 2: "fresh_map pgdir Q t ys u zs"
    and free: "free_pages s xs"
    and P: "\<And>p. p \<in> P \<Longrightarrow> p < KERNBASE" and disj: "P \<inter> Q = {}"
  shows "fresh_map pgdir (P \<union> Q) s xs u zs"
proof -
  have t: "uvm_wf t ys pgdir" "set ys \<subseteq> set xs" "pt_pages (memory t) pgdir \<subseteq> pt_pages (memory s) pgdir \<union> set xs"
    "only_pages (pt_pages (memory s) pgdir \<union> set xs) (memory s) (memory t)"
    using 1 unfolding fresh_map_def by blast+
  have u: "only_pages (pt_pages (memory t) pgdir \<union> set ys) (memory t) (memory u)"
    using 2 unfolding fresh_map_def by blast
  have "only_pages (pt_pages (memory s) pgdir \<union> set xs) (memory t) (memory u)"
    using u by (rule only_pages_mono) (use t in auto)
  with t(4) have op: "only_pages (pt_pages (memory s) pgdir \<union> set xs) (memory s) (memory u)"
    by (rule only_pages_trans)
  have "\<exists>v \<in> set xs. pte_of (memory u) pgdir va = V2P v OR PTE_W OR PTE_U OR PTE_P \<and>
      (\<forall>i. unat i < 4096 \<longrightarrow> memory u (v + i) = 0)" if "PGROUNDDOWN va \<in> P \<union> Q" for va
  proof (cases "PGROUNDDOWN va \<in> Q")
    case True
    then show ?thesis using 2 t(2) unfolding fresh_map_def by blast
  next
    case False
    let ?v = "uframe (memory t) pgdir va"
    have va: "PGROUNDDOWN va \<in> P" "va < KERNBASE" using False that P[of "PGROUNDDOWN va"] PGROUNDDOWN_less by auto
    note fr = fresh_map_frame[OF 1 va free]
    have "?v \<notin> pt_pages (memory t) pgdir \<union> set ys" "aligned 12 ?v"
      using uvm_wf_frame[OF t(1) fr(1)] page_okD(1) by auto
    then have "memory u (?v + i) = 0" if "unat i < 4096" for i
      using only_pages_byte[OF u, of ?v i] fr(4)[OF that] that by simp
    moreover have "pte_of (memory u) pgdir va = pte_of (memory t) pgdir va"
      using False 2 unfolding fresh_map_def by blast
    ultimately show ?thesis using fr(2,3) by auto
  qed
  moreover have "pte_of (memory u) pgdir va = pte_of (memory s) pgdir va" if "PGROUNDDOWN va \<notin> P \<union> Q" for va
    using 1 2 that unfolding fresh_map_def by auto
  moreover have "uvm_wf u zs pgdir" "kmem_same s u" "all_pages u zs pgdir = all_pages s xs pgdir"
    "set zs \<subseteq> set xs" "pt_pages (memory u) pgdir \<subseteq> pt_pages (memory s) pgdir \<union> set xs"
    using 1 2 t unfolding fresh_map_def by (auto intro: kmem_same_trans)
  ultimately show ?thesis using op unfolding fresh_map_def by blast
qed

text \<open>The state after \<open>kalloc\<close> and \<open>memset\<close>: one page is held, neither free nor mapped.\<close>

lemma held_page:
  assumes wf: "uvm_wf s (x # xs) pgdir"
  defines "t \<equiv> snd (kalloc s)\<lparr>memory := memset (memory (snd (kalloc s))) x 0 PGSIZE\<rparr>"
  shows "uvm_wf t xs pgdir" "pte_of (memory t) pgdir = pte_of (memory s) pgdir"
    "pt_pages (memory t) pgdir = pt_pages (memory s) pgdir" "memory t = fill (memory s) x 4096 0"
    "kmem_same s t" "fst (kalloc s) = x" "page_ok s x" "x \<notin> set xs"
    "x \<notin> pt_pages (memory s) pgdir" "x \<notin> uframes (memory s) pgdir"
proof -
  note pt = uvm_wfD(1)[OF wf]
  have k: "fst (kalloc s) = x" "free_pages (snd (kalloc s)) xs"
    using ka.alloc_some[OF pt_wfD(1)[OF pt]] by simp_all
  have x: "page_ok s x" "x \<notin> set xs" "x \<notin> pt_pages (memory s) pgdir" "x \<notin> uframes (memory s) pgdir"
    using ka.pages_ok[OF pt_wfD(1)[OF pt]] ka.pages_distinct[OF pt_wfD(1)[OF pt]] pt_pages_ok[OF pt]
      uvm_wf_frame(2)[OF wf] by (auto simp: uframes_def)
  show m: "memory t = fill (memory s) x 4096 0" by (simp add: t_def memset_fill)
  show same: "kmem_same s t" unfolding t_def by (intro kmem_same_memory kmem_same_kalloc)
  have op: "only_pages {x} (memory s) (memory t)"
    unfolding m using page_okD(1)[OF x(1)] by (rule only_pages_fill)
  have dis: "pt_pages (memory s) pgdir \<inter> {x} = {}" using x by auto
  note out = outside_directory[OF pt op dis]
  show "pte_of (memory t) pgdir = pte_of (memory s) pgdir" "pt_pages (memory t) pgdir = pt_pages (memory s) pgdir"
    by (rule out)+
  have ft: "free_pages t xs"
    using free_pages_frame[OF k(2), of "{x}"] op x(2) unfolding t_def by simp
  have tb: "tab_of (memory t) pgdir d = tab_of (memory s) pgdir d" if "unat d < 1024" for d
    by (rule tab_of_cong) (rule out(3)[OF that])
  have "pt_wf t xs pgdir"
  proof (rule pt_wfI[OF ft], unfold kmem_same_page_ok[OF same])
    show "page_ok s pgdir" "pgdir \<notin> set xs" using pt_wfD[OF pt] by auto
    show "page_ok s (tab_of (memory t) pgdir d) \<and> tab_of (memory t) pgdir d \<notin> set xs \<and>
        tab_of (memory t) pgdir d \<noteq> pgdir" if "unat d < 1024" "present (pde_of (memory t) pgdir d)" for d
      using pt_wf_tab[OF pt that(1)] that(2) out(3)[OF that(1)] tb[OF that(1)] by simp
    show "d = e" if "unat d < 1024" "unat e < 1024" "present (pde_of (memory t) pgdir d)"
      "present (pde_of (memory t) pgdir e)" "tab_of (memory t) pgdir d = tab_of (memory t) pgdir e" for d e
      using pt_wf_tab_inj[OF pt that(1,2)] that(3-5) out(3)[OF that(1)] out(3)[OF that(2)]
        tb[OF that(1)] tb[OF that(2)] by simp
  qed
  then show "uvm_wf t xs pgdir"
    using kmem_same_uvm[OF _ same wf] uvm_wf_frame[OF wf] out(1,2)
    by (simp add: umapped_def uframe_def)
  show "fst (kalloc s) = x" "page_ok s x" "x \<notin> set xs" "x \<notin> pt_pages (memory s) pgdir" "x \<notin> uframes (memory s) pgdir"
    using k x by simp_all
qed

lemma mappages_one:
  assumes "aligned 12 a"
  shows "mappages pgdir a PGSIZE pa perm s = mappages_loop pgdir a a pa perm s"
proof -
  have "PGROUNDDOWN (a + 4095) = a" using assms by (rule PGROUNDDOWN_add) simp
  moreover have "a + PGSIZE - 1 = a + 4095" by simp
  ultimately show ?thesis by (simp only: mappages_def PGROUNDDOWN_aligned[OF assms])
qed

lemma fresh_map_page:
  assumes wf: "uvm_wf s (x # xs) pgdir" and a: "aligned 12 a" "a < KERNBASE"
    and abs: "\<not> present (pte_of (memory s) pgdir a)"
  defines "t \<equiv> snd (kalloc s)\<lparr>memory := memset (memory (snd (kalloc s))) x 0 PGSIZE\<rparr>"
  assumes grow: "pt_grow pgdir t xs u ys"
    and f: "pte_of (memory u) pgdir = map_pages a 1 (V2P x) (PTE_W OR PTE_U) (pte_of (memory t) pgdir)"
  shows "fresh_map pgdir {a} s (x # xs) u ys"
proof -
  note h = held_page[OF wf, folded t_def]
  obtain zs where zs: "xs = zs @ ys" "only_pages (pt_pages (memory s) pgdir \<union> set zs) (memory t) (memory u)"
    "pt_pages (memory u) pgdir = pt_pages (memory s) pgdir \<union> set zs"
    and wfu: "pt_wf u ys pgdir" and same: "kmem_same s u"
    using grow h(3) kmem_same_trans[OF h(5)] by (auto simp: pt_grow_def)
  have pte: "pte_of (memory u) pgdir va =
      (if PGROUNDDOWN va = a then V2P x OR PTE_W OR PTE_U OR PTE_P else pte_of (memory s) pgdir va)" for va
    using f h(2) map_pages_1[OF a(1)] by simp
  have abs': "\<not> present (pte_of (memory s) pgdir va)" if "PGROUNDDOWN va = a" for va
    using abs pte_of_page[of va a] that PGROUNDDOWN_aligned[OF a(1)] by simp
  have lo: "va < KERNBASE" if "PGROUNDDOWN va = a" for va using that a(2) PGROUNDDOWN_less[of va] by simp
  have um: "umapped (memory u) pgdir va \<longleftrightarrow> PGROUNDDOWN va = a \<or> umapped (memory s) pgdir va" for va
    using pte[of va] abs'[of va] lo[of va] leaf_parts(2)[OF h(7)] by (auto simp: umapped_def)
  have uf: "uframe (memory u) pgdir va = (if PGROUNDDOWN va = a then x else uframe (memory s) pgdir va)" for va
    using pte[of va] leaf_parts(1)[OF h(7)] by (auto simp: uframe_def)
  have old: "uframe (memory s) pgdir va \<noteq> x \<and> PGROUNDDOWN va \<noteq> a" if "umapped (memory s) pgdir va" for va
    using that h(10) abs'[of va] by (auto simp: uframes_def umapped_def)
  have wf': "uvm_wf u ys pgdir"
  proof (rule uvm_wfI[OF wfu], unfold kmem_same_page_ok[OF same] kmem_same_kend[OF same])
    show "KERNBASE < kend s" using wf by (rule uvm_wfD)
    show "page_ok s (uframe (memory u) pgdir va) \<and> uframe (memory u) pgdir va \<notin> set ys \<and>
        uframe (memory u) pgdir va \<notin> pt_pages (memory u) pgdir" if "umapped (memory u) pgdir va" for va
    proof (cases "PGROUNDDOWN va = a")
      case True
      then show ?thesis using uf[of va] h(7-9) zs(1,3) by auto
    next
      case False
      then have "umapped (memory s) pgdir va" using um that by simp
      then show ?thesis using uf[of va] False uvm_wf_frame[OF wf, of va] zs(1,3) by auto
    qed
    show "PGROUNDDOWN va = PGROUNDDOWN vb" if "umapped (memory u) pgdir va" "umapped (memory u) pgdir vb"
      "uframe (memory u) pgdir va = uframe (memory u) pgdir vb" for va vb
      using that um[of va] um[of vb] uf[of va] uf[of vb] old[of va] old[of vb] uvm_wf_inj[OF wf, of va vb]
      by auto
  qed
  have fr: "uframes (memory u) pgdir = insert x (uframes (memory s) pgdir)"
  proof
    show "uframes (memory u) pgdir \<subseteq> insert x (uframes (memory s) pgdir)"
      using um uf by (auto simp: uframes_def)
    have "x \<in> uframes (memory u) pgdir"
      using um[of a] uf[of a] PGROUNDDOWN_aligned[OF a(1)] by (auto simp: uframes_def)
    moreover have "uframe (memory s) pgdir va \<in> uframes (memory u) pgdir" if "umapped (memory s) pgdir va" for va
      using um[of va] uf[of va] old[OF that] that
      unfolding uframes_def by (intro CollectI exI[of _ va]) simp
    ultimately show "insert x (uframes (memory s) pgdir) \<subseteq> uframes (memory u) pgdir"
      by (auto simp: uframes_def)
  qed
  have all: "all_pages u ys pgdir = all_pages s (x # xs) pgdir"
    unfolding all_pages_def fr zs(1,3) by auto
  let ?S = "pt_pages (memory s) pgdir \<union> set (x # xs)"
  have "only_pages ?S (memory s) (memory t)"
    unfolding h(4) using only_pages_fill[OF page_okD(1)[OF h(7)]] by (rule only_pages_mono) auto
  moreover have "only_pages ?S (memory t) (memory u)" using zs(2) by (rule only_pages_mono) (use zs(1) in auto)
  ultimately have op: "only_pages ?S (memory s) (memory u)" by (rule only_pages_trans)
  have "x \<notin> pt_pages (memory s) pgdir \<union> set zs" using h(8,9) zs(1) by auto
  then have z: "memory u (x + i) = 0" if "unat i < 4096" for i
    using only_pages_byte[OF zs(2) page_okD(1)[OF h(7)] _ that] h(4) that by (simp add: fill_def)
  show ?thesis
    unfolding fresh_map_def using wf' same all op zs(1,3) pte z by auto
qed

lemma alloc_page:
  assumes wf: "uvm_wf s (x # xs) pgdir" and a: "aligned 12 a" "a < KERNBASE"
    and abs: "\<not> present (pte_of (memory s) pgdir a)"
  defines "t \<equiv> snd (kalloc s)\<lparr>memory := memset (memory (snd (kalloc s))) x 0 PGSIZE\<rparr>"
  obtains (full) "xs = []" "mappages pgdir a PGSIZE (V2P x) (PTE_W OR PTE_U) t = Inr (- 1, t)"
  | (mapped) u ys where "mappages pgdir a PGSIZE (V2P x) (PTE_W OR PTE_U) t = Inr (0, u)"
      "fresh_map pgdir {a} s (x # xs) u ys" "length xs \<le> Suc (length ys)"
proof -
  note h = held_page[OF wf, folded t_def]
  have "\<not> present (pte_of (memory t) pgdir a)" using abs h(2) by simp
  with uvm_wfD(1)[OF h(1)] a(1) show ?thesis
  proof (cases rule: mappages_round[where la = a and pa = "V2P x" and perm = "PTE_W OR PTE_U"])
    case full
    then show ?thesis using that(1) unfolding mappages_one[OF a(1)] by blast
  next
    case (mapped u ys)
    from fresh_map_page[OF wf a abs, folded t_def, OF this(1,2)] this(3,4) show ?thesis
      using that(2) unfolding mappages_one[OF a(1)] by simp
  qed
qed

text \<open>
  \<open>rolled_back\<close>: the outcome of a failed \<open>allocuvm\<close>. The pages asked for are unmapped, every other
  entry is as before, and no page is lost.
\<close>

definition rolled_back ::
  "u32 \<Rightarrow> u32 set \<Rightarrow> 'a kmem_scheme \<Rightarrow> u32 list \<Rightarrow> 'a kmem_scheme \<Rightarrow> u32 list \<Rightarrow> bool" where
  "rolled_back pgdir P s xs s' ys \<longleftrightarrow>
     uvm_wf s' ys pgdir \<and> kmem_same s s' \<and> all_pages s' ys pgdir = all_pages s xs pgdir \<and>
     only_pages (all_pages s xs pgdir) (memory s) (memory s') \<and>
     (\<forall>va. if PGROUNDDOWN va \<in> P then \<not> present (pte_of (memory s') pgdir va)
           else pte_of (memory s') pgdir va = pte_of (memory s) pgdir va)"

lemma unmapped_rolled_back:
  "unmapped pgdir P s xs s' ys \<Longrightarrow> rolled_back pgdir P s xs s' ys"
  using unmapped_all_pages[of pgdir P s xs s' ys] by (auto simp: unmapped_def rolled_back_def unmap_def)

lemma fresh_rolled_back:
  assumes 1: "fresh_map pgdir Q s xs t ys" and 2: "rolled_back pgdir P t ys u zs" and "Q \<subseteq> P"
  shows "rolled_back pgdir P s xs u zs"
proof -
  have "only_pages (all_pages s xs pgdir) (memory s) (memory t)"
    using 1 by (auto simp: fresh_map_def all_pages_def elim: only_pages_mono)
  moreover have "only_pages (all_pages s xs pgdir) (memory t) (memory u)"
    using 1 2 by (simp add: fresh_map_def rolled_back_def)
  ultimately have op: "only_pages (all_pages s xs pgdir) (memory s) (memory u)" by (rule only_pages_trans)
  have "pte_of (memory t) pgdir va = pte_of (memory s) pgdir va" if "PGROUNDDOWN va \<notin> P" for va
    using 1 that assms(3) unfolding fresh_map_def by blast
  then show ?thesis
    using 1 2 op unfolding rolled_back_def fresh_map_def by (auto intro: kmem_same_trans)
qed

text \<open>Giving back the held page after a failed \<open>mappages\<close>.\<close>

lemma held_rolled_back:
  assumes wf: "uvm_wf s [x] pgdir"
  defines "t \<equiv> snd (kalloc s)\<lparr>memory := memset (memory (snd (kalloc s))) x 0 PGSIZE\<rparr>"
  assumes rb: "unmapped pgdir P t [] u ys"
  shows "\<exists>u'. kfree x u = Inr u' \<and> rolled_back pgdir P s [x] u' (x # ys)"
proof -
  note h = held_page[OF wf, folded t_def]
  have f: "pte_of (memory u) pgdir = unmap P (pte_of (memory s) pgdir)"
    and wfu: "uvm_wf u ys pgdir" and same: "kmem_same s u"
    and pp: "pt_pages (memory u) pgdir = pt_pages (memory s) pgdir"
    using rb h(2,3) kmem_same_trans[OF h(5)] by (simp_all add: unmapped_def)
  have fr: "uframes (memory t) pgdir = uframes (memory s) pgdir"
    using h(2) by (simp add: uframes_def umapped_def uframe_def)
  have all: "all_pages u ys pgdir = pt_pages (memory s) pgdir \<union> uframes (memory s) pgdir"
    using unmapped_all_pages[OF rb] h(3) fr by (simp add: all_pages_def)
  have x: "x \<notin> set ys" "x \<notin> pt_pages (memory u) pgdir" "x \<notin> uframes (memory u) pgdir" "page_ok u x"
    using all h(7,9,10) kmem_same_page_ok[OF same] by (auto simp: all_pages_def)
  obtain v where v: "kfree x u = Inr v" "pt_wf v (x # ys) pgdir" "kmem_same u v"
    "only_pages {x} (memory u) (memory v)" "pte_of (memory v) pgdir = pte_of (memory u) pgdir"
    "pt_pages (memory v) pgdir = pt_pages (memory u) pgdir"
    "\<And>d. unat d < 1024 \<Longrightarrow> pde_of (memory v) pgdir d = pde_of (memory u) pgdir d"
    using kfree_pt[OF uvm_wfD(1)[OF wfu] x(4,1,2)] by blast
  have fv: "uframes (memory v) pgdir = uframes (memory u) pgdir"
    using v(5) by (simp add: uframes_def umapped_def uframe_def)
  have wfv: "uvm_wf v (x # ys) pgdir"
    using v(2,3) wfu
  proof (rule kmem_same_uvm)
    fix va assume "umapped (memory v) pgdir va"
    then have "umapped (memory u) pgdir va" by (simp add: umapped_def v(5))
    then show "umapped (memory u) pgdir va \<and> uframe (memory v) pgdir va = uframe (memory u) pgdir va \<and>
        uframe (memory u) pgdir va \<notin> set (x # ys) \<and> uframe (memory u) pgdir va \<notin> pt_pages (memory v) pgdir"
      using uvm_wf_frame[OF wfu, of va] x(3) v(5,6) by (auto simp: uframe_def uframes_def)
  qed
  let ?S = "all_pages s [x] pgdir"
  have "only_pages ?S (memory s) (memory t)"
    unfolding h(4) using only_pages_fill[OF page_okD(1)[OF h(7)]]
    by (rule only_pages_mono) (simp add: all_pages_def)
  moreover have "only_pages ?S (memory t) (memory u)"
  proof (rule only_pages_mono)
    show "only_pages (all_pages t [] pgdir) (memory t) (memory u)" using rb by (simp add: unmapped_def)
  qed (use fr h(3) in \<open>auto simp: all_pages_def\<close>)
  moreover have "only_pages ?S (memory u) (memory v)"
    using v(4) by (rule only_pages_mono) (simp add: all_pages_def)
  ultimately have op: "only_pages ?S (memory s) (memory v)" by (blast intro: only_pages_trans)
  have "all_pages v (x # ys) pgdir = insert x (all_pages u ys pgdir)"
    using v(6) fv by (auto simp: all_pages_def)
  also have "\<dots> = ?S" unfolding all by (auto simp: all_pages_def)
  finally have "rolled_back pgdir P s [x] v (x # ys)"
    unfolding rolled_back_def using wfv op kmem_same_trans[OF same v(3)] v(5) f by (auto simp: unmap_def)
  then show ?thesis using v(1) by blast
qed

text \<open>A failure means that memory was short: two pages per page asked for would have been enough.\<close>

definition alloc_outcome ::
  "u32 \<Rightarrow> u32 \<Rightarrow> u32 \<Rightarrow> u32 \<Rightarrow> 'a kmem_scheme \<Rightarrow> u32 list \<Rightarrow> fault + u32 \<times> 'a kmem_scheme \<Rightarrow> bool" where
  "alloc_outcome pgdir a oldsz newsz s xs r \<longleftrightarrow>
     (\<exists>s' ys. r = Inr (newsz, s') \<and> fresh_map pgdir (upages a newsz) s xs s' ys) \<or>
     (\<exists>s' ys. r = Inr (0, s') \<and> rolled_back pgdir (upages (PGROUNDUP oldsz) newsz) s xs s' ys \<and>
        a < newsz \<and> 4096 * length xs < 2 * (unat (PGROUNDUP newsz) - unat a))"

lemma allocuvm_round:
  assumes wf: "uvm_wf s xs pgdir" and a: "aligned 12 a" "a < newsz"
    and sz: "newsz < KERNBASE" "oldsz < newsz"
    and abs: "\<not> present (pte_of (memory s) pgdir a)"
  obtains (mapped) u ys where "fresh_map pgdir {a} s xs u ys"
      "allocuvm_loop pgdir a oldsz newsz s =
        (if a < a + PGSIZE then allocuvm_loop pgdir (a + PGSIZE) oldsz newsz u else Inl Diverge)"
      "length xs \<le> length ys + 2"
  | (failed) u ys where "rolled_back pgdir (upages (PGROUNDUP oldsz) newsz) s xs u ys"
      "allocuvm_loop pgdir a oldsz newsz s = Inr (0, u)" "length xs \<le> 1"
proof (cases xs)
  case Nil
  then have k: "kalloc s = (0, s)" using kalloc_empty pt_wfD(1)[OF uvm_wfD(1)[OF wf]] by simp
  obtain u ys where d: "deallocuvm pgdir newsz oldsz s = Inr (oldsz, u)"
    "unmapped pgdir (upages (PGROUNDUP oldsz) newsz) s xs u ys"
    using deallocuvm_spec[OF wf _ sz(2)] sz(1) by force
  then show ?thesis
    using failed[OF unmapped_rolled_back[OF d(2)]] a(2) k Nil by (simp add: allocuvm_loop.simps[of pgdir a])
next
  case (Cons x xs')
  let ?Q = "upages (PGROUNDUP oldsz) newsz"
  have wf': "uvm_wf s (x # xs') pgdir" using wf Cons by simp
  note h0 = held_page[OF wf']
  obtain s1 where k: "kalloc s = (x, s1)" using h0(6) by (cases "kalloc s") auto
  note h = h0[unfolded k snd_conv] and hr = held_rolled_back[of s x pgdir, unfolded k snd_conv]
  let ?t = "s1\<lparr>memory := memset (memory s1) x 0 PGSIZE\<rparr>"
  have x: "x \<noteq> 0" using ka.ok_nonzero[OF h(7)] .
  have ak: "a < KERNBASE" using a(2) sz(1) by simp
  show ?thesis
  proof (cases rule: alloc_page[OF wf' a(1) ak abs, unfolded k snd_conv])
    case 1
    have "newsz \<le> KERNBASE" using sz(1) by simp
    then obtain u ys where d: "deallocuvm pgdir newsz oldsz ?t = Inr (oldsz, u)" "unmapped pgdir ?Q ?t xs' u ys"
      using deallocuvm_spec[OF h(1) _ sz(2)] by blast
    obtain u' where u': "kfree x u = Inr u'" "rolled_back pgdir ?Q s [x] u' (x # ys)"
      using hr wf' d(2) 1(1) by blast
    show ?thesis
      using failed[of u' "x # ys"] u' a(2) k x 1 d(1) Cons by (simp add: allocuvm_loop.simps[of pgdir a])
  next
    case (2 u ys)
    then show ?thesis using mapped[of u ys] a(2) k x Cons by (simp add: allocuvm_loop.simps[of pgdir a])
  qed
qed

lemma PGROUNDUP_above:
  assumes "aligned 12 a" "a < sz" "sz < KERNBASE"
  shows "unat a + 4096 \<le> unat (PGROUNDUP sz)"
proof -
  have "sz \<le> PGROUNDUP sz" using assms(3) by (intro PGROUNDUP_ge) (simp add: word_less_nat_alt)
  then have "unat a < unat (PGROUNDUP sz)" using assms(2) by (simp add: word_le_nat_alt word_less_nat_alt)
  moreover obtain p q where "unat a = 4096 * p" "unat (PGROUNDUP sz) = 4096 * q"
    using assms(1) aligned_PGROUNDUP[of sz] by (auto simp: aligned_def elim!: dvdE)
  ultimately show ?thesis by simp
qed

lemma allocuvm_loop_spec:
  fixes s :: "'a kmem_scheme"
  assumes "uvm_wf s xs pgdir" "aligned 12 a" "newsz < KERNBASE" "oldsz < newsz" "PGROUNDUP oldsz \<le> a"
    "\<And>va. PGROUNDDOWN va \<in> upages a newsz \<Longrightarrow> \<not> present (pte_of (memory s) pgdir va)"
  shows "alloc_outcome pgdir a oldsz newsz s xs (allocuvm_loop pgdir a oldsz newsz s)"
  using assms
proof (induction "2 ^ 32 - unat a" arbitrary: a s xs rule: less_induct)
  case less
  let ?Q = "upages (PGROUNDUP oldsz) newsz"
  show ?case
  proof (cases "a < newsz")
    case False
    then have "upages a newsz = {}" by (auto simp: upages_def)
    then show ?thesis
      using False fresh_map_empty[OF less.prems(1)]
      by (auto simp: alloc_outcome_def allocuvm_loop.simps[of pgdir a])
  next
    case True
    note st = upages_step[OF less.prems(2) True order.strict_implies_order[OF less.prems(3)]]
    have "\<not> present (pte_of (memory s) pgdir a)"
      using less.prems(6)[of a] st(1) PGROUNDDOWN_aligned[OF less.prems(2)] by simp
    with less.prems(1,2) True less.prems(3,4) show ?thesis
    proof (cases rule: allocuvm_round)
      case (mapped u ys)
      have wfu: "uvm_wf u ys pgdir" using mapped(1) by (simp add: fresh_map_def)
      have ab: "\<not> present (pte_of (memory u) pgdir va)" if "PGROUNDDOWN va \<in> upages (a + PGSIZE) newsz" for va
      proof -
        have "PGROUNDDOWN va \<noteq> a" using that st(2) by (auto simp: upages_def)
        then have "pte_of (memory u) pgdir va = pte_of (memory s) pgdir va"
          using mapped(1) unfolding fresh_map_def by blast
        then show ?thesis using less.prems(6)[of va] that st(1) by simp
      qed
      have le: "PGROUNDUP oldsz \<le> a + PGSIZE" using less.prems(5) st(2) by simp
      have ih: "alloc_outcome pgdir (a + PGSIZE) oldsz newsz u ys
          (allocuvm_loop pgdir (a + PGSIZE) oldsz newsz u)"
        using st(2) unat_u32_less[of "a + PGSIZE"]
        by (intro less.hyps wfu st(3) less.prems(3,4) le ab) (simp_all add: word_less_nat_alt)
      have free: "free_pages s xs" using pt_wfD(1)[OF uvm_wfD(1)[OF less.prems(1)]] .
      have disj: "{a} \<inter> upages (a + PGSIZE) newsz = {}" using st(2) by (auto simp: upages_def)
      have aQ: "{a} \<subseteq> ?Q" using less.prems(2,5) True by (simp add: upages_def)
      have ak: "\<And>p. p \<in> {a} \<Longrightarrow> p < KERNBASE" using True less.prems(3) by simp
      have eq: "allocuvm_loop pgdir a oldsz newsz s = allocuvm_loop pgdir (a + PGSIZE) oldsz newsz u"
        using mapped(2) st(2) by simp
      have "unat (a + PGSIZE) = unat a + 4096"
        using True less.prems(3) by (simp add: word_less_nat_alt unat_word_ariths)
      then have short: "4096 * length xs < 2 * (unat (PGROUNDUP newsz) - unat a)"
        if "a + PGSIZE < newsz" "4096 * length ys < 2 * (unat (PGROUNDUP newsz) - unat (a + PGSIZE))"
        using that mapped(3) PGROUNDUP_above[OF st(3) that(1) less.prems(3)] by simp
      show ?thesis
        using ih fresh_map_trans[OF mapped(1) _ free ak disj] fresh_rolled_back[OF mapped(1) _ aQ] short True
        unfolding eq st(1) alloc_outcome_def by blast
    next
      case (failed u ys)
      then have "4096 * length xs < 2 * (unat (PGROUNDUP newsz) - unat a)"
        using PGROUNDUP_above[OF less.prems(2) True less.prems(3)] by simp
      then show ?thesis using failed True unfolding alloc_outcome_def by blast
    qed
  qed
qed

lemma allocuvm_spec:
  assumes wf: "uvm_wf s xs pgdir" and sz: "oldsz \<le> newsz" "newsz < KERNBASE"
    and abs: "\<And>va. PGROUNDDOWN va \<in> upages (PGROUNDUP oldsz) newsz \<Longrightarrow> \<not> present (pte_of (memory s) pgdir va)"
  shows "alloc_outcome pgdir (PGROUNDUP oldsz) oldsz newsz s xs (allocuvm pgdir oldsz newsz s)"
proof (cases "oldsz < newsz")
  case True
  moreover have "\<not> newsz < oldsz" "\<not> KERNBASE \<le> newsz" using sz by auto
  ultimately show ?thesis
    using allocuvm_loop_spec[OF wf aligned_PGROUNDUP sz(2) _ order_refl abs] by (simp add: allocuvm_def)
next
  case False
  then have eq: "oldsz = newsz" using sz(1) by simp
  have "newsz \<le> PGROUNDUP newsz" using sz(2) by (intro PGROUNDUP_ge) (simp add: word_less_nat_alt)
  then have "\<not> PGROUNDUP newsz < newsz" "upages (PGROUNDUP newsz) newsz = {}" by (auto simp: upages_def)
  then show ?thesis
    using eq sz(2) fresh_map_empty[OF wf]
    by (auto simp: alloc_outcome_def allocuvm_def allocuvm_loop.simps[of pgdir] not_le)
qed

lemma alloc_outcome_only_pages:
  "alloc_outcome pgdir a oldsz newsz s xs r \<Longrightarrow>
   \<exists>v s' ys. r = Inr (v, s') \<and> uvm_wf s' ys pgdir \<and> all_pages s' ys pgdir = all_pages s xs pgdir \<and>
     only_pages (all_pages s xs pgdir) (memory s) (memory s')"
  unfolding alloc_outcome_def fresh_map_def rolled_back_def
  by (auto simp: all_pages_def elim!: only_pages_mono)

text \<open>A page directory of zeros, as \<open>setupkvm\<close> starts with.\<close>

lemma zero_directory:
  assumes "free_pages s xs" "page_ok s pgdir" "pgdir \<notin> set xs" "KERNBASE < kend s"
    "\<And>i. unat i < 4096 \<Longrightarrow> memory s (pgdir + i) = 0"
  shows "uvm_wf s xs pgdir" "pte_of (memory s) pgdir va = 0" "pt_pages (memory s) pgdir = {pgdir}"
proof -
  have pd: "pde_of (memory s) pgdir d = 0" if "unat d < 1024" for d
  proof -
    have "read32 (memory s) (pgdir + 4 * d) = read32 (\<lambda>_. 0) (pgdir + 4 * d)"
    proof (rule read32_cong)
      fix j :: u32 assume "unat j < 4"
      then have "unat (4 * d + j) < 4096" using that by (simp add: unat_word_ariths)
      then show "memory s (pgdir + 4 * d + j) = 0" using assms(5)[of "4 * d + j"] by (simp add: add.assoc)
    qed
    then show ?thesis by (simp add: pde_of_def read32_def)
  qed
  show pte: "pte_of (memory s) pgdir va = 0" for va using pd[OF PDX_less] by (simp add: pte_of_def)
  show "pt_pages (memory s) pgdir = {pgdir}" using pd by (auto simp: pt_pages_def)
  have "pt_wf s xs pgdir" using assms(1-3) pd by (intro pt_wfI) auto
  then show "uvm_wf s xs pgdir" using assms(4) pte by (intro uvm_wfI) (auto simp: umapped_def)
qed

section \<open>\<open>freevm\<close>\<close>

lemma freevm_loop_spec:
  assumes "pt_wf s xs pgdir" "n = 1024 - i" "i \<le> 1024"
    "free_pages t zs" "kmem_same s t" "pgdir \<notin> set zs"
    "\<And>d. unat d < 1024 \<Longrightarrow> pde_of (memory t) pgdir d = pde_of (memory s) pgdir d"
    "set zs = set xs \<union> {tab_of (memory s) pgdir d | d. unat d < i \<and> present (pde_of (memory s) pgdir d)}"
  shows "\<exists>t' ys. freevm_loop pgdir i t = Inr t' \<and> free_pages t' ys \<and> kmem_same s t' \<and>
    insert pgdir (set ys) = set xs \<union> pt_pages (memory s) pgdir \<and> pgdir \<notin> set ys"
  using assms(2-)
proof (induction n arbitrary: i t zs)
  case 0
  then have "i = 1024" by simp
  then have "insert pgdir (set zs) = set xs \<union> pt_pages (memory s) pgdir" using 0(7) by (auto simp: pt_pages_def)
  moreover have "freevm_loop pgdir i t = Inr t" using \<open>i = 1024\<close> by (simp add: freevm_loop.simps[of pgdir])
  ultimately show ?case using 0(3-5) by blast
next
  case (Suc n)
  let ?d = "of_nat i :: u32"
  have i: "i < 1024" using Suc.prems(1) by simp
  then have d: "unat ?d = i" by (simp add: unsigned_of_nat take_bit_nat_eq_self)
  have pd: "read32 (memory t) (pgdir + 4 * ?d) = pde_of (memory s) pgdir ?d"
    using Suc.prems(6)[of ?d] d i by (simp add: pde_of_def)
  have lt: "unat e < i + 1 \<longleftrightarrow> unat e < i \<or> e = ?d" for e :: u32
    using d by (auto simp: word_unat_eq_iff less_Suc_eq)
  show ?case
  proof (cases "present (pde_of (memory s) pgdir ?d)")
    case False
    have "set zs = set xs \<union> {tab_of (memory s) pgdir d | d. unat d < i + 1 \<and> present (pde_of (memory s) pgdir d)}"
      unfolding Suc.prems(7) lt using False by blast
    then have "\<exists>t' ys. freevm_loop pgdir (i + 1) t = Inr t' \<and> free_pages t' ys \<and> kmem_same s t' \<and>
        insert pgdir (set ys) = set xs \<union> pt_pages (memory s) pgdir \<and> pgdir \<notin> set ys"
      using Suc.prems i by (intro Suc.IH) auto
    then show ?thesis using i pd False by (simp add: freevm_loop.simps[of pgdir i])
  next
    case True
    let ?v = "tab_of (memory s) pgdir ?d"
    have di: "unat ?d < 1024" using d i by simp
    note tb = pt_wf_tab[OF assms(1) di True]
    have "?v \<noteq> tab_of (memory s) pgdir e" if "unat e < i" "present (pde_of (memory s) pgdir e)" for e
      using pt_wf_tab_inj[OF assms(1) di _ True that(2)] that(1) d i by auto
    then have nv: "?v \<notin> set zs" unfolding Suc.prems(7) using tb(2) by auto
    obtain t1 where t1: "kfree ?v t = Inr t1" "free_pages t1 (?v # zs)"
      using ka.free_page[OF Suc.prems(3) _ nv] tb(1) kmem_same_page_ok[OF Suc.prems(4)] by auto
    have op: "only_pages {?v} (memory t) (memory t1)"
      using kfree_only_page[OF t1(1)] tb(4) by (rule only_page_pages)
    have pd1: "pde_of (memory t1) pgdir d = pde_of (memory s) pgdir d" if "unat d < 1024" for d
      using pde_of_frame[OF op pt_wfD(4)[OF assms(1)] _ that] tb(3) Suc.prems(6)[OF that] by simp
    have zs: "set (?v # zs) = set xs \<union> {tab_of (memory s) pgdir d | d. unat d < i + 1 \<and> present (pde_of (memory s) pgdir d)}"
      unfolding list.set Suc.prems(7) lt using True by blast
    have n: "n = 1024 - (i + 1)" "i + 1 \<le> 1024" and nz: "pgdir \<notin> set (?v # zs)"
      using Suc.prems(1,5) i tb(3) by auto
    have "kmem_same s t1" using Suc.prems(4) kmem_same_kfree[OF t1(1)] by (rule kmem_same_trans)
    from Suc.IH[OF n t1(2) this nz pd1 zs]
    have "\<exists>t' ys. freevm_loop pgdir (i + 1) t1 = Inr t' \<and> free_pages t' ys \<and> kmem_same s t' \<and>
        insert pgdir (set ys) = set xs \<union> pt_pages (memory s) pgdir \<and> pgdir \<notin> set ys" .
    then show ?thesis using i pd True t1(1) by (simp add: freevm_loop.simps[of pgdir i] tab_of_def)
  qed
qed

lemma freevm_spec:
  assumes wf: "uvm_wf s xs pgdir"
  shows "\<exists>s' ys. freevm pgdir s = Inr s' \<and> free_pages s' ys \<and> kmem_same s s' \<and>
    set ys = all_pages s xs pgdir"
proof -
  obtain t zs where t: "deallocuvm pgdir KERNBASE 0 s = Inr (0, t)"
    "unmapped pgdir (upages (PGROUNDUP 0) KERNBASE) s xs t zs"
    using deallocuvm_spec[OF wf, of KERNBASE 0] by auto
  have wft: "uvm_wf t zs pgdir" and same: "kmem_same s t" using t(2) by (simp_all add: unmapped_def)
  note pt = uvm_wfD(1)[OF wft]
  obtain t' ys where t': "freevm_loop pgdir 0 t = Inr t'" "free_pages t' ys" "kmem_same t t'"
    "insert pgdir (set ys) = set zs \<union> pt_pages (memory t) pgdir" "pgdir \<notin> set ys"
    using freevm_loop_spec[OF pt, of 1024 0 t zs] pt_wfD[OF pt] by auto
  have ok: "page_ok t' pgdir" using pt_wfD(2)[OF pt] kmem_same_page_ok[OF t'(3)] by simp
  obtain u where u: "kfree pgdir t' = Inr u" "free_pages u (pgdir # ys)"
    using ka.free_page[OF t'(2) ok t'(5)] by blast
  have "PGROUNDUP 0 = 0" by (simp add: PGROUNDUP_def)
  then have "\<not> umapped (memory t) pgdir va" for va
    using t(2) by (auto simp: unmapped_def umapped_def unmap_def upages_def PGROUNDDOWN_less)
  then have "set (pgdir # ys) = all_pages t zs pgdir" using t'(4) by (auto simp: all_pages_def uframes_def)
  also have "\<dots> = all_pages s xs pgdir" using unmapped_all_pages[OF t(2)] .
  finally have "set (pgdir # ys) = all_pages s xs pgdir" .
  moreover have "freevm pgdir s = Inr u"
    using t(1) t'(1) u(1) ka.ok_nonzero[OF pt_wfD(2)[OF pt]] by (simp add: freevm_def)
  moreover have "kmem_same s u"
    using kmem_same_trans[OF kmem_same_trans[OF same t'(3)] kmem_same_kfree[OF u(1)]] .
  ultimately show ?thesis using u(2) by blast
qed

section \<open>Properties\<close>

text \<open>A small machine for the examples: an empty directory at \<open>0x80400000\<close> and two free pages.\<close>

definition demo_mem :: kmem where
  "demo_mem = \<lparr>memory = write32 (\<lambda>_. 0) 0x80402000 0x80403000, use_lock = True,
     freelist = 0x80402000, kend = 0x80110000\<rparr>"

lemma demo_mem_wf:
  "uvm_wf demo_mem [0x80402000, 0x80403000] 0x80400000"
  "pte_of (memory demo_mem) 0x80400000 va = 0"
  "pt_pages (memory demo_mem) 0x80400000 = {0x80400000}"
proof -
  have r: "read32 (write32 (\<lambda>_. 0) 0x80402000 0x80403000) 0x80403000 = 0"
    using read32_write32_other[of "0x80402000" "0x80403000" "\<lambda>_. 0" "0x80403000"]
    by (simp add: aligned_def read32_def)
  have f: "free_pages demo_mem [0x80402000, 0x80403000]"
    using r by (simp add: free_pages_def demo_mem_def page_ok_def aligned_def V2P_def)
  have z: "memory demo_mem (0x80400000 + i) = 0" if "unat i < 4096" for i
  proof -
    have "4 \<le> unat (0x80400000 + i - 0x80402000)"
      using that by (simp add: unat_sub_if_size word_size unat_word_ariths)
    then show ?thesis unfolding demo_mem_def by (simp add: write32_outside)
  qed
  have ok: "page_ok demo_mem 0x80400000" "0x80400000 \<notin> set [0x80402000, 0x80403000 :: u32]"
    "KERNBASE < kend demo_mem"
    by (simp_all add: demo_mem_def page_ok_def aligned_def V2P_def)
  show "uvm_wf demo_mem [0x80402000, 0x80403000] 0x80400000" "pte_of (memory demo_mem) 0x80400000 va = 0"
    "pt_pages (memory demo_mem) 0x80400000 = {0x80400000}"
    using zero_directory[OF f ok z] by auto
qed

text \<open>
  C2. Growing an address space. For \<open>oldsz \<le> newsz < KERNBASE\<close> and no page mapped yet in the new
  range, \<open>allocuvm\<close> neither panics nor loops. Either it returns \<open>newsz\<close>, and each page of the range
  is mapped user-writable to its own zeroed frame from the free list, all other entries unchanged;
  or it returns 0 and has undone its work without losing a page, which happens only when the free
  list was shorter than two pages per page asked for.
\<close>

theorem allocuvm_correct:
  assumes "uvm_wf s xs pgdir" "oldsz \<le> newsz" "newsz < KERNBASE"
    "\<And>va. PGROUNDDOWN va \<in> upages (PGROUNDUP oldsz) newsz \<Longrightarrow> \<not> present (pte_of (memory s) pgdir va)"
  shows "(\<exists>s' ys. allocuvm pgdir oldsz newsz s = Inr (newsz, s') \<and>
      fresh_map pgdir (upages (PGROUNDUP oldsz) newsz) s xs s' ys) \<or>
    (\<exists>s' ys. allocuvm pgdir oldsz newsz s = Inr (0, s') \<and>
      rolled_back pgdir (upages (PGROUNDUP oldsz) newsz) s xs s' ys \<and>
      4096 * length xs < 2 * (unat (PGROUNDUP newsz) - unat (PGROUNDUP oldsz)))"
  using allocuvm_spec[OF assms] by (auto simp: alloc_outcome_def)

theorem allocuvm_correct_witness:
  "\<exists>s' ys. allocuvm 0x80400000 0 4096 demo_mem = Inr (4096, s') \<and>
     fresh_map 0x80400000 (upages (PGROUNDUP 0) 4096) demo_mem [0x80402000, 0x80403000] s' ys"
  using allocuvm_correct[OF demo_mem_wf(1), of 0 4096] by (simp add: demo_mem_wf(2) PGROUNDUP_def)

text \<open>
  C3. Shrinking an address space. With \<open>newsz < oldsz \<le> KERNBASE\<close>, \<open>deallocuvm\<close> returns \<open>newsz\<close>; the
  frames of the pages between the sizes, and only those, go back to the free list, and these pages
  lose their mapping. No frame is freed twice, whatever tables are missing in between.
\<close>

theorem deallocuvm_correct:
  assumes "uvm_wf s xs pgdir" "newsz < oldsz" "oldsz \<le> KERNBASE"
  shows "\<exists>s' fs. deallocuvm pgdir oldsz newsz s = Inr (newsz, s') \<and>
    uvm_wf s' (fs @ xs) pgdir \<and> distinct (fs @ xs) \<and>
    set fs = {uframe (memory s) pgdir va | va.
      umapped (memory s) pgdir va \<and> PGROUNDDOWN va \<in> upages (PGROUNDUP newsz) oldsz} \<and>
    pte_of (memory s') pgdir = unmap (upages (PGROUNDUP newsz) oldsz) (pte_of (memory s) pgdir)"
proof -
  obtain s' ys where s': "deallocuvm pgdir oldsz newsz s = Inr (newsz, s')"
    "unmapped pgdir (upages (PGROUNDUP newsz) oldsz) s xs s' ys"
    using deallocuvm_spec[OF assms(1,3,2)] by blast
  then have wf: "uvm_wf s' ys pgdir" by (simp add: unmapped_def)
  have "distinct ys" using ka.pages_distinct[OF pt_wfD(1)[OF uvm_wfD(1)[OF wf]]] .
  then show ?thesis using s' unfolding unmapped_def by blast
qed

theorem deallocuvm_correct_witness:
  "\<exists>s' fs. deallocuvm 0x80400000 8192 100 demo_mem = Inr (100, s') \<and>
     uvm_wf s' (fs @ [0x80402000, 0x80403000]) 0x80400000"
  using deallocuvm_correct[OF demo_mem_wf(1), of 100 8192] by auto

text \<open>
  C4. Tearing an address space down. \<open>freevm\<close> succeeds and returns every user frame, every page
  table and the directory itself to the free list, each once.
\<close>

theorem freevm_correct:
  assumes "uvm_wf s xs pgdir"
  shows "\<exists>s' ys. freevm pgdir s = Inr s' \<and> free_pages s' ys \<and> distinct ys \<and>
    set ys = set xs \<union> pt_pages (memory s) pgdir \<union> uframes (memory s) pgdir"
  using freevm_spec[OF assms] ka.pages_distinct unfolding all_pages_def by blast

theorem freevm_correct_witness:
  "\<exists>s' ys. freevm 0x80400000 demo_mem = Inr s' \<and> free_pages s' ys \<and>
     0x80400000 \<in> set ys \<and> 0x80402000 \<in> set ys"
proof -
  obtain s' ys where "freevm 0x80400000 demo_mem = Inr s'" "free_pages s' ys"
    "set ys = set [0x80402000, 0x80403000] \<union> pt_pages (memory demo_mem) 0x80400000 \<union>
      uframes (memory demo_mem) 0x80400000"
    using freevm_correct[OF demo_mem_wf(1)] by blast
  moreover have "0x80400000 \<in> pt_pages (memory demo_mem) 0x80400000" by (simp add: pt_pages_def)
  ultimately show ?thesis by auto
qed

text \<open>
  C5. Isolation. Growing one address space changes neither the page-table entries nor a byte of the
  mapped memory of another one, when the two own different pages.
\<close>

theorem allocuvm_isolates:
  assumes "uvm_wf s xs pgdir" "uvm_wf s xs other" "oldsz \<le> newsz" "newsz < KERNBASE"
    "\<And>va. PGROUNDDOWN va \<in> upages (PGROUNDUP oldsz) newsz \<Longrightarrow> \<not> present (pte_of (memory s) pgdir va)"
    "(pt_pages (memory s) other \<union> uframes (memory s) other) \<inter>
      (pt_pages (memory s) pgdir \<union> uframes (memory s) pgdir) = {}"
  shows "\<exists>v s'. allocuvm pgdir oldsz newsz s = Inr (v, s') \<and>
    pte_of (memory s') other = pte_of (memory s) other \<and>
    (\<forall>va i. umapped (memory s) other va \<longrightarrow> unat i < 4096 \<longrightarrow>
       memory s' (uframe (memory s) other va + i) = memory s (uframe (memory s) other va + i))"
proof -
  obtain v s' where s': "allocuvm pgdir oldsz newsz s = Inr (v, s')"
    "only_pages (all_pages s xs pgdir) (memory s) (memory s')"
    using alloc_outcome_only_pages[OF allocuvm_spec[OF assms(1,3,4,5)]] by blast
  have pt: "pt_pages (memory s) other \<inter> all_pages s xs pgdir = {}"
    using assms(6) pt_pages_ok[OF uvm_wfD(1)[OF assms(2)]] by (auto simp: all_pages_def)
  have fr: "uframe (memory s) other va \<notin> all_pages s xs pgdir" if "umapped (memory s) other va" for va
    using assms(6) uvm_wf_frame(2)[OF assms(2) that] that by (auto simp: all_pages_def uframes_def)
  have "memory s' (uframe (memory s) other va + i) = memory s (uframe (memory s) other va + i)"
    if "umapped (memory s) other va" "unat i < 4096" for va i
    using only_pages_byte[OF s'(2) page_okD(1)[OF uvm_wf_frame(1)[OF assms(2) that(1)]] fr[OF that(1)] that(2)] .
  then show ?thesis
    using s'(1) outside_directory(1)[OF uvm_wfD(1)[OF assms(2)] s'(2) pt] by blast
qed

theorem allocuvm_isolates_witness:
  "\<exists>v s'. allocuvm 0x80400000 0 4096 demo_mem = Inr (v, s') \<and>
     pte_of (memory s') 0x80401000 = pte_of (memory demo_mem) 0x80401000"
proof -
  have z: "memory demo_mem (0x80401000 + i) = 0" if "unat i < 4096" for i
  proof -
    have "4 \<le> unat (0x80401000 + i - 0x80402000)"
      using that by (simp add: unat_sub_if_size word_size unat_word_ariths)
    then show ?thesis unfolding demo_mem_def by (simp add: write32_outside)
  qed
  have f: "free_pages demo_mem [0x80402000, 0x80403000]"
    using pt_wfD(1)[OF uvm_wfD(1)[OF demo_mem_wf(1)]] .
  have ok: "page_ok demo_mem 0x80401000" "0x80401000 \<notin> set [0x80402000, 0x80403000 :: u32]"
    "KERNBASE < kend demo_mem"
    by (simp_all add: demo_mem_def page_ok_def aligned_def V2P_def)
  note other = zero_directory[OF f ok z]
  have "pt_pages (memory demo_mem) 0x80400000 = {0x80400000}"
    by (rule demo_mem_wf(3))
  moreover have "uframes (memory demo_mem) 0x80401000 = {}" "uframes (memory demo_mem) 0x80400000 = {}"
    using other(2) demo_mem_wf(2) by (simp_all add: uframes_def umapped_def)
  ultimately show ?thesis
    using allocuvm_isolates[OF demo_mem_wf(1) other(1), of 0 4096] other(3)
    by (simp add: demo_mem_wf(2)) blast
qed

end
