(* ===== verification/Spinlock.thy ===== *)
theory Spinlock
  imports Layout
begin

text \<open>
  Spin locks (\<open>spinlock.c\<close>) on a machine with several CPUs. Each CPU has its nesting depth of
  \<open>pushcli\<close>, the saved interrupt flag and the flag itself; a spin lock records the CPU that holds it.
  \<open>lock_step\<close> interleaves the calls of all CPUs, one atomic instruction or critical action at a time,
  and the invariant \<open>lock_inv\<close> of its reachable states gives mutual exclusion, interrupts off while
  a lock is held, and that a matched \<open>release\<close> never panics.
\<close>

section \<open>State and operations\<close>

record cpu =
  apicid :: u8
  ncli :: int
  intena :: bool
  iflag :: bool

record spinlock =
  locked :: u32
  lcpu :: "nat option"
  pcs :: "u32 list"

record smp =
  cpus :: "cpu list"
  locks :: "spinlock list"

definition upd_cpu :: "nat \<Rightarrow> (cpu \<Rightarrow> cpu) \<Rightarrow> smp \<Rightarrow> smp" where
  "upd_cpu i f s = s\<lparr>cpus := (cpus s)[i := f (cpus s ! i)]\<rparr>"

definition upd_lock :: "nat \<Rightarrow> (spinlock \<Rightarrow> spinlock) \<Rightarrow> smp \<Rightarrow> smp" where
  "upd_lock l f s = s\<lparr>locks := (locks s)[l := f (locks s ! l)]\<rparr>"

text \<open>
  The first argument is the number of the CPU that executes the call; \<open>lapicid()\<close> on it is its APIC
  id, and \<open>mycpu\<close> finds the entry of \<open>cpus\<close> with that id.
\<close>

definition mycpu :: "nat \<Rightarrow> smp \<Rightarrow> fault + nat" where
  "mycpu c s =
     (if iflag (cpus s ! c) then Inl (Panic ''mycpu called with interrupts enabled'')
      else case find_idx (\<lambda>d. apicid d = apicid (cpus s ! c)) (cpus s) of
        None \<Rightarrow> Inl (Panic ''unknown apicid'')
      | Some i \<Rightarrow> Inr i)"

definition initlock :: "nat \<Rightarrow> smp \<Rightarrow> smp" where
  "initlock l s = upd_lock l (\<lambda>k. k\<lparr>locked := 0, lcpu := None\<rparr>) s"

definition pushcli :: "nat \<Rightarrow> smp \<Rightarrow> fault + smp" where
  "pushcli c s =
     (let eflags = iflag (cpus s ! c);
          s = upd_cpu c (\<lambda>k. k\<lparr>iflag := False\<rparr>) s
      in bind_res (mycpu c s) (\<lambda>i.
         let s = (if ncli (cpus s ! i) = 0 then upd_cpu i (\<lambda>k. k\<lparr>intena := eflags\<rparr>) s else s)
         in Inr (upd_cpu i (\<lambda>k. k\<lparr>ncli := ncli k + 1\<rparr>) s)))"

definition popcli :: "nat \<Rightarrow> smp \<Rightarrow> fault + smp" where
  "popcli c s =
     (if iflag (cpus s ! c) then Inl (Panic ''popcli - interruptible'')
      else bind_res (mycpu c s) (\<lambda>i.
        let s = upd_cpu i (\<lambda>k. k\<lparr>ncli := ncli k - 1\<rparr>) s
        in if ncli (cpus s ! i) < 0 then Inl (Panic ''popcli'')
           else if ncli (cpus s ! i) = 0 \<and> intena (cpus s ! i)
           then Inr (upd_cpu c (\<lambda>k. k\<lparr>iflag := True\<rparr>) s)
           else Inr s))"

definition holding :: "nat \<Rightarrow> nat \<Rightarrow> smp \<Rightarrow> fault + bool \<times> smp" where
  "holding c l s =
     bind_res (pushcli c s) (\<lambda>s.
     bind_res (mycpu c s) (\<lambda>i.
     let r = (locked (locks s ! l) \<noteq> 0 \<and> lcpu (locks s ! l) = Some i)
     in bind_res (popcli c s) (\<lambda>s. Inr (r, s))))"

text \<open>
  \<open>acquire\<close> up to its spin loop, one round of the loop, and the bookkeeping after it. The call
  stack \<open>stk\<close> that \<open>getcallerpcs\<close> records is for debugging only.
\<close>

definition acquire_enter :: "nat \<Rightarrow> nat \<Rightarrow> smp \<Rightarrow> fault + smp" where
  "acquire_enter c l s =
     bind_res (pushcli c s) (\<lambda>s.
     bind_res (holding c l s) (\<lambda>(r, s). if r then Inl (Panic ''acquire'') else Inr s))"

definition xchg_lock :: "nat \<Rightarrow> smp \<Rightarrow> u32 \<times> smp" where
  "xchg_lock l s = (locked (locks s ! l), upd_lock l (\<lambda>k. k\<lparr>locked := 1\<rparr>) s)"

definition acquire_got :: "nat \<Rightarrow> nat \<Rightarrow> u32 list \<Rightarrow> smp \<Rightarrow> fault + smp" where
  "acquire_got c l stk s =
     bind_res (mycpu c s) (\<lambda>i. Inr (upd_lock l (\<lambda>k. k\<lparr>lcpu := Some i, pcs := stk\<rparr>) s))"

definition release :: "nat \<Rightarrow> nat \<Rightarrow> smp \<Rightarrow> fault + smp" where
  "release c l s =
     bind_res (holding c l s) (\<lambda>(r, s).
     if \<not> r then Inl (Panic ''release'')
     else popcli c (upd_lock l (\<lambda>k. k\<lparr>pcs := (pcs k)[0 := 0], lcpu := None, locked := 0\<rparr>) s))"

text \<open>\<open>getcallerpcs\<close>, following the chain of saved frame pointers in memory.\<close>

fun getcallerpcs_loop :: "mem \<Rightarrow> u32 \<Rightarrow> nat \<Rightarrow> u32 list" where
  "getcallerpcs_loop m ebp 0 = []"
| "getcallerpcs_loop m ebp (Suc n) =
     (if ebp = 0 \<or> ebp < KERNBASE \<or> ebp = 0xFFFFFFFF then replicate (Suc n) 0
      else read32 m (ebp + 4) # getcallerpcs_loop m (read32 m ebp) n)"

definition getcallerpcs :: "mem \<Rightarrow> u32 \<Rightarrow> u32 list" where
  "getcallerpcs m v = getcallerpcs_loop m (v - 8) 10"

lemma length_getcallerpcs: "length (getcallerpcs m v) = 10"
proof -
  have "length (getcallerpcs_loop m ebp n) = n" for ebp n
    by (induction m ebp n rule: getcallerpcs_loop.induct) auto
  then show ?thesis by (simp add: getcallerpcs_def)
qed

section \<open>One CPU\<close>

definition cpus_wf :: "smp \<Rightarrow> bool" where
  "cpus_wf s \<longleftrightarrow> distinct (map apicid (cpus s))"

lemma mycpu_self:
  assumes "cpus_wf s" "c < length (cpus s)" "\<not> iflag (cpus s ! c)"
  shows "mycpu c s = Inr c"
proof -
  have "find_idx (\<lambda>d. apicid d = apicid (cpus s ! c)) (cpus s) = Some c"
  proof (rule find_idx_SomeI)
    fix j assume "j < c"
    then show "apicid (cpus s ! j) \<noteq> apicid (cpus s ! c)"
      using assms(1,2) by (auto simp: cpus_wf_def distinct_conv_nth)
  qed (use assms in auto)
  then show ?thesis using assms(3) by (simp add: mycpu_def)
qed

lemma upd_cpu_simps [simp]:
  "length (cpus (upd_cpu i f s)) = length (cpus s)" "locks (upd_cpu i f s) = locks s"
  "i < length (cpus s) \<Longrightarrow> cpus (upd_cpu i f s) ! j = (if i = j then f (cpus s ! i) else cpus s ! j)"
  by (simp_all add: upd_cpu_def)

lemma upd_lock_simps [simp]:
  "length (locks (upd_lock i f s)) = length (locks s)" "cpus (upd_lock i f s) = cpus s"
  "i < length (locks s) \<Longrightarrow> locks (upd_lock i f s) ! j = (if i = j then f (locks s ! i) else locks s ! j)"
  by (simp_all add: upd_lock_def)

lemma cpus_wf_upd:
  "(\<And>k. apicid (f k) = apicid k) \<Longrightarrow> cpus_wf (upd_cpu i f s) = cpus_wf s"
proof -
  assume "\<And>k. apicid (f k) = apicid k"
  then have "map apicid ((cpus s)[i := f (cpus s ! i)]) = map apicid (cpus s)"
    by (cases "i < length (cpus s)") (simp_all add: map_update list_update_same_conv list_update_beyond)
  then show ?thesis by (simp add: cpus_wf_def upd_cpu_def)
qed

lemma cpus_wf_upd_lock [simp]: "cpus_wf (upd_lock i f s) = cpus_wf s"
  by (simp add: cpus_wf_def upd_lock_def)

lemma upd_cpu_upd_cpu: "i < length (cpus s) \<Longrightarrow> upd_cpu i g (upd_cpu i f s) = upd_cpu i (g \<circ> f) s"
  by (simp add: upd_cpu_def)

lemma upd_lock_upd_lock: "i < length (locks s) \<Longrightarrow> upd_lock i g (upd_lock i f s) = upd_lock i (g \<circ> f) s"
  by (simp add: upd_lock_def)

lemma upd_cpu_id: "i < length (cpus s) \<Longrightarrow> f (cpus s ! i) = cpus s ! i \<Longrightarrow> upd_cpu i f s = s"
  by (simp add: upd_cpu_def)

lemma upd_cpu_cong:
  "f (cpus s ! i) = g (cpus s ! i) \<Longrightarrow> upd_cpu i f s = upd_cpu i g s"
  by (simp add: upd_cpu_def)

text \<open>\<open>pushcli\<close> and \<open>popcli\<close> in one step each.\<close>

lemma pushcli_eq:
  assumes "cpus_wf s" "c < length (cpus s)"
  shows "pushcli c s = Inr (upd_cpu c (\<lambda>k. k\<lparr>iflag := False, ncli := ncli k + 1,
    intena := (if ncli k = 0 then iflag k else intena k)\<rparr>) s)"
proof -
  let ?s = "upd_cpu c (\<lambda>k. k\<lparr>iflag := False\<rparr>) s"
  have "mycpu c ?s = Inr c"
    using assms by (intro mycpu_self) (auto simp: cpus_wf_upd)
  then show ?thesis
    using assms by (simp add: pushcli_def Let_def upd_cpu_upd_cpu)
      (auto intro!: upd_cpu_cong)
qed

lemma popcli_eq:
  assumes "cpus_wf s" "c < length (cpus s)" "\<not> iflag (cpus s ! c)" "0 < ncli (cpus s ! c)"
  shows "popcli c s = Inr (upd_cpu c (\<lambda>k. k\<lparr>ncli := ncli k - 1,
    iflag := (ncli k = 1 \<and> intena k)\<rparr>) s)"
  using assms mycpu_self[OF assms(1-3)]
  by (auto simp: popcli_def Let_def upd_cpu_upd_cpu intro!: upd_cpu_cong)

text \<open>A matched pair restores the CPU; this is how \<open>holding\<close> leaves no trace.\<close>

lemma pushcli_popcli:
  assumes "cpus_wf s" "c < length (cpus s)" "0 \<le> ncli (cpus s ! c)"
    "0 < ncli (cpus s ! c) \<Longrightarrow> \<not> iflag (cpus s ! c)"
  shows "bind_res (pushcli c s) (popcli c) =
    Inr (upd_cpu c (\<lambda>k. k\<lparr>intena := (if ncli k = 0 then iflag k else intena k)\<rparr>) s)"
proof -
  let ?f = "\<lambda>k. k\<lparr>iflag := False, ncli := ncli k + 1, intena := (if ncli k = 0 then iflag k else intena k)\<rparr>"
  have "popcli c (upd_cpu c ?f s) = Inr (upd_cpu c (\<lambda>k. k\<lparr>ncli := ncli k - 1,
      iflag := (ncli k = 1 \<and> intena k)\<rparr>) (upd_cpu c ?f s))"
    using assms by (intro popcli_eq) (auto simp: cpus_wf_upd)
  then show ?thesis
    using assms by (simp add: pushcli_eq upd_cpu_upd_cpu) (auto intro!: upd_cpu_cong)
qed

lemma holding_eq:
  assumes "cpus_wf s" "c < length (cpus s)" "0 < ncli (cpus s ! c)" "\<not> iflag (cpus s ! c)"
  shows "holding c l s = Inr (locked (locks s ! l) \<noteq> 0 \<and> lcpu (locks s ! l) = Some c, s)"
proof -
  let ?s = "upd_cpu c (\<lambda>k. k\<lparr>iflag := False, ncli := ncli k + 1,
    intena := (if ncli k = 0 then iflag k else intena k)\<rparr>) s"
  have p: "pushcli c s = Inr ?s" using assms by (intro pushcli_eq)
  have m: "mycpu c ?s = Inr c" using assms by (intro mycpu_self) (auto simp: cpus_wf_upd)
  have "bind_res (pushcli c s) (popcli c) = Inr s"
    using assms pushcli_popcli[OF assms(1,2)] by (simp add: upd_cpu_id)
  then have "popcli c ?s = Inr s" using p by simp
  then show ?thesis using p m by (simp add: holding_def Let_def)
qed

section \<open>All CPUs\<close>

text \<open>
  \<open>held c\<close> lists the locks CPU \<open>c\<close> has acquired and not yet released, \<open>spin c\<close> the lock it is
  spinning on. A CPU calls \<open>acquire\<close> and \<open>release\<close> in any order and nesting, only never \<open>acquire\<close> on
  a lock it holds.
\<close>

record lock_run =
  mach :: smp
  held :: "nat \<Rightarrow> nat list"
  spin :: "nat \<Rightarrow> nat option"

inductive lock_step :: "lock_run \<Rightarrow> lock_run \<Rightarrow> bool" where
  enter: "c < length (cpus (mach r)) \<Longrightarrow> l < length (locks (mach r)) \<Longrightarrow> spin r c = None \<Longrightarrow>
    l \<notin> set (held r c) \<Longrightarrow> acquire_enter c l (mach r) = Inr s \<Longrightarrow>
    lock_step r (r\<lparr>mach := s, spin := (spin r)(c := Some l)\<rparr>)"
| spins: "c < length (cpus (mach r)) \<Longrightarrow> spin r c = Some l \<Longrightarrow> xchg_lock l (mach r) = (v, s) \<Longrightarrow>
    v \<noteq> 0 \<Longrightarrow> lock_step r (r\<lparr>mach := s\<rparr>)"
| got: "c < length (cpus (mach r)) \<Longrightarrow> spin r c = Some l \<Longrightarrow> xchg_lock l (mach r) = (0, s) \<Longrightarrow>
    acquire_got c l stk s = Inr s' \<Longrightarrow>
    lock_step r (r\<lparr>mach := s', held := (held r)(c := l # held r c), spin := (spin r)(c := None)\<rparr>)"
| rel: "c < length (cpus (mach r)) \<Longrightarrow> spin r c = None \<Longrightarrow> l \<in> set (held r c) \<Longrightarrow>
    release c l (mach r) = Inr s \<Longrightarrow>
    lock_step r (r\<lparr>mach := s, held := (held r)(c := remove1 l (held r c))\<rparr>)"

definition lock_inv :: "lock_run \<Rightarrow> bool" where
  "lock_inv r \<longleftrightarrow>
     cpus_wf (mach r) \<and>
     (\<forall>c < length (cpus (mach r)). distinct (held r c) \<and>
        ncli (cpus (mach r) ! c) = int (length (held r c)) + (if spin r c = None then 0 else 1) \<and>
        (0 < ncli (cpus (mach r) ! c) \<longrightarrow> \<not> iflag (cpus (mach r) ! c)) \<and>
        (\<forall>l. spin r c = Some l \<longrightarrow> l < length (locks (mach r)) \<and> l \<notin> set (held r c)) \<and>
        (\<forall>l \<in> set (held r c). l < length (locks (mach r)) \<and>
           locked (locks (mach r) ! l) \<noteq> 0 \<and> lcpu (locks (mach r) ! l) = Some c)) \<and>
     (\<forall>l < length (locks (mach r)). locked (locks (mach r) ! l) \<noteq> 0 \<longrightarrow>
        (\<exists>c < length (cpus (mach r)). l \<in> set (held r c)))"

lemma lock_invD:
  assumes "lock_inv r" "c < length (cpus (mach r))"
  shows "cpus_wf (mach r)" "distinct (held r c)"
    "ncli (cpus (mach r) ! c) = int (length (held r c)) + (if spin r c = None then 0 else 1)"
    "0 < ncli (cpus (mach r) ! c) \<Longrightarrow> \<not> iflag (cpus (mach r) ! c)"
    "spin r c = Some l \<Longrightarrow> l < length (locks (mach r)) \<and> l \<notin> set (held r c)"
    "l \<in> set (held r c) \<Longrightarrow> l < length (locks (mach r)) \<and>
       locked (locks (mach r) ! l) \<noteq> 0 \<and> lcpu (locks (mach r) ! l) = Some c"
  using assms unfolding lock_inv_def by blast+

lemma lock_inv_enter:
  assumes inv: "lock_inv r" and c: "c < length (cpus (mach r))" "l < length (locks (mach r))"
    and sp: "spin r c = None" "l \<notin> set (held r c)"
  defines "s \<equiv> upd_cpu c (\<lambda>k. k\<lparr>iflag := False, ncli := ncli k + 1,
      intena := (if ncli k = 0 then iflag k else intena k)\<rparr>) (mach r)"
  shows "acquire_enter c l (mach r) = Inr s"
    and "lock_inv (r\<lparr>mach := s, spin := (spin r)(c := Some l)\<rparr>)"
proof -
  note d = lock_invD[OF inv c(1)]
  have n: "0 \<le> ncli (cpus (mach r) ! c)" using d(3) sp(1) by simp
  have nh: "\<not> (locked (locks (mach r) ! l) \<noteq> 0 \<and> lcpu (locks (mach r) ! l) = Some c)"
  proof
    assume a: "locked (locks (mach r) ! l) \<noteq> 0 \<and> lcpu (locks (mach r) ! l) = Some c"
    then obtain c' where c': "c' < length (cpus (mach r))" "l \<in> set (held r c')"
      using inv c(2) unfolding lock_inv_def by blast
    then have "c' = c" using lock_invD(6)[OF inv c'] a by simp
    then show False using c'(2) sp(2) by simp
  qed
  have "holding c l s = Inr (locked (locks s ! l) \<noteq> 0 \<and> lcpu (locks s ! l) = Some c, s)"
    unfolding s_def using d(1) c(1) n by (intro holding_eq) (auto simp: cpus_wf_upd)
  then show "acquire_enter c l (mach r) = Inr s"
    using nh pushcli_eq[OF d(1) c(1), folded s_def] by (auto simp: acquire_enter_def s_def)
  show "lock_inv (r\<lparr>mach := s, spin := (spin r)(c := Some l)\<rparr>)"
    using inv c sp unfolding lock_inv_def s_def by (auto simp: cpus_wf_upd)
qed

lemma lock_inv_got:
  assumes inv: "lock_inv r" and c: "c < length (cpus (mach r))" "spin r c = Some l"
    and free: "locked (locks (mach r) ! l) = 0" and got: "acquire_got c l stk (upd_lock l (\<lambda>k. k\<lparr>locked := 1\<rparr>) (mach r)) = Inr s"
  shows "lock_inv (r\<lparr>mach := s, held := (held r)(c := l # held r c), spin := (spin r)(c := None)\<rparr>)"
proof -
  note d = lock_invD[OF inv c(1)]
  have l: "l < length (locks (mach r))" "l \<notin> set (held r c)" using d(5) c(2) by auto
  have "\<not> iflag (cpus (mach r) ! c)" using d(3,4) c(2) by simp
  then have m: "mycpu c (upd_lock l (\<lambda>k. k\<lparr>locked := 1\<rparr>) (mach r)) = Inr c"
    using d(1) c(1) by (intro mycpu_self) simp_all
  have s: "s = upd_lock l (\<lambda>k. k\<lparr>locked := 1, lcpu := Some c, pcs := stk\<rparr>) (mach r)"
    using got l(1) by (simp add: acquire_got_def m upd_lock_upd_lock comp_def)
  have nobody: "l \<notin> set (held r c')" if "c' < length (cpus (mach r))" for c'
    using lock_invD(6)[OF inv that] free by auto
  show ?thesis
    unfolding lock_inv_def
  proof (intro conjI allI impI, goal_cases)
    case 1
    then show ?case using d(1) by (simp add: s)
  next
    case (2 c')
    then show ?case using lock_invD(2)[OF inv, of c'] l by (auto simp: s)
  next
    case (3 c')
    then show ?case using lock_invD(3)[OF inv, of c'] c by (auto simp: s)
  next
    case (4 c')
    then show ?case using lock_invD(4)[OF inv, of c'] by (auto simp: s)
  next
    case (5 c' l')
    then show ?case using lock_invD(5)[OF inv, of c'] by (auto simp: s split: if_splits)
  next
    case (6 c' l')
    then show ?case using lock_invD(5)[OF inv, of c'] by (auto simp: s split: if_splits)
  next
    case (7 c')
    then show ?case
      using lock_invD(6)[OF inv, of c'] nobody[of c'] l by (auto simp: s split: if_splits)
  next
    case (8 l')
    then show ?case using inv c(1) l unfolding lock_inv_def by (auto simp: s split: if_splits)
  qed
qed

lemma lock_inv_release:
  assumes inv: "lock_inv r" and c: "c < length (cpus (mach r))" "spin r c = None" "l \<in> set (held r c)"
  obtains s where "release c l (mach r) = Inr s"
    "lock_inv (r\<lparr>mach := s, held := (held r)(c := remove1 l (held r c))\<rparr>)"
proof -
  note d = lock_invD[OF inv c(1)]
  have l: "l < length (locks (mach r))" "locked (locks (mach r) ! l) \<noteq> 0" "lcpu (locks (mach r) ! l) = Some c"
    using d(6)[OF c(3)] by auto
  have len: "0 < length (held r c)" using c(3) by (rule length_pos_if_in_set)
  then have n: "0 < ncli (cpus (mach r) ! c)" using d(3) c(2) by simp
  have len1: "int (length (held r c) - 1) = int (length (held r c)) - 1" using len by linarith
  have f: "\<not> iflag (cpus (mach r) ! c)" using n by (rule d(4))
  let ?t = "upd_lock l (\<lambda>k. k\<lparr>pcs := (pcs k)[0 := 0], lcpu := None, locked := 0\<rparr>) (mach r)"
  let ?s = "upd_cpu c (\<lambda>k. k\<lparr>ncli := ncli k - 1, iflag := (ncli k = 1 \<and> intena k)\<rparr>) ?t"
  have h: "holding c l (mach r) = Inr (True, mach r)"
    using holding_eq[OF d(1) c(1) n f] l by simp
  have p: "popcli c ?t = Inr ?s" using d(1) c(1) n f by (intro popcli_eq) simp_all
  have rel: "release c l (mach r) = Inr ?s" using h p by (simp add: release_def)
  have other: "l \<notin> set (held r c')" if "c' < length (cpus (mach r))" "c' \<noteq> c" for c'
    using lock_invD(6)[OF inv that(1)] l(3) that(2) by auto
  have "lock_inv (r\<lparr>mach := ?s, held := (held r)(c := remove1 l (held r c))\<rparr>)"
    unfolding lock_inv_def
  proof (intro conjI allI impI, goal_cases)
    case 1
    then show ?case using d(1) by (simp add: cpus_wf_upd)
  next
    case (2 c')
    then show ?case using lock_invD(2)[OF inv, of c'] by auto
  next
    case (3 c')
    then show ?case using lock_invD(3)[OF inv, of c'] c len1 by (auto simp: length_remove1)
  next
    case (4 c')
    then show ?case using lock_invD(4)[OF inv, of c'] c(1) d(4) by (auto split: if_splits)
  next
    case (5 c' l')
    then show ?case using lock_invD(5)[OF inv, of c'] by auto
  next
    case (6 c' l')
    then show ?case using lock_invD(5)[OF inv, of c'] c(2) by (auto split: if_splits)
  next
    case (7 c')
    then show ?case
      using lock_invD(6)[OF inv, of c'] other[of c'] d(2) l(1) c(1) by (auto split: if_splits)
  next
    case (8 l')
    then have "l' \<noteq> l" "l' < length (locks (mach r))" "locked (locks (mach r) ! l') \<noteq> 0"
      using l(1) by (auto split: if_splits)
    then obtain c' where "c' < length (cpus (mach r))" "l' \<in> set (held r c')"
      using inv unfolding lock_inv_def by blast
    then show ?case using \<open>l' \<noteq> l\<close> by (auto intro!: exI[of _ c'])
  qed
  then show ?thesis using that rel by blast
qed

lemma lock_inv_spins:
  assumes inv: "lock_inv r" and v: "locked (locks (mach r) ! l) \<noteq> 0"
  shows "lock_inv (r\<lparr>mach := upd_lock l (\<lambda>k. k\<lparr>locked := 1\<rparr>) (mach r)\<rparr>)"
proof -
  let ?s = "upd_lock l (\<lambda>k. k\<lparr>locked := 1\<rparr>) (mach r)"
  show ?thesis
  proof (cases "l < length (locks (mach r))")
    case True
    then have 1: "(locked (locks ?s ! k) \<noteq> 0) = (locked (locks (mach r) ! k) \<noteq> 0)" for k using v by auto
    have 2: "lcpu (locks ?s ! k) = lcpu (locks (mach r) ! k)" for k using True by simp
    show ?thesis
      using inv 1 2 unfolding lock_inv_def by simp
  next
    case False
    then have "?s = mach r" by (simp add: upd_lock_def list_update_beyond)
    then show ?thesis using inv by simp
  qed
qed

lemma lock_inv_step: "lock_step r r' \<Longrightarrow> lock_inv r \<Longrightarrow> lock_inv r'"
proof (induction rule: lock_step.induct)
  case (enter c r l s)
  then show ?case using lock_inv_enter[of r c l] by simp
next
  case (spins c r l v s)
  then show ?case using lock_inv_spins[of r l] by (auto simp: xchg_lock_def)
next
  case (got c r l s stk s')
  then show ?case using lock_inv_got[of r c l stk s'] by (auto simp: xchg_lock_def)
next
  case (rel c r l s)
  then show ?case using lock_inv_release[of r c l] by force
qed

definition lock_start :: "lock_run \<Rightarrow> bool" where
  "lock_start r \<longleftrightarrow> cpus_wf (mach r) \<and> (\<forall>c. held r c = [] \<and> spin r c = None) \<and>
     (\<forall>k \<in> set (cpus (mach r)). ncli k = 0) \<and> (\<forall>k \<in> set (locks (mach r)). locked k = 0)"

lemma lock_inv_start: "lock_start r \<Longrightarrow> lock_inv r"
  by (auto simp: lock_start_def lock_inv_def)

interpretation spinsys: transition_system lock_start lock_step lock_inv
  by unfold_locales (rule lock_inv_start lock_inv_step; assumption)+

section \<open>Properties\<close>

text \<open>
  C13. Spin locks exclude each other on every CPU and in every interleaving. In a state reached from
  boot by any sequence of \<open>acquire\<close> and \<open>release\<close> steps of all CPUs: no lock is held by two CPUs, a CPU
  that holds a lock runs with interrupts off, and a CPU that holds a lock can release it without a
  panic.
\<close>

theorem spinlock_mutual_exclusion:
  assumes "lock_start r0" "lock_step\<^sup>*\<^sup>* r0 r" "c < length (cpus (mach r))" "l \<in> set (held r c)"
  shows "(\<forall>d < length (cpus (mach r)). l \<in> set (held r d) \<longrightarrow> d = c) \<and>
    \<not> iflag (cpus (mach r) ! c) \<and>
    (spin r c = None \<longrightarrow> (\<exists>s. release c l (mach r) = Inr s))"
proof -
  have inv: "lock_inv r" using assms(1,2) by (rule spinsys.reachable_inv)
  note d = lock_invD[OF inv assms(3)]
  have "0 < length (held r c)" using assms(4) by (rule length_pos_if_in_set)
  then have "\<not> iflag (cpus (mach r) ! c)" using d(3,4) by auto
  moreover have "e = c" if "e < length (cpus (mach r))" "l \<in> set (held r e)" for e
    using lock_invD(6)[OF inv that] d(6)[OF assms(4)] by simp
  moreover have "spin r c = None \<Longrightarrow> \<exists>s. release c l (mach r) = Inr s"
    using lock_inv_release[OF inv assms(3) _ assms(4)] by blast
  ultimately show ?thesis by blast
qed

definition demo_smp :: smp where
  "demo_smp = \<lparr>cpus = [\<lparr>apicid = 0, ncli = 0, intena = False, iflag = True\<rparr>,
                       \<lparr>apicid = 1, ncli = 0, intena = False, iflag = True\<rparr>],
     locks = [\<lparr>locked = 0, lcpu = None, pcs = []\<rparr>]\<rparr>"

definition demo_lock_run :: lock_run where
  "demo_lock_run = \<lparr>mach = demo_smp, held = (\<lambda>_. []), spin = (\<lambda>_. None)\<rparr>"

theorem spinlock_mutual_exclusion_witness:
  "\<exists>r. lock_step\<^sup>*\<^sup>* demo_lock_run r \<and> held r 0 = [0] \<and> \<not> iflag (cpus (mach r) ! 0)"
proof -
  have st: "lock_start demo_lock_run"
    by (simp add: lock_start_def demo_lock_run_def demo_smp_def cpus_wf_def)
  obtain s1 where 1: "acquire_enter 0 0 demo_smp = Inr s1" and
    s1: "s1 = \<lparr>cpus = [\<lparr>apicid = 0, ncli = 1, intena = True, iflag = False\<rparr>,
                       \<lparr>apicid = 1, ncli = 0, intena = False, iflag = True\<rparr>],
               locks = [\<lparr>locked = 0, lcpu = None, pcs = []\<rparr>]\<rparr>"
    using lock_inv_enter(1)[OF lock_inv_start[OF st], of 0 0]
    by (simp add: demo_lock_run_def demo_smp_def upd_cpu_def)
  let ?r1 = "demo_lock_run\<lparr>mach := s1, spin := (spin demo_lock_run)(0 := Some 0)\<rparr>"
  have a: "lock_step demo_lock_run ?r1"
    using 1 by (intro lock_step.enter) (simp_all add: demo_lock_run_def demo_smp_def)
  let ?s2 = "upd_lock 0 (\<lambda>k. k\<lparr>locked := 1\<rparr>) s1"
  obtain s3 where 3: "acquire_got 0 0 [] ?s2 = Inr s3" and len: "length (cpus s3) = 2"
    by (auto simp: acquire_got_def s1 mycpu_def upd_lock_def)
  let ?r3 = "?r1\<lparr>mach := s3, held := (held ?r1)(0 := 0 # held ?r1 0), spin := (spin ?r1)(0 := None)\<rparr>"
  have b: "lock_step ?r1 ?r3"
    using 3 by (intro lock_step.got[where s = ?s2 and stk = "[]"]) (simp_all add: s1 xchg_lock_def)
  have r: "lock_step\<^sup>*\<^sup>* demo_lock_run ?r3" using a b by (simp add: converse_rtranclp_into_rtranclp)
  show ?thesis
    using spinlock_mutual_exclusion[OF st r, of 0 0] r len
    by (intro exI[of _ ?r3]) (simp add: demo_lock_run_def)
qed

end
