(* ===== verification/Vm_Frame.thy ===== *)
theory Vm_Frame
  imports Uvm
begin

text \<open>
  Frame lemmas without hypotheses: whatever a routine of \<open>kalloc.c\<close> or \<open>vm.c\<close> returns, it has changed
  nothing of the kernel state but memory and the free list. The components above keep their tables
  in extensions of the same record and use these facts to see that their tables are untouched.
\<close>

named_theorems frame \<open>what a call leaves unchanged\<close>

lemma kmem_same_of:
  assumes "kmem_same s s'" "\<And>m f. g (s\<lparr>memory := m, freelist := f\<rparr>) = g s"
  shows "g s' = g s"
  using arg_cong[OF assms(1)[unfolded kmem_same_def], of g] assms(2) by simp

text \<open>\<open>keeps st s r\<close>: if \<open>r\<close> is a result, its state part \<open>st\<close> differs from \<open>s\<close> in memory only.\<close>

definition keeps :: "('r \<Rightarrow> 'a kmem_scheme) \<Rightarrow> 'a kmem_scheme \<Rightarrow> fault + 'r \<Rightarrow> bool" where
  "keeps st s r \<longleftrightarrow> (\<forall>x. r = Inr x \<longrightarrow> kmem_same s (st x))"

lemma keepsD: "keeps st s r \<Longrightarrow> r = Inr x \<Longrightarrow> kmem_same s (st x)"
  by (simp add: keeps_def)

lemma keeps_Inl [frame]: "keeps st s (Inl e)"
  by (simp add: keeps_def)

lemma keeps_Inr [frame]: "kmem_same s (st x) \<Longrightarrow> keeps st s (Inr x)"
  by (simp add: keeps_def)

lemma keeps_if [frame]: "(b \<Longrightarrow> keeps st s x) \<Longrightarrow> (\<not> b \<Longrightarrow> keeps st s y) \<Longrightarrow> keeps st s (if b then x else y)"
  by simp

lemma keeps_bind:
  "keeps st s r \<Longrightarrow> (\<And>x. r = Inr x \<Longrightarrow> kmem_same s (st x) \<Longrightarrow> keeps st' s (f x)) \<Longrightarrow> keeps st' s (bind_res r f)"
  by (cases r) (auto simp: keeps_def)

lemma keeps_trans: "kmem_same s t \<Longrightarrow> keeps st t r \<Longrightarrow> keeps st s r"
  by (auto simp: keeps_def intro: kmem_same_trans)

lemma keeps_kfree [frame]: "kmem_same s t \<Longrightarrow> keeps id s (kfree v t)"
  by (auto simp: keeps_def intro: kmem_same_trans kmem_same_kfree)

lemma kalloc_same: "kmem_same s t \<Longrightarrow> kmem_same s (snd (kalloc t))"
  by (blast intro: kmem_same_trans kmem_same_kalloc)

lemma walkpgdir_same: "kmem_same s t \<Longrightarrow> kmem_same s (snd (walkpgdir pgdir va alloc t))"
  by (auto simp: walkpgdir_def Let_def case_prod_beta intro: kmem_same_memory kalloc_same)

lemma keeps_mappages_loop: "keeps snd s (mappages_loop pgdir a la pa perm s)"
proof (induction pgdir a la pa perm s rule: mappages_loop.induct)
  case (1 pgdir a la pa perm s)
  obtain pte t where w: "walkpgdir pgdir a True s = (pte, t)" by (cases "walkpgdir pgdir a True s")
  let ?t = "t\<lparr>memory := write32 (memory t) pte (pa OR perm OR PTE_P)\<rparr>"
  have st: "kmem_same s t" using walkpgdir_same[of s s pgdir a True] w by simp
  have st': "kmem_same s ?t" using st by (rule kmem_same_memory)
  show ?case
    unfolding mappages_loop.simps[of pgdir a] w prod.case Let_def
    using st st' by (intro keeps_if keeps_Inl keeps_Inr keeps_trans[OF st'] "1.IH"[OF w[symmetric] _ _ refl]) auto
qed

lemma keeps_mappages [frame]: "kmem_same s t \<Longrightarrow> keeps snd s (mappages pgdir va sz pa perm t)"
  unfolding mappages_def by (erule keeps_trans) (rule keeps_mappages_loop)

lemma keeps_deallocuvm_loop: "keeps id s (deallocuvm_loop pgdir a oldsz s)"
proof (induction "2 ^ 32 - unat a" arbitrary: a s rule: less_induct)
  case less
  obtain pte t where w: "walkpgdir pgdir a False s = (pte, t)" by (cases "walkpgdir pgdir a False s")
  have st: "kmem_same s t" using walkpgdir_same[of s s pgdir a False] w by simp
  have ih: "keeps id s (deallocuvm_loop pgdir b oldsz u)" if "kmem_same s u" "a < b" for u b
    using that unat_u32_less[of b]
    by (intro keeps_trans[OF that(1)] less.hyps) (auto simp: word_less_nat_alt)
  show ?case
    unfolding deallocuvm_loop.simps[of pgdir a] w prod.case Let_def
    using st by (intro keeps_if keeps_Inl keeps_Inr keeps_bind[where st = id] keeps_kfree ih)
      (auto intro: kmem_same_memory)
qed

lemma keeps_deallocuvm [frame]: "kmem_same s t \<Longrightarrow> keeps snd s (deallocuvm pgdir oldsz newsz t)"
  unfolding deallocuvm_def
  by (intro keeps_if keeps_Inr keeps_bind[where st = id] keeps_trans[OF _ keeps_deallocuvm_loop]) auto

lemma keeps_allocuvm_loop: "keeps snd s (allocuvm_loop pgdir a oldsz newsz s)"
proof (induction "2 ^ 32 - unat a" arbitrary: a s rule: less_induct)
  case less
  obtain v t where k: "kalloc s = (v, t)" by (cases "kalloc s")
  have st: "kmem_same s t" using kalloc_same[of s s] k by simp
  have ih: "keeps snd s (allocuvm_loop pgdir b oldsz newsz u)" if "kmem_same s u" "a < b" for u b
    using that unat_u32_less[of b]
    by (intro keeps_trans[OF that(1)] less.hyps) (auto simp: word_less_nat_alt)
  show ?case
    unfolding allocuvm_loop.simps[of pgdir a] k prod.case Let_def case_prod_beta
    using st by (intro keeps_if keeps_Inl keeps_Inr keeps_bind[where st = snd] keeps_bind[where st = id]
        keeps_deallocuvm keeps_mappages keeps_kfree ih) (auto intro: kmem_same_memory)
qed

lemma keeps_allocuvm [frame]: "kmem_same s t \<Longrightarrow> keeps snd s (allocuvm pgdir oldsz newsz t)"
  unfolding allocuvm_def by (intro keeps_if keeps_Inr keeps_trans[OF _ keeps_allocuvm_loop]) auto

lemma keeps_freevm_loop: "keeps id s (freevm_loop pgdir i s)"
proof (induction "1024 - i" arbitrary: i s)
  case 0
  then show ?case by (simp add: freevm_loop.simps[of pgdir i] keeps_def)
next
  case (Suc n)
  have ih: "keeps id s (freevm_loop pgdir (i + 1) t)" if "kmem_same s t" for t
    using Suc.hyps by (intro keeps_trans[OF that] Suc.hyps(1)) simp
  show ?case
    unfolding freevm_loop.simps[of pgdir i] Let_def
    by (intro keeps_if keeps_Inr keeps_bind[where st = id] keeps_kfree ih) auto
qed

lemma keeps_freevm [frame]: "kmem_same s t \<Longrightarrow> keeps id s (freevm pgdir t)"
  unfolding freevm_def case_prod_beta
  by (intro keeps_if keeps_Inl keeps_bind[where st = snd] keeps_bind[where st = id] keeps_deallocuvm
      keeps_kfree keeps_trans[OF _ keeps_freevm_loop]) auto

lemma keeps_setupkvm_loop: "keeps snd s (setupkvm_loop pgdir ks s)"
proof (induction ks arbitrary: s)
  case (Cons k ks)
  have ih: "keeps snd s (setupkvm_loop pgdir ks t)" if "kmem_same s t" for t
    by (rule keeps_trans[OF that Cons.IH])
  show ?case
    unfolding setupkvm_loop.simps case_prod_beta
    by (intro keeps_if keeps_Inr keeps_bind[where st = snd] keeps_bind[where st = id] keeps_freevm
        keeps_mappages ih) auto
qed (simp add: keeps_def)

lemma keeps_setupkvm [frame]: "kmem_same s t \<Longrightarrow> keeps snd s (setupkvm t)"
  unfolding setupkvm_def case_prod_beta Let_def
  by (intro keeps_if keeps_Inr keeps_Inl keeps_trans[OF _ keeps_setupkvm_loop])
    (auto intro: kmem_same_memory kalloc_same)

lemma keeps_copyuvm_loop: "keeps snd s (copyuvm_loop pgdir d i sz s)"
proof (induction "2 ^ 32 - unat i" arbitrary: i s rule: less_induct)
  case less
  obtain pte t where w: "walkpgdir pgdir i False s = (pte, t)" by (cases "walkpgdir pgdir i False s")
  have st: "kmem_same s t" using walkpgdir_same[of s s pgdir i False] w by simp
  have ih: "keeps snd s (copyuvm_loop pgdir d j sz x)" if "kmem_same s x" "i < j" for x j
    using that unat_u32_less[of j]
    by (intro keeps_trans[OF that(1)] less.hyps) (auto simp: word_less_nat_alt)
  show ?case
    unfolding copyuvm_loop.simps[of pgdir d i] w prod.case Let_def case_prod_beta
    using st by (intro keeps_if keeps_Inl keeps_Inr keeps_bind[where st = snd] keeps_bind[where st = id]
        keeps_freevm keeps_mappages keeps_kfree ih) (auto intro: kmem_same_memory kalloc_same)
qed

lemma keeps_copyuvm [frame]: "kmem_same s t \<Longrightarrow> keeps snd s (copyuvm pgdir sz t)"
  unfolding copyuvm_def case_prod_beta
  by (intro keeps_if keeps_Inr keeps_bind[where st = snd] keeps_setupkvm
      keeps_trans[OF _ keeps_copyuvm_loop]) auto

end
