(* ===== verification/Filetab.thy ===== *)
theory Filetab
  imports Vm_Frame
begin

text \<open>
  Open files and cached inodes as tables of reference-counted slots (\<open>file.h\<close>, the table part of
  \<open>file.c\<close>, \<open>idup\<close> of \<open>fs.c\<close>). A pointer to a slot is its index. The contract of such a table is the
  locale \<open>ref_table\<close>: allocation returns a free slot with one reference, duplication adds one, and
  no other slot changes.
\<close>

section \<open>Structures\<close>

record sleeplock =
  slocked :: u32
  spid :: u32

record inode =
  idev :: u32
  inum :: u32
  iref :: u32
  ilk :: sleeplock
  ivalid :: u32
  itype :: u16
  imajor :: u16
  iminor :: u16
  inlink :: u16
  isize :: u32
  iaddrs :: "u32 list"

datatype fdtype = FD_NONE | FD_PIPE | FD_INODE

record cfile =
  ftype :: fdtype
  fref :: u32
  freadable :: u8
  fwritable :: u8
  fpipe :: "nat option"
  fip :: "nat option"
  foff :: u32

text \<open>\<open>NFILE\<close> is 100 and \<open>NINODE\<close> is 50.\<close>

record files = vm +
  ftable :: "cfile list"
  icache :: "inode list"

section \<open>Operations\<close>

definition filealloc :: "'a files_scheme \<Rightarrow> nat option \<times> 'a files_scheme" where
  "filealloc s =
     (case find_idx (\<lambda>f. fref f = 0) (ftable s) of
        None \<Rightarrow> (None, s)
      | Some i \<Rightarrow> (Some i, s\<lparr>ftable := (ftable s)[i := (ftable s ! i)\<lparr>fref := 1\<rparr>]\<rparr>))"

definition filedup :: "nat \<Rightarrow> 'a files_scheme \<Rightarrow> fault + nat \<times> 'a files_scheme" where
  "filedup f s =
     (if f \<ge> length (ftable s) then Inl (Bad_Access ''filedup'')
      else if sint (fref (ftable s ! f)) < 1 then Inl (Panic ''filedup'')
      else Inr (f, s\<lparr>ftable := (ftable s)[f := (ftable s ! f)\<lparr>fref := fref (ftable s ! f) + 1\<rparr>]\<rparr>))"

definition idup :: "nat \<Rightarrow> 'a files_scheme \<Rightarrow> fault + nat \<times> 'a files_scheme" where
  "idup ip s =
     (if ip \<ge> length (icache s) then Inl (Bad_Access ''idup'')
      else Inr (ip, s\<lparr>icache := (icache s)[ip := (icache s ! ip)\<lparr>iref := iref (icache s ! ip) + 1\<rparr>]\<rparr>))"

section \<open>The contract of a reference-counted table\<close>

text \<open>\<open>refs s i\<close> is the count of slot \<open>i\<close>; \<open>dup\<close> may be called on slots in use only.\<close>

locale ref_table =
  fixes alloc :: "'s \<Rightarrow> nat option \<times> 's"
    and dup :: "nat \<Rightarrow> 's \<Rightarrow> fault + nat \<times> 's"
    and refs :: "'s \<Rightarrow> nat \<Rightarrow> nat"
    and slots :: "'s \<Rightarrow> nat"
  assumes alloc_slot: "alloc s = (Some i, s') \<Longrightarrow>
      i < slots s \<and> refs s i = 0 \<and> refs s' = (refs s)(i := 1) \<and> slots s' = slots s"
    and alloc_full: "alloc s = (None, s') \<Longrightarrow> s' = s \<and> (\<forall>i < slots s. refs s i \<noteq> 0)"
    and dup_slot: "i < slots s \<Longrightarrow> 0 < refs s i \<Longrightarrow> refs s i < 2 ^ 31 - 1 \<Longrightarrow>
      \<exists>s'. dup i s = Inr (i, s') \<and> refs s' = (refs s)(i := refs s i + 1) \<and> slots s' = slots s"
begin

text \<open>A free slot is found whenever there is one.\<close>

lemma alloc_finds:
  assumes "i < slots s" "refs s i = 0"
  shows "\<exists>j s'. alloc s = (Some j, s') \<and> refs s j = 0 \<and> refs s' j = 1"
  using alloc_full[of s] alloc_slot[of s] assms by (cases "alloc s"; cases "fst (alloc s)") fastforce+

text \<open>Slots in use keep their owner: an allocation never returns one of them.\<close>

lemma alloc_keeps:
  assumes "alloc s = (Some j, s')" "0 < refs s i"
  shows "i \<noteq> j \<and> refs s' i = refs s i"
  using alloc_slot[OF assms(1)] assms(2) by auto

lemma alloc_dup:
  assumes "alloc s = (Some i, s')"
  shows "\<exists>s''. dup i s' = Inr (i, s'') \<and> refs s'' = (refs s)(i := 2)"
  using alloc_slot[OF assms] dup_slot[of i s'] by force

end

definition file_refs :: "'a files_scheme \<Rightarrow> nat \<Rightarrow> nat" where
  "file_refs s i = (if i < length (ftable s) then unat (fref (ftable s ! i)) else 0)"

definition file_slots :: "'a files_scheme \<Rightarrow> nat" where
  "file_slots s = length (ftable s)"

lemma filealloc_slot: "filealloc s = (Some i, s') \<Longrightarrow>
   i < file_slots s \<and> file_refs s i = 0 \<and> file_refs s' = (file_refs s)(i := 1) \<and> file_slots s' = file_slots s"
  by (auto simp: filealloc_def file_refs_def file_slots_def fun_eq_iff split: option.splits dest: find_idx_SomeD)

lemma filealloc_full: "filealloc s = (None, s') \<Longrightarrow> s' = s \<and> (\<forall>i < file_slots s. file_refs s i \<noteq> 0)"
  by (auto simp: filealloc_def file_refs_def file_slots_def find_idx_None_iff unat_eq_0 split: option.splits)

lemma filedup_slot:
  assumes "i < file_slots s" "0 < file_refs s i" "file_refs s i < 2 ^ 31 - 1"
  shows "\<exists>s'. filedup i s = Inr (i, s') \<and> file_refs s' = (file_refs s)(i := file_refs s i + 1) \<and>
    file_slots s' = file_slots s"
proof -
  let ?r = "fref (ftable s ! i)"
  have i: "i < length (ftable s)" "0 < unat ?r" "unat ?r < 2 ^ 31 - 1"
    using assms by (auto simp: file_slots_def file_refs_def)
  have "sint ?r = int (unat ?r)" using i(3) by (intro sint_small) simp
  then have "\<not> sint ?r < 1" using i(2) by linarith
  moreover have "unat (?r + 1) = unat ?r + 1" using i(3) by (simp add: unat_word_ariths)
  ultimately show ?thesis
    using i by (auto simp: filedup_def file_refs_def file_slots_def fun_eq_iff)
qed

interpretation ft: ref_table "filealloc :: 'a files_scheme \<Rightarrow> _" filedup file_refs file_slots
  by unfold_locales (rule filealloc_slot filealloc_full filedup_slot; assumption)+

section \<open>Properties\<close>

text \<open>
  The open-file table hands out only free slots. When a slot is free, \<open>filealloc\<close> finds one and
  gives it one reference; \<open>filedup\<close> adds a reference to it; the counts of all other slots stay the
  same, so no open file is ever handed out again.
\<close>

theorem filealloc_filedup:
  assumes "i < length (ftable s)" "fref (ftable s ! i) = 0"
  shows "\<exists>j s' s''. filealloc s = (Some j, s') \<and> filedup j s' = Inr (j, s'') \<and>
    file_refs s j = 0 \<and> file_refs s'' = (file_refs s)(j := 2)"
proof -
  obtain j s' where j: "filealloc s = (Some j, s')" "file_refs s j = 0"
    using ft.alloc_finds[of i s] assms by (auto simp: file_slots_def file_refs_def)
  then show ?thesis using ft.alloc_dup[OF j(1)] by blast
qed

definition demo_files :: files where
  "demo_files = \<lparr>memory = \<lambda>_. 0, use_lock = True, freelist = 0, kend = 0x80110000, kdata = 0x80109000,
     kpgdir = 0, cr3 = 0, ts_ss0 = 0, ts_esp0 = 0, ts_iomb = 0,
     ftable = replicate 100 \<lparr>ftype = FD_NONE, fref = 0, freadable = 0, fwritable = 0,
       fpipe = None, fip = None, foff = 0\<rparr>, icache = []\<rparr>"

theorem filealloc_filedup_witness:
  "\<exists>j s' s''. filealloc demo_files = (Some j, s') \<and> filedup j s' = Inr (j, s'') \<and> file_refs s'' j = 2"
  using filealloc_filedup[of 0 demo_files] by (auto simp: demo_files_def)

end
