(* ===== verification/Proc.thy ===== *)
theory Proc
  imports Filetab
begin

text \<open>
  Processes (\<open>proc.h\<close>, \<open>proc.c\<close>): the process table, allocation of a process, \<open>fork\<close> and \<open>fork2\<close>,
  \<open>exit\<close>, \<open>wait\<close>, \<open>sleep\<close> and \<open>wakeup\<close>, \<open>kill\<close>, the scheduler's choice and switch, and the
  accounting of run time. A pointer to a process is its index in the table, \<open>myproc()\<close> is the
  argument \<open>me\<close>, and a critical section under \<open>ptable.lock\<close> is one step. A call that sleeps returns
  \<open>Blocked\<close> with the state it leaves behind; when the process runs again it goes on from there.
\<close>

section \<open>Structures\<close>

datatype procstate = UNUSED | EMBRYO | SLEEPING | RUNNABLE | RUNNING | ZOMBIE

text \<open>A wait channel is the address of a kernel object; the model names the objects in use as one.\<close>

datatype chan = Proc_chan nat | Ticks_chan | Mutex_chan nat | Queue_chan nat | Pipe_nread nat
  | Pipe_nwrite nat | Input_chan | Sleeplock_chan nat | Buf_chan nat | Log_chan

record proc =
  sz :: u32
  pgdir :: u32
  kstack :: u32
  pstate :: procstate
  pid :: u32
  parent :: "nat option"
  tf :: u32
  pcontext :: u32
  chan :: "chan option"
  killed :: u32
  ofile :: "nat option list"
  cwd :: "nat option"
  pname :: "u8 list"
  priority :: u32
  ctime :: u32
  etime :: u32
  rtime :: u32

text \<open>
  \<open>cpu_proc\<close> is the field \<open>proc\<close> of each CPU. \<open>sym_trapret\<close> and \<open>sym_forkret\<close> are the addresses of
  the two entry points. \<open>tick_pending\<close> holds between the increment of \<open>ticks\<close> and the call of
  \<open>update_rtime\<close> in the timer interrupt.
\<close>

record kernel = files +
  ptable :: "proc list"
  initproc :: "nat option"
  nextpid :: u32
  ticks :: u32
  tick_pending :: bool
  cpu_proc :: "nat option list"
  sym_trapret :: u32
  sym_forkret :: u32

definition upd_proc :: "nat \<Rightarrow> (proc \<Rightarrow> proc) \<Rightarrow> 'a kernel_scheme \<Rightarrow> 'a kernel_scheme" where
  "upd_proc i f s = s\<lparr>ptable := (ptable s)[i := f (ptable s ! i)]\<rparr>"

datatype 'r outcome = Done 'r | Blocked

section \<open>Creating processes\<close>

text \<open>
  The stack of a new process, from the top: the trap frame (76 bytes), the return address \<open>trapret\<close>,
  and the context (20 bytes) whose \<open>eip\<close> is \<open>forkret\<close>.
\<close>

definition allocproc :: "'a kernel_scheme \<Rightarrow> nat option \<times> 'a kernel_scheme" where
  "allocproc s =
     (case find_idx (\<lambda>p. pstate p = UNUSED) (ptable s) of
        None \<Rightarrow> (None, s)
      | Some i \<Rightarrow>
        let s = upd_proc i (\<lambda>p. p\<lparr>pstate := EMBRYO, pid := nextpid s, priority := 60,
                  ctime := ticks s, rtime := 0, etime := 0\<rparr>) (s\<lparr>nextpid := nextpid s + 1\<rparr>)
        in case kalloc s of (stk, s) \<Rightarrow>
          let s = upd_proc i (\<lambda>p. p\<lparr>kstack := stk\<rparr>) s
          in if stk = 0 then (None, upd_proc i (\<lambda>p. p\<lparr>pstate := UNUSED\<rparr>) s)
          else let sp = stk + 4096 - 76;
                   s = upd_proc i (\<lambda>p. p\<lparr>tf := sp\<rparr>) s;
                   s = s\<lparr>memory := write32 (memory s) (sp - 4) (sym_trapret s)\<rparr>;
                   ctx = sp - 4 - 20;
                   s = upd_proc i (\<lambda>p. p\<lparr>pcontext := ctx\<rparr>) s;
                   s = s\<lparr>memory := memset (memory s) ctx 0 20\<rparr>;
                   s = s\<lparr>memory := write32 (memory s) (ctx + 16) (sym_forkret s)\<rparr>
               in (Some i, s))"

definition growproc :: "u32 \<Rightarrow> nat \<Rightarrow> 'a kernel_scheme \<Rightarrow> fault + u32 \<times> 'a kernel_scheme" where
  "growproc n me s =
     (let p = ptable s ! me;
          finish = (\<lambda>(v, s). bind_res
            (switchuvm (Some (kstack p, pgdir p)) (upd_proc me (\<lambda>p. p\<lparr>sz := v\<rparr>) s))
            (\<lambda>s. Inr (0, s)))
      in if sint n > 0
      then bind_res (allocuvm (pgdir p) (sz p) (sz p + n) s)
             (\<lambda>(v, s). if v = 0 then Inr (- 1, s) else finish (v, s))
      else if sint n < 0
      then bind_res (deallocuvm (pgdir p) (sz p) (sz p + n) s)
             (\<lambda>(v, s). if v = 0 then Inr (- 1, s) else finish (v, s))
      else finish (sz p, s))"

text \<open>The loop of \<open>fork\<close> over the \<open>NOFILE\<close> = 16 descriptors.\<close>

function fork_files :: "nat \<Rightarrow> nat \<Rightarrow> nat \<Rightarrow> 'a kernel_scheme \<Rightarrow> fault + 'a kernel_scheme" where
  "fork_files me np i s =
     (if i < 16
      then case ofile (ptable s ! me) ! i of
          None \<Rightarrow> fork_files me np (i + 1) s
        | Some f \<Rightarrow> bind_res (filedup f s) (\<lambda>(f, s).
            fork_files me np (i + 1) (upd_proc np (\<lambda>p. p\<lparr>ofile := (ofile p)[i := Some f]\<rparr>) s))
      else Inr s)"
  by pat_completeness auto
termination by (relation "measure (\<lambda>(me, np, i, s). 16 - i)") auto

declare fork_files.simps [simp del]

definition fork_copy :: "nat \<Rightarrow> nat \<Rightarrow> 'a kernel_scheme \<Rightarrow> fault + 'a kernel_scheme" where
  "fork_copy me np s =
     (let c = ptable s ! me;
          s = upd_proc np (\<lambda>p. p\<lparr>sz := sz c, parent := Some me\<rparr>) s;
          child_tf = tf (ptable s ! np);
          s = s\<lparr>memory := blit (memory s) child_tf (tf c) 76\<rparr>;
          s = s\<lparr>memory := write32 (memory s) (child_tf + 28) 0\<rparr>
      in bind_res (fork_files me np 0 s) (\<lambda>s.
         case cwd (ptable s ! me) of
           None \<Rightarrow> Inl (Bad_Access ''idup'')
         | Some d \<Rightarrow> bind_res (idup d s) (\<lambda>(d, s).
             bind_res (safestrcpy (pname (ptable s ! np)) (pname (ptable s ! me)) 16) (\<lambda>nm.
             Inr (upd_proc np (\<lambda>p. p\<lparr>cwd := Some d, pname := nm\<rparr>) s)))))"

definition fork :: "nat \<Rightarrow> 'a kernel_scheme \<Rightarrow> fault + u32 \<times> 'a kernel_scheme" where
  "fork me s =
     (case allocproc s of
        (None, s) \<Rightarrow> Inr (- 1, s)
      | (Some np, s) \<Rightarrow>
        bind_res (copyuvm (pgdir (ptable s ! me)) (sz (ptable s ! me)) s) (\<lambda>(d, s).
        let s = upd_proc np (\<lambda>p. p\<lparr>pgdir := d\<rparr>) s
        in if d = 0
        then bind_res (kfree (kstack (ptable s ! np)) s) (\<lambda>s.
             Inr (- 1, upd_proc np (\<lambda>p. p\<lparr>kstack := 0, pstate := UNUSED\<rparr>) s))
        else bind_res (fork_copy me np s) (\<lambda>s.
             let r = pid (ptable s ! np)
             in Inr (r, upd_proc np (\<lambda>p. p\<lparr>pstate := RUNNABLE\<rparr>) s))))"

definition fork2 :: "u32 \<Rightarrow> nat \<Rightarrow> 'a kernel_scheme \<Rightarrow> fault + u32 \<times> 'a kernel_scheme" where
  "fork2 prio me s =
     (if sint prio < 0 \<or> sint prio > 100 then Inr (- 1, s)
      else case allocproc s of
        (None, s) \<Rightarrow> Inr (- 1, s)
      | (Some np, s) \<Rightarrow>
        bind_res (copyuvm (pgdir (ptable s ! me)) (sz (ptable s ! me)) s) (\<lambda>(d, s).
        let s = upd_proc np (\<lambda>p. p\<lparr>pgdir := d\<rparr>) s
        in if d = 0
        then bind_res (kfree (kstack (ptable s ! np)) s) (\<lambda>s.
             Inr (- 1, upd_proc np (\<lambda>p. p\<lparr>kstack := 0, pstate := UNUSED\<rparr>) s))
        else bind_res (fork_copy me np s) (\<lambda>s.
             let s = upd_proc np (\<lambda>p. p\<lparr>priority := prio\<rparr>) s;
                 r = pid (ptable s ! np)
             in Inr (r, upd_proc np (\<lambda>p. p\<lparr>pstate := RUNNABLE\<rparr>) s))))"

section \<open>Sleeping and waking\<close>

definition wakeup1 :: "chan option \<Rightarrow> 'a kernel_scheme \<Rightarrow> 'a kernel_scheme" where
  "wakeup1 ch s =
     s\<lparr>ptable := map (\<lambda>p. if pstate p = SLEEPING \<and> chan p = ch then p\<lparr>pstate := RUNNABLE\<rparr> else p) (ptable s)\<rparr>"

definition wakeup :: "chan \<Rightarrow> 'a kernel_scheme \<Rightarrow> 'a kernel_scheme" where
  "wakeup ch s = wakeup1 (Some ch) s"

text \<open>
  \<open>sched\<close> leaves the CPU to the scheduler, which resumes after its \<open>swtch\<close>: kernel page table, no
  current process. Its tests of the lock and of the interrupt flag are the business of the spin locks.
\<close>

definition scheduler_back :: "nat \<Rightarrow> 'a kernel_scheme \<Rightarrow> 'a kernel_scheme" where
  "scheduler_back c s = (switchkvm s)\<lparr>cpu_proc := (cpu_proc s)[c := None]\<rparr>"

definition sched :: "nat \<Rightarrow> nat \<Rightarrow> 'a kernel_scheme \<Rightarrow> fault + 'a kernel_scheme" where
  "sched c me s =
     (if pstate (ptable s ! me) = RUNNING then Inl (Panic ''sched running'')
      else Inr (scheduler_back c s))"

definition yield :: "nat \<Rightarrow> nat \<Rightarrow> 'a kernel_scheme \<Rightarrow> fault + 'a kernel_scheme" where
  "yield c me s = sched c me (upd_proc me (\<lambda>p. p\<lparr>pstate := RUNNABLE\<rparr>) s)"

definition sleep :: "nat \<Rightarrow> nat \<Rightarrow> chan \<Rightarrow> 'a kernel_scheme \<Rightarrow> fault + 'a kernel_scheme" where
  "sleep c me ch s = sched c me (upd_proc me (\<lambda>p. p\<lparr>chan := Some ch, pstate := SLEEPING\<rparr>) s)"

definition sleep_resume :: "nat \<Rightarrow> 'a kernel_scheme \<Rightarrow> 'a kernel_scheme" where
  "sleep_resume me s = upd_proc me (\<lambda>p. p\<lparr>chan := None\<rparr>) s"

definition scheduler_pick :: "nat \<Rightarrow> 'a kernel_scheme \<Rightarrow> nat option" where
  "scheduler_pick from s =
     map_option (\<lambda>i. from + i) (find_idx (\<lambda>p. pstate p = RUNNABLE) (drop from (ptable s)))"

definition scheduler_switch :: "nat \<Rightarrow> nat \<Rightarrow> 'a kernel_scheme \<Rightarrow> fault + 'a kernel_scheme" where
  "scheduler_switch c i s =
     bind_res (switchuvm (Some (kstack (ptable s ! i), pgdir (ptable s ! i)))
         (s\<lparr>cpu_proc := (cpu_proc s)[c := Some i]\<rparr>))
       (\<lambda>s. Inr (upd_proc i (\<lambda>p. p\<lparr>pstate := RUNNING\<rparr>) s))"

section \<open>Ending processes\<close>

definition kill :: "u32 \<Rightarrow> 'a kernel_scheme \<Rightarrow> u32 \<times> 'a kernel_scheme" where
  "kill x s =
     (case find_idx (\<lambda>p. pid p = x) (ptable s) of
        None \<Rightarrow> (- 1, s)
      | Some i \<Rightarrow> (0, upd_proc i (\<lambda>p.
          let p = p\<lparr>killed := 1\<rparr>
          in if pstate p = SLEEPING then p\<lparr>pstate := RUNNABLE\<rparr> else p) s))"

function exit_reparent :: "nat \<Rightarrow> nat \<Rightarrow> 'a kernel_scheme \<Rightarrow> 'a kernel_scheme" where
  "exit_reparent me i s =
     (if i < length (ptable s)
      then if parent (ptable s ! i) = Some me
        then let s = upd_proc i (\<lambda>p. p\<lparr>parent := initproc s\<rparr>) s;
                 s = (if pstate (ptable s ! i) = ZOMBIE
                      then wakeup1 (map_option Proc_chan (initproc s)) s else s)
             in exit_reparent me (i + 1) s
        else exit_reparent me (i + 1) s
      else s)"
  by pat_completeness auto
termination
  by (relation "measure (\<lambda>(me, i, s). length (ptable s) - i)") (auto simp: upd_proc_def wakeup1_def)

declare exit_reparent.simps [simp del]

text \<open>The part of \<open>exit\<close> under \<open>ptable.lock\<close>, after the files and the directory are closed.\<close>

definition exit_locked :: "nat \<Rightarrow> nat \<Rightarrow> 'a kernel_scheme \<Rightarrow> fault + 'a kernel_scheme" where
  "exit_locked c me s =
     (let s = wakeup1 (map_option Proc_chan (parent (ptable s ! me))) s;
          s = exit_reparent me 0 s;
          s = upd_proc me (\<lambda>p. p\<lparr>etime := ticks s, pstate := ZOMBIE\<rparr>) s
      in sched c me s)"

text \<open>
  One pass of \<open>wait\<close> over the table: \<open>Inl pid\<close> when a zombie child was reaped, otherwise whether the
  caller has children.
\<close>

function wait_scan ::
  "nat \<Rightarrow> nat \<Rightarrow> bool \<Rightarrow> 'a kernel_scheme \<Rightarrow> fault + (u32 + bool) \<times> 'a kernel_scheme" where
  "wait_scan me i havekids s =
     (if i < length (ptable s)
      then let p = ptable s ! i
        in if parent p \<noteq> Some me then wait_scan me (i + 1) havekids s
        else if pstate p = ZOMBIE
        then bind_res (kfree (kstack p) s) (\<lambda>s.
             bind_res (freevm (pgdir p) (upd_proc i (\<lambda>p. p\<lparr>kstack := 0\<rparr>) s)) (\<lambda>s.
             Inr (Inl (pid p), upd_proc i (\<lambda>p. p\<lparr>pid := 0, parent := None, pname := (pname p)[0 := 0],
                                 killed := 0, pstate := UNUSED\<rparr>) s)))
        else wait_scan me (i + 1) True s
      else Inr (Inr havekids, s))"
  by pat_completeness auto
termination by (relation "measure (\<lambda>(me, i, h, s). length (ptable s) - i)") auto

declare wait_scan.simps [simp del]

definition wait :: "nat \<Rightarrow> nat \<Rightarrow> 'a kernel_scheme \<Rightarrow> fault + u32 outcome \<times> 'a kernel_scheme" where
  "wait c me s =
     bind_res (wait_scan me 0 False s) (\<lambda>(r, s).
       case r of
         Inl x \<Rightarrow> Inr (Done x, s)
       | Inr havekids \<Rightarrow>
           if \<not> havekids \<or> killed (ptable s ! me) \<noteq> 0 then Inr (Done (- 1), s)
           else bind_res (sleep c me (Proc_chan me) s) (\<lambda>s. Inr (Blocked, s)))"

section \<open>Accounting\<close>

definition tick :: "'a kernel_scheme \<Rightarrow> 'a kernel_scheme" where
  "tick s = (wakeup Ticks_chan (s\<lparr>ticks := ticks s + 1\<rparr>))\<lparr>tick_pending := True\<rparr>"

definition update_rtime :: "'a kernel_scheme \<Rightarrow> 'a kernel_scheme" where
  "update_rtime s =
     s\<lparr>ptable := map (\<lambda>p. if pstate p = RUNNING then p\<lparr>rtime := rtime p + 1\<rparr> else p) (ptable s),
       tick_pending := False\<rparr>"

end
