(* ===== verification/Proc_Inv.thy ===== *)
theory Proc_Inv
  imports Proc
begin

text \<open>
  The process table as a state machine. \<open>kstep\<close> interleaves the calls of \<open>proc.c\<close> made on all CPUs;
  \<open>proc_inv\<close> holds in every reachable state: a process runs on at most one CPU and is \<open>RUNNING\<close> exactly
  while it does, live processes have different pids, every parent is alive and not a zombie, and the
  run time charged to a process exceeds its lifetime by at most one tick.
\<close>

section \<open>The table after an update\<close>

lemma upd_proc_simps [simp]:
  "ptable (upd_proc i f s) = (ptable s)[i := f (ptable s ! i)]"
  "cpu_proc (upd_proc i f s) = cpu_proc s" "nextpid (upd_proc i f s) = nextpid s"
  "ticks (upd_proc i f s) = ticks s" "tick_pending (upd_proc i f s) = tick_pending s"
  "initproc (upd_proc i f s) = initproc s" "memory (upd_proc i f s) = memory s"
  "ftable (upd_proc i f s) = ftable s" "icache (upd_proc i f s) = icache s"
  by (simp_all add: upd_proc_def)

definition ktab_same :: "'a kernel_scheme \<Rightarrow> 'a kernel_scheme \<Rightarrow> bool" where
  "ktab_same s s' \<longleftrightarrow> ptable s' = ptable s \<and> cpu_proc s' = cpu_proc s \<and> nextpid s' = nextpid s \<and>
     ticks s' = ticks s \<and> tick_pending s' = tick_pending s \<and> initproc s' = initproc s"

lemma ktab_same_refl [simp]: "ktab_same s s"
  by (simp add: ktab_same_def)

lemma kmem_same_ktab: "kmem_same s s' \<Longrightarrow> ktab_same s s'"
  unfolding ktab_same_def by (intro conjI; erule kmem_same_of; simp)

lemma switchuvm_ktab: "switchuvm p s = Inr s' \<Longrightarrow> ktab_same s s'"
  by (auto simp: switchuvm_def ktab_same_def split: option.splits if_splits)

lemma filedup_ktab: "filedup f s = Inr (g, s') \<Longrightarrow> ktab_same s s'"
  by (auto simp: filedup_def ktab_same_def split: if_splits)

lemma idup_ktab: "idup d s = Inr (g, s') \<Longrightarrow> ktab_same s s'"
  by (auto simp: idup_def ktab_same_def split: if_splits)

lemmas ktab_sameD = ktab_same_def[THEN iffD1]

section \<open>Effects on the table\<close>

text \<open>The fields the invariant speaks about, apart from the state.\<close>

definition fixed_fields :: "proc \<Rightarrow> proc \<Rightarrow> bool" where
  "fixed_fields p q \<longleftrightarrow> pid q = pid p \<and> ctime q = ctime p \<and> rtime q = rtime p"

text \<open>Sleepers may have been woken, nothing else of interest has changed.\<close>

definition wake_only :: "'a kernel_scheme \<Rightarrow> 'a kernel_scheme \<Rightarrow> bool" where
  "wake_only s s' \<longleftrightarrow>
     length (ptable s') = length (ptable s) \<and> cpu_proc s' = cpu_proc s \<and> nextpid s' = nextpid s \<and>
     ticks s' = ticks s \<and> tick_pending s' = tick_pending s \<and> initproc s' = initproc s \<and>
     (\<forall>i < length (ptable s). let p = ptable s ! i; q = ptable s' ! i in
        fixed_fields p q \<and> parent q = parent p \<and> etime q = etime p \<and>
        (pstate q = pstate p \<or> pstate p = SLEEPING \<and> pstate q = RUNNABLE))"

text \<open>Process \<open>me\<close> gives up CPU \<open>c\<close> and is left in state \<open>x\<close>.\<close>

definition leaves :: "nat \<Rightarrow> nat \<Rightarrow> procstate \<Rightarrow> 'a kernel_scheme \<Rightarrow> 'a kernel_scheme \<Rightarrow> bool" where
  "leaves c me x s s' \<longleftrightarrow>
     cpu_proc s' = (cpu_proc s)[c := None] \<and> nextpid s' = nextpid s \<and>
     ticks s' = ticks s \<and> tick_pending s' = tick_pending s \<and> initproc s' = initproc s \<and>
     (\<exists>q. ptable s' = (ptable s)[me := q] \<and> fixed_fields (ptable s ! me) q \<and>
        parent q = parent (ptable s ! me) \<and> pstate q = x \<and> (x = ZOMBIE \<longrightarrow> etime q = ticks s))"

text \<open>A slot that was free is initialised: with state \<open>RUNNABLE\<close> for a child of \<open>me\<close>, or left free.\<close>

definition created :: "nat \<Rightarrow> nat \<Rightarrow> procstate \<Rightarrow> 'a kernel_scheme \<Rightarrow> 'a kernel_scheme \<Rightarrow> bool" where
  "created me i x s s' \<longleftrightarrow>
     i < length (ptable s) \<and> pstate (ptable s ! i) = UNUSED \<and>
     cpu_proc s' = cpu_proc s \<and> nextpid s' = nextpid s + 1 \<and>
     ticks s' = ticks s \<and> tick_pending s' = tick_pending s \<and> initproc s' = initproc s \<and>
     (\<exists>q. ptable s' = (ptable s)[i := q] \<and> pid q = nextpid s \<and> pstate q = x \<and>
        ctime q = ticks s \<and> rtime q = 0 \<and> killed q = killed (ptable s ! i) \<and>
        parent q = (if x = UNUSED then parent (ptable s ! i) else Some me))"

lemma wake_only_refl [simp]: "wake_only s s"
  by (simp add: wake_only_def fixed_fields_def)

lemma wake_only_ktab: "ktab_same s s' \<Longrightarrow> wake_only s s'"
  by (auto simp: ktab_same_def wake_only_def fixed_fields_def)

lemma wake_only_wakeup1: "wake_only s (wakeup1 ch s)"
  by (simp add: wake_only_def wakeup1_def fixed_fields_def Let_def)

lemma wake_only_kill: "kill x s = (r, s') \<Longrightarrow> wake_only s s'"
  by (auto simp: kill_def wake_only_def fixed_fields_def Let_def nth_upd
      split: option.splits if_splits dest: find_idx_SomeD)

lemma wake_only_resume: "wake_only s (sleep_resume me s)"
  by (auto simp: sleep_resume_def wake_only_def fixed_fields_def Let_def nth_upd)

lemma wake_only_growproc:
  assumes "growproc n me s = Inr (r, s')"
  shows "wake_only s s'"
proof -
  have fin: "wake_only s s'" if "ktab_same s t"
    "switchuvm x (upd_proc me (\<lambda>p. p\<lparr>sz := v\<rparr>) t) = Inr s'" for t v x
    using that(1) switchuvm_ktab[OF that(2)]
    by (auto simp: wake_only_def ktab_same_def fixed_fields_def Let_def nth_upd)
  have grow: "\<And>r. allocuvm a b d s = r \<Longrightarrow> keeps snd s r" "\<And>r. deallocuvm a b d s = r \<Longrightarrow> keeps snd s r" for a b d
    using keeps_allocuvm[of s s a b d] keeps_deallocuvm[of s s a b d] by auto
  obtain t v where "kmem_same s t" "s' = t \<or>
      switchuvm (Some (kstack (ptable s ! me), pgdir (ptable s ! me))) (upd_proc me (\<lambda>p. p\<lparr>sz := v\<rparr>) t) = Inr s'"
    using assms
    by (auto simp: growproc_def bind_res_Inr_iff Let_def keeps_def split: if_splits dest!: grow)
      (blast intro: kmem_same_refl)+
  then show ?thesis using fin kmem_same_ktab wake_only_ktab by blast
qed

lemma leaves_sched:
  assumes "sched c me (upd_proc me f s) = Inr s'" "me < length (ptable s)"
    "fixed_fields (ptable s ! me) (f (ptable s ! me))" "parent (f (ptable s ! me)) = parent (ptable s ! me)"
    "pstate (f (ptable s ! me)) = ZOMBIE \<longrightarrow> etime (f (ptable s ! me)) = ticks s"
  shows "leaves c me (pstate (f (ptable s ! me))) s s'"
  using assms by (auto simp: sched_def scheduler_back_def switchkvm_def leaves_def split: if_splits)

lemma leaves_yield: "yield c me s = Inr s' \<Longrightarrow> me < length (ptable s) \<Longrightarrow> leaves c me RUNNABLE s s'"
  unfolding yield_def by (drule leaves_sched) (auto simp: fixed_fields_def)

lemma leaves_sleep: "sleep c me ch s = Inr s' \<Longrightarrow> me < length (ptable s) \<Longrightarrow> leaves c me SLEEPING s s'"
  unfolding sleep_def by (drule leaves_sched) (auto simp: fixed_fields_def)

subsection \<open>\<open>allocproc\<close> and \<open>fork\<close>\<close>

text \<open>Like \<open>created\<close>, between \<open>allocproc\<close> and the end of \<open>fork\<close>.\<close>

definition embryo :: "nat \<Rightarrow> 'a kernel_scheme \<Rightarrow> 'a kernel_scheme \<Rightarrow> proc \<Rightarrow> bool" where
  "embryo i s s' q \<longleftrightarrow>
     i < length (ptable s) \<and> pstate (ptable s ! i) = UNUSED \<and>
     cpu_proc s' = cpu_proc s \<and> nextpid s' = nextpid s + 1 \<and>
     ticks s' = ticks s \<and> tick_pending s' = tick_pending s \<and> initproc s' = initproc s \<and>
     ptable s' = (ptable s)[i := q] \<and> pid q = nextpid s \<and>
     ctime q = ticks s \<and> rtime q = 0 \<and> killed q = killed (ptable s ! i)"

lemma embryo_ktab: "embryo i s t q \<Longrightarrow> ktab_same t u \<Longrightarrow> embryo i s u q"
  by (simp add: embryo_def ktab_same_def)

lemma embryo_memory: "embryo i s t q \<Longrightarrow> embryo i s (t\<lparr>memory := m\<rparr>) q"
  by (simp add: embryo_def)

lemma embryo_upd:
  assumes "embryo i s t q" "pid (f q) = pid q" "ctime (f q) = ctime q" "rtime (f q) = rtime q"
    "killed (f q) = killed q"
  shows "embryo i s (upd_proc i f t) (f q)"
  using assms by (simp add: embryo_def)

lemma embryo_nth: "embryo i s t q \<Longrightarrow> ptable t ! i = q"
  by (simp add: embryo_def)

lemma embryo_created:
  "embryo i s t q \<Longrightarrow> pstate q = x \<Longrightarrow> parent q = (if x = UNUSED then parent (ptable s ! i) else Some me) \<Longrightarrow>
   created me i x s t"
  by (auto simp: embryo_def created_def)

lemma allocproc_cases:
  obtains (full) "allocproc s = (None, s)"
  | (nostack) i t q where "allocproc s = (None, t)" "embryo i s t q" "pstate q = UNUSED"
      "parent q = parent (ptable s ! i)"
  | (slot) i t q where "allocproc s = (Some i, t)" "embryo i s t q" "pstate q = EMBRYO"
      "parent q = parent (ptable s ! i)" "find_idx (\<lambda>p. pstate p = UNUSED) (ptable s) = Some i"
      "kstack q \<noteq> 0"
proof (cases "find_idx (\<lambda>p. pstate p = UNUSED) (ptable s)")
  case None
  then show ?thesis using full by (simp add: allocproc_def)
next
  case (Some i)
  let ?f = "\<lambda>p. p\<lparr>pstate := EMBRYO, pid := nextpid s, priority := 60, ctime := ticks s, rtime := 0, etime := 0\<rparr>"
  let ?s1 = "upd_proc i ?f (s\<lparr>nextpid := nextpid s + 1\<rparr>)"
  obtain stk t where k: "kalloc ?s1 = (stk, t)" by (cases "kalloc ?s1")
  have i: "i < length (ptable s)" "pstate (ptable s ! i) = UNUSED" using find_idx_SomeD[OF Some] by auto
  have "embryo i s ?s1 (?f (ptable s ! i))" using i by (simp add: embryo_def)
  moreover have "ktab_same ?s1 t" using kalloc_same[of ?s1 ?s1] k kmem_same_ktab[of ?s1 t] by simp
  ultimately have e: "embryo i s t (?f (ptable s ! i))" by (rule embryo_ktab)
  let ?t1 = "upd_proc i (\<lambda>p. p\<lparr>kstack := stk\<rparr>) t"
  have e1: "embryo i s ?t1 ((?f (ptable s ! i))\<lparr>kstack := stk\<rparr>)" by (rule embryo_upd[OF e]) simp_all
  show ?thesis
  proof (cases "stk = 0")
    case True
    have "embryo i s (upd_proc i (\<lambda>p. p\<lparr>pstate := UNUSED\<rparr>) ?t1)
        ((?f (ptable s ! i))\<lparr>kstack := stk, pstate := UNUSED\<rparr>)"
      by (rule embryo_upd[OF e1]) simp_all
    then show ?thesis
      using nostack[of _ i] Some k True by (simp add: allocproc_def Let_def)
  next
    case False
    let ?sp = "stk + 4096 - 76"
    let ?q = "(?f (ptable s ! i))\<lparr>kstack := stk, tf := ?sp, pcontext := ?sp - 4 - 20\<rparr>"
    obtain u where u: "allocproc s = (Some i, u)" "embryo i s u ?q"
    proof
      let ?t2 = "upd_proc i (\<lambda>p. p\<lparr>tf := ?sp\<rparr>) ?t1"
      let ?t3 = "?t2\<lparr>memory := write32 (memory ?t2) (?sp - 4) (sym_trapret ?t2)\<rparr>"
      let ?t4 = "upd_proc i (\<lambda>p. p\<lparr>pcontext := ?sp - 4 - 20\<rparr>) ?t3"
      let ?t5 = "?t4\<lparr>memory := memset (memory ?t4) (?sp - 4 - 20) 0 20\<rparr>"
      let ?t6 = "?t5\<lparr>memory := write32 (memory ?t5) (?sp - 4 - 20 + 16) (sym_forkret ?t5)\<rparr>"
      show "allocproc s = (Some i, ?t6)"
        using Some k False unfolding allocproc_def option.case Let_def by simp
      have "embryo i s ?t2 ((?f (ptable s ! i))\<lparr>kstack := stk, tf := ?sp\<rparr>)"
        by (rule embryo_upd[OF e1]) simp_all
      then have "embryo i s ?t3 ((?f (ptable s ! i))\<lparr>kstack := stk, tf := ?sp\<rparr>)" by (rule embryo_memory)
      then have "embryo i s ?t4 ?q" by (drule_tac f = "\<lambda>p. p\<lparr>pcontext := ?sp - 4 - 20\<rparr>" in embryo_upd) simp_all
      then show "embryo i s ?t6 ?q" by (intro embryo_memory)
    qed
    then show ?thesis using slot[OF u] Some False by simp
  qed
qed

lemma fork_files_embryo:
  "fork_files me np i t = Inr t' \<Longrightarrow> embryo np s t q \<Longrightarrow> \<exists>l. embryo np s t' (q\<lparr>ofile := l\<rparr>)"
proof (induction "16 - i" arbitrary: i t q)
  case 0
  then have "t' = t" by (simp add: fork_files.simps[of me np i])
  moreover have "q\<lparr>ofile := ofile q\<rparr> = q" by simp
  ultimately show ?case using 0 by metis
next
  case (Suc n)
  have i: "i < 16" "n = 16 - (i + 1)" using Suc.hyps(2) by auto
  show ?case
  proof (cases "ofile (ptable t ! me) ! i")
    case None
    then have "fork_files me np (i + 1) t = Inr t'" using Suc.prems(1) i by (simp add: fork_files.simps[of me np i])
    then show ?thesis using Suc.hyps(1)[OF i(2) _ Suc.prems(2)] by blast
  next
    case (Some f)
    then obtain g u where g: "filedup f t = Inr (g, u)"
      "fork_files me np (i + 1) (upd_proc np (\<lambda>p. p\<lparr>ofile := (ofile p)[i := Some g]\<rparr>) u) = Inr t'"
      using Suc.prems(1) i by (auto simp: fork_files.simps[of me np i] bind_res_Inr_iff)
    have e: "embryo np s u q" using Suc.prems(2) filedup_ktab[OF g(1)] by (rule embryo_ktab)
    have "embryo np s (upd_proc np (\<lambda>p. p\<lparr>ofile := (ofile p)[i := Some g]\<rparr>) u) (q\<lparr>ofile := (ofile q)[i := Some g]\<rparr>)"
      by (rule embryo_upd[OF e]) simp_all
    from Suc.hyps(1)[OF i(2) g(2) this] show ?thesis by auto
  qed
qed

lemma fork_copy_embryo:
  assumes "fork_copy me np t = Inr t'" "embryo np s t q"
  shows "\<exists>q'. embryo np s t' q' \<and> parent q' = Some me \<and> sz q' = sz (ptable t ! me) \<and>
    pstate q' = pstate q \<and> pgdir q' = pgdir q"
proof -
  let ?c = "ptable t ! me"
  let ?t1 = "upd_proc np (\<lambda>p. p\<lparr>sz := sz ?c, parent := Some me\<rparr>) t"
  let ?m2 = "blit (memory ?t1) (tf (ptable ?t1 ! np)) (tf ?c) 76"
  let ?t3 = "?t1\<lparr>memory := write32 ?m2 (tf (ptable ?t1 ! np) + 28) 0\<rparr>"
  obtain u d v nm where u: "fork_files me np 0 ?t3 = Inr u" "idup d u = Inr v"
    "t' = upd_proc np (\<lambda>p. p\<lparr>cwd := Some (fst v), pname := nm\<rparr>) (snd v)"
    using assms(1)
    by (auto simp: fork_copy_def Let_def bind_res_Inr_iff split: option.splits)
  have "embryo np s ?t1 (q\<lparr>sz := sz ?c, parent := Some me\<rparr>)" by (rule embryo_upd[OF assms(2)]) simp_all
  then have "embryo np s ?t3 (q\<lparr>sz := sz ?c, parent := Some me\<rparr>)" by (rule embryo_memory)
  from fork_files_embryo[OF u(1) this] obtain l where
    "embryo np s u (q\<lparr>sz := sz ?c, parent := Some me, ofile := l\<rparr>)" by auto
  moreover have "ktab_same u (snd v)" using u(2) idup_ktab by (cases v) auto
  ultimately have e: "embryo np s (snd v) (q\<lparr>sz := sz ?c, parent := Some me, ofile := l\<rparr>)" by (rule embryo_ktab)
  have "embryo np s t' (q\<lparr>sz := sz ?c, parent := Some me, ofile := l, cwd := Some (fst v), pname := nm\<rparr>)"
    unfolding u(3) by (rule embryo_upd[OF e]) simp_all
  then show ?thesis by (intro exI conjI) (assumption | simp)+
qed

text \<open>The common tail of \<open>fork\<close> and \<open>fork2\<close>, with the fields \<open>g\<close> sets at the end.\<close>

definition fork_tail ::
  "(proc \<Rightarrow> proc) \<Rightarrow> nat \<Rightarrow> nat \<Rightarrow> 'a kernel_scheme \<Rightarrow> fault + u32 \<times> 'a kernel_scheme" where
  "fork_tail g me np s =
     bind_res (copyuvm (pgdir (ptable s ! me)) (sz (ptable s ! me)) s) (\<lambda>(d, s).
     let s = upd_proc np (\<lambda>p. p\<lparr>pgdir := d\<rparr>) s
     in if d = 0
     then bind_res (kfree (kstack (ptable s ! np)) s) (\<lambda>s.
          Inr (- 1, upd_proc np (\<lambda>p. p\<lparr>kstack := 0, pstate := UNUSED\<rparr>) s))
     else bind_res (fork_copy me np s) (\<lambda>s.
          let s = upd_proc np g s; r = pid (ptable s ! np)
          in Inr (r, upd_proc np (\<lambda>p. p\<lparr>pstate := RUNNABLE\<rparr>) s)))"

lemma upd_proc_id: "upd_proc i id s = s"
  by (simp add: upd_proc_def)

lemma fork_alt:
  "fork me s = (case allocproc s of (None, s) \<Rightarrow> Inr (- 1, s) | (Some np, s) \<Rightarrow> fork_tail id me np s)"
  unfolding fork_def fork_tail_def Let_def upd_proc_id by simp

lemma fork2_alt:
  "fork2 x me s = (if sint x < 0 \<or> sint x > 100 then Inr (- 1, s)
     else case allocproc s of (None, s) \<Rightarrow> Inr (- 1, s)
     | (Some np, s) \<Rightarrow> fork_tail (\<lambda>p. p\<lparr>priority := x\<rparr>) me np s)"
  by (simp add: fork2_def fork_tail_def split: option.splits prod.splits)

lemma fork_tail_created:
  assumes r: "fork_tail g me np t = Inr (r, s')" and e: "embryo np s t q"
    and p: "parent q = parent (ptable s ! np)"
    and g: "\<And>p. pid (g p) = pid p \<and> ctime (g p) = ctime p \<and> rtime (g p) = rtime p \<and>
      killed (g p) = killed p \<and> parent (g p) = parent p"
  shows "(r = - 1 \<and> created me np UNUSED s s') \<or> (r = nextpid s \<and> created me np RUNNABLE s s')"
proof -
  obtain d u where u: "copyuvm (pgdir (ptable t ! me)) (sz (ptable t ! me)) t = Inr (d, u)"
    using r by (auto simp: fork_tail_def bind_res_Inr_iff)
  have "kmem_same t u" using keepsD[OF keeps_copyuvm[OF kmem_same_refl] u] by simp
  then have eu: "embryo np s u q" using embryo_ktab[OF e] kmem_same_ktab by blast
  let ?u1 = "upd_proc np (\<lambda>p. p\<lparr>pgdir := d\<rparr>) u"
  have e1: "embryo np s ?u1 (q\<lparr>pgdir := d\<rparr>)" by (rule embryo_upd[OF eu]) simp_all
  show ?thesis
  proof (cases "d = 0")
    case True
    then obtain v where v: "kfree (kstack (ptable ?u1 ! np)) ?u1 = Inr v" "r = - 1"
      "s' = upd_proc np (\<lambda>p. p\<lparr>kstack := 0, pstate := UNUSED\<rparr>) v"
      using r u by (auto simp: fork_tail_def bind_res_Inr_iff Let_def)
    have "ktab_same ?u1 v" using kmem_same_kfree[OF v(1)] by (rule kmem_same_ktab)
    then have "embryo np s v (q\<lparr>pgdir := d\<rparr>)" by (rule embryo_ktab[OF e1])
    then have "embryo np s s' (q\<lparr>pgdir := d, kstack := 0, pstate := UNUSED\<rparr>)"
      unfolding v(3) by (rule embryo_upd) simp_all
    then show ?thesis using v(2) p by (auto intro!: embryo_created)
  next
    case False
    then obtain v where v: "fork_copy me np ?u1 = Inr v"
      "r = pid (ptable (upd_proc np g v) ! np)"
      "s' = upd_proc np (\<lambda>p. p\<lparr>pstate := RUNNABLE\<rparr>) (upd_proc np g v)"
      using r u by (auto simp: fork_tail_def bind_res_Inr_iff Let_def)
    obtain q' where q': "embryo np s v q'" "parent q' = Some me"
      using fork_copy_embryo[OF v(1) e1] by blast
    have e2: "embryo np s (upd_proc np g v) (g q')" by (rule embryo_upd[OF q'(1)]) (simp_all add: g)
    have "embryo np s s' ((g q')\<lparr>pstate := RUNNABLE\<rparr>)" unfolding v(3) by (rule embryo_upd[OF e2]) simp_all
    then have "created me np RUNNABLE s s'" by (rule embryo_created) (simp_all add: g q'(2))
    moreover have "r = nextpid s" using v(2) embryo_nth[OF e2] e2 by (simp add: embryo_def)
    ultimately show ?thesis by blast
  qed
qed

lemma fork_effect:
  assumes "fork me s = Inr (r, s')"
  shows "(r = - 1 \<and> (s' = s \<or> (\<exists>i. created me i UNUSED s s'))) \<or>
    (r = nextpid s \<and> (\<exists>i. find_idx (\<lambda>p. pstate p = UNUSED) (ptable s) = Some i \<and> created me i RUNNABLE s s'))"
proof (cases rule: allocproc_cases[of s])
  case (nostack i t q)
  then show ?thesis using assms embryo_created[OF nostack(2,3), of me] by (auto simp: fork_alt)
next
  case (slot i t q)
  then have "fork_tail id me i t = Inr (r, s')" using assms by (simp add: fork_alt)
  from fork_tail_created[OF this slot(2,4)] show ?thesis using slot(5) by auto
qed (use assms in \<open>simp add: fork_alt\<close>)

lemma fork2_effect:
  assumes "fork2 x me s = Inr (r, s')"
  shows "(r = - 1 \<and> (s' = s \<or> (\<exists>i. created me i UNUSED s s'))) \<or>
    (r = nextpid s \<and> (\<exists>i. find_idx (\<lambda>p. pstate p = UNUSED) (ptable s) = Some i \<and> created me i RUNNABLE s s'))"
proof (cases rule: allocproc_cases[of s])
  case (nostack i t q)
  then show ?thesis using assms embryo_created[OF nostack(2,3), of me] by (auto simp: fork2_alt split: if_splits)
next
  case (slot i t q)
  show ?thesis
  proof (cases "sint x < 0 \<or> sint x > 100")
    case False
    then have "fork_tail (\<lambda>p. p\<lparr>priority := x\<rparr>) me i t = Inr (r, s')" using assms slot by (simp add: fork2_alt)
    from fork_tail_created[OF this slot(2,4)] show ?thesis using slot(5) by auto
  qed (use assms in \<open>simp add: fork2_alt\<close>)
qed (use assms in \<open>auto simp: fork2_alt split: if_splits\<close>)

subsection \<open>\<open>exit\<close> and \<open>wait\<close>\<close>

text \<open>From slot \<open>n\<close> on, the children of \<open>me\<close> belong to \<open>init\<close>; sleepers may have been woken.\<close>

definition reparented :: "nat \<Rightarrow> nat \<Rightarrow> 'a kernel_scheme \<Rightarrow> 'a kernel_scheme \<Rightarrow> bool" where
  "reparented me n s s' \<longleftrightarrow>
     length (ptable s') = length (ptable s) \<and> cpu_proc s' = cpu_proc s \<and> nextpid s' = nextpid s \<and>
     ticks s' = ticks s \<and> tick_pending s' = tick_pending s \<and> initproc s' = initproc s \<and>
     (\<forall>i < length (ptable s). let p = ptable s ! i; q = ptable s' ! i in
        fixed_fields p q \<and> etime q = etime p \<and>
        parent q = (if n \<le> i \<and> parent p = Some me then initproc s else parent p) \<and>
        (pstate q = pstate p \<or> pstate p = SLEEPING \<and> pstate q = RUNNABLE))"

lemma exit_reparent_effect: "initproc s \<noteq> Some me \<Longrightarrow> reparented me n s (exit_reparent me n s)"
proof (induction "length (ptable s) - n" arbitrary: n s)
  case 0
  then show ?case by (auto simp: exit_reparent.simps[of me n] reparented_def fixed_fields_def)
next
  case (Suc k)
  have n: "n < length (ptable s)" using Suc.hyps(2) by simp
  show ?case
  proof (cases "parent (ptable s ! n) = Some me")
    case False
    have "reparented me (n + 1) s (exit_reparent me (n + 1) s)" using Suc by simp
    then show ?thesis
      using n False by (auto simp: exit_reparent.simps[of me n] reparented_def Let_def Suc_le_eq le_less)
  next
    case True
    let ?s1 = "upd_proc n (\<lambda>p. p\<lparr>parent := initproc s\<rparr>) s"
    let ?s2 = "if pstate (ptable ?s1 ! n) = ZOMBIE then wakeup1 (map_option Proc_chan (initproc ?s1)) ?s1 else ?s1"
    have eq: "exit_reparent me n s = exit_reparent me (n + 1) ?s2"
      using n True by (simp add: exit_reparent.simps[of me n] Let_def)
    have w: "wake_only ?s1 ?s2" using wake_only_wakeup1[of ?s1] by simp
    then have l: "length (ptable ?s2) = length (ptable s)" "initproc ?s2 = initproc s" by (auto simp: wake_only_def)
    have ih: "reparented me (n + 1) ?s2 (exit_reparent me (n + 1) ?s2)"
      using Suc.hyps(2) Suc.prems l by (intro Suc.hyps(1)) auto
    have w': "fixed_fields (ptable s ! i) (ptable ?s2 ! i) \<and> etime (ptable ?s2 ! i) = etime (ptable s ! i) \<and>
        parent (ptable ?s2 ! i) = (if i = n then initproc s else parent (ptable s ! i)) \<and>
        (pstate (ptable ?s2 ! i) = pstate (ptable s ! i) \<or>
          pstate (ptable s ! i) = SLEEPING \<and> pstate (ptable ?s2 ! i) = RUNNABLE)"
      if "i < length (ptable s)" for i
      using w that n unfolding wake_only_def Let_def
      by (auto simp: fixed_fields_def nth_upd dest!: spec[of _ i])
    let ?s3 = "exit_reparent me (n + 1) ?s2"
    have "fixed_fields (ptable s ! i) (ptable ?s3 ! i) \<and> etime (ptable ?s3 ! i) = etime (ptable s ! i) \<and>
        parent (ptable ?s3 ! i) = (if n \<le> i \<and> parent (ptable s ! i) = Some me then initproc s else parent (ptable s ! i)) \<and>
        (pstate (ptable ?s3 ! i) = pstate (ptable s ! i) \<or>
          pstate (ptable s ! i) = SLEEPING \<and> pstate (ptable ?s3 ! i) = RUNNABLE)"
      if i: "i < length (ptable s)" for i
    proof -
      have 3: "fixed_fields (ptable ?s2 ! i) (ptable ?s3 ! i) \<and> etime (ptable ?s3 ! i) = etime (ptable ?s2 ! i) \<and>
          parent (ptable ?s3 ! i) = (if n + 1 \<le> i \<and> parent (ptable ?s2 ! i) = Some me then initproc s else parent (ptable ?s2 ! i)) \<and>
          (pstate (ptable ?s3 ! i) = pstate (ptable ?s2 ! i) \<or>
            pstate (ptable ?s2 ! i) = SLEEPING \<and> pstate (ptable ?s3 ! i) = RUNNABLE)"
        using ih i l unfolding reparented_def Let_def by metis
      have "parent (ptable ?s3 ! i) = (if n \<le> i \<and> parent (ptable s ! i) = Some me then initproc s else parent (ptable s ! i))"
        using 3 w'[OF i] True Suc.prems by (cases "i = n") auto
      then show ?thesis using 3 w'[OF i] unfolding fixed_fields_def by metis
    qed
    moreover have "length (ptable ?s3) = length (ptable s)" "cpu_proc ?s3 = cpu_proc s" "nextpid ?s3 = nextpid s"
      "ticks ?s3 = ticks s" "tick_pending ?s3 = tick_pending s" "initproc ?s3 = initproc s"
      using ih w l unfolding reparented_def wake_only_def by simp_all
    ultimately show ?thesis unfolding eq reparented_def Let_def by blast
  qed
qed

lemma exit_locked_effect:
  assumes "exit_locked c me s = Inr s'" "me < length (ptable s)" "initproc s \<noteq> Some me"
  obtains t u where "wake_only s t" "reparented me 0 t u" "leaves c me ZOMBIE u s'"
proof -
  let ?t = "wakeup1 (map_option Proc_chan (parent (ptable s ! me))) s"
  let ?u = "exit_reparent me 0 ?t"
  have t: "wake_only s ?t" by (rule wake_only_wakeup1)
  then have l: "length (ptable ?t) = length (ptable s)" "initproc ?t = initproc s" by (auto simp: wake_only_def)
  then have u: "reparented me 0 ?t ?u" using assms(3) by (intro exit_reparent_effect) simp
  have "sched c me (upd_proc me (\<lambda>p. p\<lparr>etime := ticks ?u, pstate := ZOMBIE\<rparr>) ?u) = Inr s'"
    using assms(1) by (simp add: exit_locked_def Let_def)
  from leaves_sched[OF this] have "leaves c me ZOMBIE ?u s'"
    using assms(2) u l by (simp add: fixed_fields_def reparented_def)
  then show ?thesis using that t u by blast
qed

definition reaped :: "nat \<Rightarrow> 'a kernel_scheme \<Rightarrow> 'a kernel_scheme \<Rightarrow> bool" where
  "reaped i s s' \<longleftrightarrow>
     i < length (ptable s) \<and> pstate (ptable s ! i) = ZOMBIE \<and>
     cpu_proc s' = cpu_proc s \<and> nextpid s' = nextpid s \<and>
     ticks s' = ticks s \<and> tick_pending s' = tick_pending s \<and> initproc s' = initproc s \<and>
     (\<exists>q. ptable s' = (ptable s)[i := q] \<and> pstate q = UNUSED \<and> parent q = None \<and> pid q = 0 \<and> killed q = 0)"

lemma wait_scan_effect:
  "wait_scan me n h s = Inr (r, s') \<Longrightarrow>
   (case r of
      Inl x \<Rightarrow> \<exists>i. n \<le> i \<and> parent (ptable s ! i) = Some me \<and> x = pid (ptable s ! i) \<and> reaped i s s'
    | Inr h' \<Rightarrow> s' = s \<and> (h' \<longleftrightarrow> h \<or> (\<exists>i < length (ptable s). n \<le> i \<and> parent (ptable s ! i) = Some me)) \<and>
        (\<forall>i < length (ptable s). n \<le> i \<longrightarrow> parent (ptable s ! i) = Some me \<longrightarrow> pstate (ptable s ! i) \<noteq> ZOMBIE))"
proof (induction "length (ptable s) - n" arbitrary: n h)
  case 0
  then show ?case by (auto simp: wait_scan.simps[of me n])
next
  case (Suc k)
  have n: "n < length (ptable s)" using Suc.hyps(2) by simp
  have k: "k = length (ptable s) - (n + 1)" using Suc.hyps(2) by simp
  have le: "n \<le> i \<longleftrightarrow> i = n \<or> n + 1 \<le> i" for i by auto
  consider (other) "parent (ptable s ! n) \<noteq> Some me" | (zombie) "parent (ptable s ! n) = Some me" "pstate (ptable s ! n) = ZOMBIE"
    | (alive) "parent (ptable s ! n) = Some me" "pstate (ptable s ! n) \<noteq> ZOMBIE" by blast
  then show ?case
  proof cases
    case other
    then have "wait_scan me (n + 1) h s = Inr (r, s')" using Suc.prems n by (simp add: wait_scan.simps[of me n])
    from Suc.hyps(1)[OF k this] show ?thesis
      unfolding le using other n by (auto split: sum.splits)
  next
    case alive
    then have "wait_scan me (n + 1) True s = Inr (r, s')" using Suc.prems n by (simp add: wait_scan.simps[of me n])
    from Suc.hyps(1)[OF k this] show ?thesis
      unfolding le using alive n by (auto split: sum.splits)
  next
    case zombie
    let ?p = "ptable s ! n"
    obtain t u where tu: "kfree (kstack ?p) s = Inr t"
      "freevm (pgdir ?p) (upd_proc n (\<lambda>p. p\<lparr>kstack := 0\<rparr>) t) = Inr u"
      "r = Inl (pid ?p)" "s' = upd_proc n (\<lambda>p. p\<lparr>pid := 0, parent := None, pname := (pname p)[0 := 0],
         killed := 0, pstate := UNUSED\<rparr>) u"
      using Suc.prems n zombie by (auto simp: wait_scan.simps[of me n] bind_res_Inr_iff Let_def)
    have "ktab_same s t" using kmem_same_kfree[OF tu(1)] by (rule kmem_same_ktab)
    moreover have "ktab_same (upd_proc n (\<lambda>p. p\<lparr>kstack := 0\<rparr>) t) u"
      using keepsD[OF keeps_freevm[OF kmem_same_refl] tu(2)] by (simp add: kmem_same_ktab)
    ultimately have "reaped n s s'"
      unfolding reaped_def tu(4) using n zombie(2) by (auto simp: ktab_same_def)
    then show ?thesis using tu(3) zombie n by auto
  qed
qed

lemma wait_effect:
  assumes "wait c me s = Inr (r, s')" "me < length (ptable s)"
  obtains (reap) i where "reaped i s s'" "parent (ptable s ! i) = Some me" "r = Done (pid (ptable s ! i))"
  | (none) "s' = s" "r = Done (- 1)"
      "(\<forall>i < length (ptable s). parent (ptable s ! i) \<noteq> Some me) \<or> killed (ptable s ! me) \<noteq> 0"
  | (blocked) "leaves c me SLEEPING s s'" "r = Blocked"
      "\<forall>i < length (ptable s). parent (ptable s ! i) = Some me \<longrightarrow> pstate (ptable s ! i) \<noteq> ZOMBIE"
proof -
  obtain w t where w: "wait_scan me 0 False s = Inr (w, t)"
    using assms(1) by (auto simp: wait_def bind_res_Inr_iff)
  note e = wait_scan_effect[OF w]
  show ?thesis
  proof (cases w)
    case (Inl x)
    then show ?thesis using e reap assms(1) w by (auto simp: wait_def)
  next
    case (Inr h)
    then have t: "t = s" using e by simp
    show ?thesis
    proof (cases "\<not> h \<or> killed (ptable s ! me) \<noteq> 0")
      case True
      then show ?thesis using e Inr none assms(1) w t by (auto simp: wait_def)
    next
      case False
      then obtain u where "sleep c me (Proc_chan me) s = Inr u" "s' = u" "r = Blocked"
        using assms(1) w t Inr by (auto simp: wait_def bind_res_Inr_iff)
      then show ?thesis using blocked leaves_sleep[of c me _ s u] assms(2) e Inr by auto
    qed
  qed
qed

end
