(* ===== verification/Proc_Sys.thy ===== *)
theory Proc_Sys
  imports Proc_Inv
begin

text \<open>
  The invariant of the process table and its preservation by every step of \<open>proc.c\<close>, on all CPUs and
  in every order.
\<close>

section \<open>The invariant\<close>

definition live :: "procstate \<Rightarrow> bool" where
  "live x \<longleftrightarrow> x = SLEEPING \<or> x = RUNNABLE \<or> x = RUNNING"

text \<open>A process is \<open>RUNNING\<close> exactly while one CPU, and only one, runs it.\<close>

definition cpu_inv :: "'a kernel_scheme \<Rightarrow> bool" where
  "cpu_inv s \<longleftrightarrow>
     (\<forall>c < length (cpu_proc s). \<forall>i. cpu_proc s ! c = Some i \<longrightarrow>
        i < length (ptable s) \<and> pstate (ptable s ! i) = RUNNING) \<and>
     (\<forall>i < length (ptable s). pstate (ptable s ! i) = RUNNING \<longrightarrow>
        (\<exists>c < length (cpu_proc s). cpu_proc s ! c = Some i)) \<and>
     (\<forall>c < length (cpu_proc s). \<forall>d < length (cpu_proc s). \<forall>i.
        cpu_proc s ! c = Some i \<longrightarrow> cpu_proc s ! d = Some i \<longrightarrow> c = d)"

text \<open>Processes in use have different positive pids below \<open>nextpid\<close>.\<close>

definition pid_inv :: "'a kernel_scheme \<Rightarrow> bool" where
  "pid_inv s \<longleftrightarrow>
     0 < unat (nextpid s) \<and> unat (nextpid s) < 2 ^ 31 \<and>
     (\<forall>i < length (ptable s). pstate (ptable s ! i) \<noteq> UNUSED \<longrightarrow>
        0 < unat (pid (ptable s ! i)) \<and> unat (pid (ptable s ! i)) < unat (nextpid s)) \<and>
     (\<forall>i < length (ptable s). \<forall>j < length (ptable s).
        pstate (ptable s ! i) \<noteq> UNUSED \<longrightarrow> pstate (ptable s ! j) \<noteq> UNUSED \<longrightarrow>
        pid (ptable s ! i) = pid (ptable s ! j) \<longrightarrow> i = j)"

text \<open>Every parent is a live process: a zombie is always reaped by somebody.\<close>

definition parent_inv :: "'a kernel_scheme \<Rightarrow> bool" where
  "parent_inv s \<longleftrightarrow>
     (\<exists>k < length (ptable s). initproc s = Some k \<and> live (pstate (ptable s ! k))) \<and>
     (\<forall>i < length (ptable s). pstate (ptable s ! i) = UNUSED \<longrightarrow> parent (ptable s ! i) = None) \<and>
     (\<forall>i < length (ptable s). \<forall>j. parent (ptable s ! i) = Some j \<longrightarrow>
        j < length (ptable s) \<and> live (pstate (ptable s ! j)))"

text \<open>Run time against lifetime, in whole ticks.\<close>

definition time_ok :: "u32 \<Rightarrow> bool \<Rightarrow> proc \<Rightarrow> bool" where
  "time_ok now pending p \<longleftrightarrow>
     (if pstate p = UNUSED then True
      else if pstate p = ZOMBIE
      then unat (rtime p) + unat (ctime p) \<le> unat (etime p) + 1
      else unat (rtime p) + unat (ctime p) \<le> unat now + (if pending then 0 else 1))"

definition time_inv :: "'a kernel_scheme \<Rightarrow> bool" where
  "time_inv s \<longleftrightarrow>
     unat (ticks s) < 2 ^ 31 \<and> (\<forall>i < length (ptable s). time_ok (ticks s) (tick_pending s) (ptable s ! i))"

definition proc_inv :: "'a kernel_scheme \<Rightarrow> bool" where
  "proc_inv s \<longleftrightarrow> length (ptable s) = 64 \<and> cpu_inv s \<and> pid_inv s \<and> parent_inv s \<and> time_inv s"

section \<open>Steps\<close>

definition on_cpu :: "nat \<Rightarrow> nat \<Rightarrow> 'a kernel_scheme \<Rightarrow> bool" where
  "on_cpu c me s \<longleftrightarrow> c < length (cpu_proc s) \<and> cpu_proc s ! c = Some me"

text \<open>
  Bounds on \<open>nextpid\<close> and \<open>ticks\<close> (both count up for ever in the source) keep them from wrapping
  around: the claims hold for the first \<open>2^31 - 1\<close> processes and ticks. \<open>other\<close> stands for every
  kernel action that does not touch these fields.
\<close>

definition quiet :: "'a kernel_scheme \<Rightarrow> 'a kernel_scheme \<Rightarrow> bool" where
  "quiet s s' \<longleftrightarrow>
     length (ptable s') = length (ptable s) \<and> cpu_proc s' = cpu_proc s \<and> nextpid s' = nextpid s \<and>
     ticks s' = ticks s \<and> tick_pending s' = tick_pending s \<and> initproc s' = initproc s \<and>
     (\<forall>i < length (ptable s). let p = ptable s ! i; q = ptable s' ! i in
        fixed_fields p q \<and> parent q = parent p \<and> etime q = etime p \<and> pstate q = pstate p)"

inductive kstep :: "'a kernel_scheme \<Rightarrow> 'a kernel_scheme \<Rightarrow> bool" where
  run: "c < length (cpu_proc s) \<Longrightarrow> cpu_proc s ! c = None \<Longrightarrow> scheduler_pick k s = Some i \<Longrightarrow>
    scheduler_switch c i s = Inr s' \<Longrightarrow> kstep s s'"
| yields: "on_cpu c me s \<Longrightarrow> yield c me s = Inr s' \<Longrightarrow> kstep s s'"
| sleeps: "on_cpu c me s \<Longrightarrow> sleep c me ch s = Inr s' \<Longrightarrow> kstep s s'"
| resumes: "on_cpu c me s \<Longrightarrow> kstep s (sleep_resume me s)"
| wakes: "kstep s (wakeup ch s)"
| kills: "kill x s = (r, s') \<Longrightarrow> kstep s s'"
| forks: "on_cpu c me s \<Longrightarrow> unat (nextpid s) < 2 ^ 31 - 1 \<Longrightarrow> fork me s = Inr (r, s') \<Longrightarrow> kstep s s'"
| forks2: "on_cpu c me s \<Longrightarrow> unat (nextpid s) < 2 ^ 31 - 1 \<Longrightarrow> fork2 x me s = Inr (r, s') \<Longrightarrow> kstep s s'"
| exits: "on_cpu c me s \<Longrightarrow> initproc s \<noteq> Some me \<Longrightarrow> exit_locked c me s = Inr s' \<Longrightarrow> kstep s s'"
| waits: "on_cpu c me s \<Longrightarrow> wait c me s = Inr (r, s') \<Longrightarrow> kstep s s'"
| grows: "on_cpu c me s \<Longrightarrow> growproc n me s = Inr (r, s') \<Longrightarrow> kstep s s'"
| ticks: "\<not> tick_pending s \<Longrightarrow> unat (ticks s) < 2 ^ 31 - 1 \<Longrightarrow> kstep s (tick s)"
| charges: "tick_pending s \<Longrightarrow> kstep s (update_rtime s)"
| other: "quiet s s' \<Longrightarrow> kstep s s'"

section \<open>Preservation\<close>

lemma wake_onlyD:
  assumes "wake_only s s'" "i < length (ptable s)"
  shows "pid (ptable s' ! i) = pid (ptable s ! i)" "parent (ptable s' ! i) = parent (ptable s ! i)"
    "ctime (ptable s' ! i) = ctime (ptable s ! i)" "rtime (ptable s' ! i) = rtime (ptable s ! i)"
    "etime (ptable s' ! i) = etime (ptable s ! i)"
    "pstate (ptable s' ! i) = UNUSED \<longleftrightarrow> pstate (ptable s ! i) = UNUSED"
    "pstate (ptable s' ! i) = ZOMBIE \<longleftrightarrow> pstate (ptable s ! i) = ZOMBIE"
    "pstate (ptable s' ! i) = RUNNING \<longleftrightarrow> pstate (ptable s ! i) = RUNNING"
    "live (pstate (ptable s' ! i)) \<longleftrightarrow> live (pstate (ptable s ! i))"
  using assms unfolding wake_only_def fixed_fields_def live_def Let_def by (metis procstate.distinct)+

lemma wake_only_frame:
  assumes "wake_only s s'"
  shows "length (ptable s') = length (ptable s)" "cpu_proc s' = cpu_proc s" "nextpid s' = nextpid s"
    "ticks s' = ticks s" "tick_pending s' = tick_pending s" "initproc s' = initproc s"
  using assms by (simp_all add: wake_only_def)

lemma wake_only_inv:
  assumes "wake_only s s'" "proc_inv s"
  shows "proc_inv s'"
proof -
  note d = wake_onlyD[OF assms(1)] and f = wake_only_frame[OF assms(1)]
  have i: "cpu_inv s" "pid_inv s" "parent_inv s" "time_inv s" using assms(2) by (simp_all add: proc_inv_def)
  have "cpu_inv s'" using i(1) unfolding cpu_inv_def f using d(8) by blast
  moreover have "pid_inv s'" using i(2) unfolding pid_inv_def f using d(1,6) by auto
  moreover have "parent_inv s'" using i(3) unfolding parent_inv_def f using d(2,6,9) by metis
  moreover have "time_ok (ticks s) (tick_pending s) (ptable s' ! i) = time_ok (ticks s) (tick_pending s) (ptable s ! i)"
    if "i < length (ptable s)" for i
    unfolding time_ok_def d(3-7)[OF that] ..
  then have "time_inv s'" using i(4) unfolding time_inv_def f by simp
  ultimately show ?thesis using assms(2) f by (simp add: proc_inv_def)
qed

lemma proc_invD:
  assumes "proc_inv s"
  shows "length (ptable s) = 64" "cpu_inv s" "pid_inv s" "parent_inv s" "time_inv s"
  using assms by (simp_all add: proc_inv_def)

lemma on_cpuD:
  assumes "proc_inv s" "on_cpu c me s"
  shows "me < length (ptable s)" "pstate (ptable s ! me) = RUNNING" "c < length (cpu_proc s)"
    "cpu_proc s ! c = Some me" "\<And>d. d < length (cpu_proc s) \<Longrightarrow> cpu_proc s ! d = Some me \<Longrightarrow> d = c"
  using assms unfolding proc_inv_def cpu_inv_def on_cpu_def by blast+

lemma time_ok_cong:
  "pstate q = pstate p \<Longrightarrow> rtime q = rtime p \<Longrightarrow> ctime q = ctime p \<Longrightarrow> etime q = etime p \<Longrightarrow>
   time_ok now pend q = time_ok now pend p"
  by (simp add: time_ok_def)

text \<open>Introduction and destruction forms of the parts of the invariant.\<close>

lemma cpu_invI:
  assumes "\<And>c i. c < length (cpu_proc s) \<Longrightarrow> cpu_proc s ! c = Some i \<Longrightarrow>
      i < length (ptable s) \<and> pstate (ptable s ! i) = RUNNING"
    and "\<And>i. i < length (ptable s) \<Longrightarrow> pstate (ptable s ! i) = RUNNING \<Longrightarrow>
      \<exists>c < length (cpu_proc s). cpu_proc s ! c = Some i"
    and "\<And>c d i. c < length (cpu_proc s) \<Longrightarrow> d < length (cpu_proc s) \<Longrightarrow>
      cpu_proc s ! c = Some i \<Longrightarrow> cpu_proc s ! d = Some i \<Longrightarrow> c = d"
  shows "cpu_inv s"
  using assms unfolding cpu_inv_def by blast

lemma cpu_invD:
  assumes "cpu_inv s"
  shows "\<And>c i. c < length (cpu_proc s) \<Longrightarrow> cpu_proc s ! c = Some i \<Longrightarrow> i < length (ptable s)"
    and "\<And>c i. c < length (cpu_proc s) \<Longrightarrow> cpu_proc s ! c = Some i \<Longrightarrow> pstate (ptable s ! i) = RUNNING"
    and "\<And>i. i < length (ptable s) \<Longrightarrow> pstate (ptable s ! i) = RUNNING \<Longrightarrow>
      \<exists>c < length (cpu_proc s). cpu_proc s ! c = Some i"
    and "\<And>c d i. c < length (cpu_proc s) \<Longrightarrow> d < length (cpu_proc s) \<Longrightarrow>
      cpu_proc s ! c = Some i \<Longrightarrow> cpu_proc s ! d = Some i \<Longrightarrow> c = d"
  using assms unfolding cpu_inv_def by blast+

text \<open>The parts of the invariant survive a change of table entries that respects what they mention.\<close>

lemma cpu_inv_same:
  assumes "cpu_inv s" "length (ptable s') = length (ptable s)" "cpu_proc s' = cpu_proc s"
    "\<And>i. i < length (ptable s) \<Longrightarrow> pstate (ptable s' ! i) = RUNNING \<longleftrightarrow> pstate (ptable s ! i) = RUNNING"
  shows "cpu_inv s'"
  using cpu_invD[OF assms(1)] assms(2-) by (intro cpu_invI) simp_all

lemma pid_inv_same:
  assumes "pid_inv s" "length (ptable s') = length (ptable s)" "nextpid s' = nextpid s"
    "\<And>i. i < length (ptable s) \<Longrightarrow> pstate (ptable s' ! i) \<noteq> UNUSED \<Longrightarrow>
       pstate (ptable s ! i) \<noteq> UNUSED \<and> pid (ptable s' ! i) = pid (ptable s ! i)"
  shows "pid_inv s'"
  using assms unfolding pid_inv_def by metis

lemma parent_invI:
  assumes "initproc s = Some k" "k < length (ptable s)" "live (pstate (ptable s ! k))"
    and "\<And>i. i < length (ptable s) \<Longrightarrow> pstate (ptable s ! i) = UNUSED \<Longrightarrow> parent (ptable s ! i) = None"
    and "\<And>i j. i < length (ptable s) \<Longrightarrow> parent (ptable s ! i) = Some j \<Longrightarrow>
      j < length (ptable s) \<and> live (pstate (ptable s ! j))"
  shows "parent_inv s"
  using assms unfolding parent_inv_def by blast

lemma parent_invE:
  assumes "parent_inv s"
  obtains k where "initproc s = Some k" "k < length (ptable s)" "live (pstate (ptable s ! k))"
  using assms unfolding parent_inv_def by blast

lemma parent_invD:
  assumes "parent_inv s" "i < length (ptable s)"
  shows "pstate (ptable s ! i) = UNUSED \<Longrightarrow> parent (ptable s ! i) = None"
    and "parent (ptable s ! i) = Some j \<Longrightarrow> j < length (ptable s)"
    and "parent (ptable s ! i) = Some j \<Longrightarrow> live (pstate (ptable s ! j))"
  using assms unfolding parent_inv_def by blast+

lemma parent_inv_same:
  assumes "parent_inv s" "length (ptable s') = length (ptable s)" "initproc s' = initproc s"
    "\<And>i. i < length (ptable s) \<Longrightarrow> live (pstate (ptable s ! i)) \<Longrightarrow> live (pstate (ptable s' ! i))"
    "\<And>i. i < length (ptable s) \<Longrightarrow> pstate (ptable s' ! i) = UNUSED \<Longrightarrow> pstate (ptable s ! i) = UNUSED"
    "\<And>i. i < length (ptable s) \<Longrightarrow> parent (ptable s' ! i) = parent (ptable s ! i)"
  shows "parent_inv s'"
  using assms unfolding parent_inv_def by metis

lemma time_invD: "time_inv s \<Longrightarrow> i < length (ptable s) \<Longrightarrow> time_ok (ticks s) (tick_pending s) (ptable s ! i)"
  by (simp add: time_inv_def)

lemma leaves_inv:
  assumes inv: "proc_inv s" and on: "on_cpu c me s" and l: "leaves c me x s s'"
    and x: "x = RUNNABLE \<or> x = SLEEPING \<or> x = ZOMBIE"
    and z: "x = ZOMBIE \<Longrightarrow> initproc s \<noteq> Some me \<and> (\<forall>i < length (ptable s). parent (ptable s ! i) \<noteq> Some me)"
  shows "proc_inv s'"
proof -
  note i = proc_invD[OF inv] and o = on_cpuD[OF inv on]
  obtain q where q: "ptable s' = (ptable s)[me := q]" "fixed_fields (ptable s ! me) q"
    "parent q = parent (ptable s ! me)" "pstate q = x" "x = ZOMBIE \<longrightarrow> etime q = ticks s"
    and f: "cpu_proc s' = (cpu_proc s)[c := None]" "nextpid s' = nextpid s" "ticks s' = ticks s"
      "tick_pending s' = tick_pending s" "initproc s' = initproc s"
    using l unfolding leaves_def by blast
  have len: "length (ptable s') = length (ptable s)" by (simp add: q(1))
  have st: "pstate (ptable s' ! k) = (if k = me then x else pstate (ptable s ! k))" for k
    using o(1) q by (auto simp: nth_upd)
  have pid: "pid (ptable s' ! k) = pid (ptable s ! k)" "parent (ptable s' ! k) = parent (ptable s ! k)" for k
    using q by (auto simp: nth_upd fixed_fields_def)
  have cp: "cpu_proc s' ! d = Some k \<longleftrightarrow> cpu_proc s ! d = Some k \<and> k \<noteq> me" if "d < length (cpu_proc s)" for d k
    using o(4) o(5)[OF that] that by (auto simp: f(1) nth_upd)
  have "cpu_inv s'"
  proof (rule cpu_invI)
    fix d k assume "d < length (cpu_proc s')" "cpu_proc s' ! d = Some k"
    then show "k < length (ptable s') \<and> pstate (ptable s' ! k) = RUNNING"
      using cpu_invD(1,2)[OF i(2)] cp len st f(1) by simp
  next
    fix k assume "k < length (ptable s')" "pstate (ptable s' ! k) = RUNNING"
    then have "k \<noteq> me" "k < length (ptable s)" "pstate (ptable s ! k) = RUNNING" using st x len by (auto split: if_splits)
    then show "\<exists>d < length (cpu_proc s'). cpu_proc s' ! d = Some k"
      using cpu_invD(3)[OF i(2)] cp f(1) by (metis length_list_update)
  next
    fix d e k assume "d < length (cpu_proc s')" "e < length (cpu_proc s')"
      "cpu_proc s' ! d = Some k" "cpu_proc s' ! e = Some k"
    then show "d = e" using cpu_invD(4)[OF i(2)] cp f(1) by simp
  qed
  moreover have "pid_inv s'"
    using i(3) len f(2) by (rule pid_inv_same) (use o(2) x st pid in \<open>auto split: if_splits\<close>)
  moreover have "parent_inv s'"
  proof (cases "x = ZOMBIE")
    case True
    obtain k where k: "initproc s = Some k" "k < length (ptable s)" "live (pstate (ptable s ! k))"
      by (rule parent_invE[OF i(4)])
    have "initproc s' = Some k" "k < length (ptable s')" "live (pstate (ptable s' ! k))"
      using k z[OF True] f(5) len st by auto
    then show ?thesis
    proof (rule parent_invI)
      fix n assume "n < length (ptable s')" "pstate (ptable s' ! n) = UNUSED"
      then show "parent (ptable s' ! n) = None" using parent_invD(1)[OF i(4)] st len pid True by (simp split: if_splits)
    next
      fix n j assume n: "n < length (ptable s')" "parent (ptable s' ! n) = Some j"
      then show "j < length (ptable s') \<and> live (pstate (ptable s' ! j))"
        using parent_invD(2,3)[OF i(4), of n j] z[OF True] len pid st by auto
    qed
  next
    case False
    show ?thesis
      using i(4) len f(5) by (rule parent_inv_same) (use o(2) x False st pid in \<open>auto simp: live_def split: if_splits\<close>)
  qed
  moreover have "time_ok (ticks s) (tick_pending s) (ptable s' ! k)" if "k < length (ptable s)" for k
  proof -
    have t: "time_ok (ticks s) (tick_pending s) (ptable s ! k)" using i(5) that by (simp add: time_inv_def)
    show ?thesis
    proof (cases "k = me")
      case True
      then show ?thesis
        using t x q o(1,2) by (auto simp: time_ok_def fixed_fields_def split: if_splits)
    next
      case False
      then show ?thesis using t q(1) by (simp add: nth_upd)
    qed
  qed
  then have "time_inv s'" using i(5) unfolding time_inv_def f len by simp
  ultimately show ?thesis using i(1) len by (simp add: proc_inv_def)
qed

lemma run_inv:
  assumes inv: "proc_inv s" and c: "c < length (cpu_proc s)" "cpu_proc s ! c = None"
    and p: "scheduler_pick k s = Some i" and r: "scheduler_switch c i s = Inr s'"
  shows "proc_inv s'"
proof -
  note v = proc_invD[OF inv]
  obtain j where j: "i = k + j" "find_idx (\<lambda>p. pstate p = RUNNABLE) (drop k (ptable s)) = Some j"
    using p by (auto simp: scheduler_pick_def)
  have i: "i < length (ptable s)" "pstate (ptable s ! i) = RUNNABLE" using find_idx_SomeD[OF j(2)] j(1) by auto
  obtain t where t: "switchuvm (Some (kstack (ptable s ! i), pgdir (ptable s ! i)))
      (s\<lparr>cpu_proc := (cpu_proc s)[c := Some i]\<rparr>) = Inr t" "s' = upd_proc i (\<lambda>p. p\<lparr>pstate := RUNNING\<rparr>) t"
    using r by (auto simp: scheduler_switch_def bind_res_Inr_iff)
  have f: "ptable s' = (ptable s)[i := (ptable s ! i)\<lparr>pstate := RUNNING\<rparr>]"
    "cpu_proc s' = (cpu_proc s)[c := Some i]" "nextpid s' = nextpid s" "ticks s' = ticks s"
    "tick_pending s' = tick_pending s" "initproc s' = initproc s"
    using switchuvm_ktab[OF t(1)] unfolding t(2) by (simp_all add: ktab_same_def)
  have len: "length (ptable s') = length (ptable s)" by (simp add: f(1))
  have st: "pstate (ptable s' ! k) = (if k = i then RUNNING else pstate (ptable s ! k))" for k
    using i(1) f(1) by (auto simp: nth_upd)
  have pid: "pid (ptable s' ! k) = pid (ptable s ! k)" "parent (ptable s' ! k) = parent (ptable s ! k)" for k
    using f(1) by (auto simp: nth_upd)
  have cp: "cpu_proc s' ! d = Some k \<longleftrightarrow> (if d = c then k = i else cpu_proc s ! d = Some k)" for d k
    using c by (auto simp: f(2) nth_upd)
  have ni: "cpu_proc s ! d \<noteq> Some i" if "d < length (cpu_proc s)" for d
    using cpu_invD(2)[OF v(2) that] i(2) by auto
  have "cpu_inv s'"
  proof (rule cpu_invI)
    fix d k assume "d < length (cpu_proc s')" "cpu_proc s' ! d = Some k"
    then show "k < length (ptable s') \<and> pstate (ptable s' ! k) = RUNNING"
      using cpu_invD(1,2)[OF v(2), of d k] cp[of d k] len st i(1) f(2) by (auto split: if_splits)
  next
    fix k assume k: "k < length (ptable s')" "pstate (ptable s' ! k) = RUNNING"
    show "\<exists>d < length (cpu_proc s'). cpu_proc s' ! d = Some k"
    proof (cases "k = i")
      case True
      then show ?thesis using cp[of c k] c(1) f(2) by auto
    next
      case False
      then obtain d where "d < length (cpu_proc s)" "cpu_proc s ! d = Some k"
        using cpu_invD(3)[OF v(2)] k st len by auto
      then show ?thesis using cp[of d k] c(2) f(2) by (intro exI[of _ d]) auto
    qed
  next
    fix d e k assume "d < length (cpu_proc s')" "e < length (cpu_proc s')"
      "cpu_proc s' ! d = Some k" "cpu_proc s' ! e = Some k"
    then show "d = e" using cpu_invD(4)[OF v(2), of d e k] cp[of d k] cp[of e k] ni f(2) by (auto split: if_splits)
  qed
  moreover have "pid_inv s'"
    using v(3) len f(3) by (rule pid_inv_same) (use i st pid in \<open>auto split: if_splits\<close>)
  moreover have "parent_inv s'"
    using v(4) len f(6) by (rule parent_inv_same) (use i st pid in \<open>auto simp: live_def split: if_splits\<close>)
  moreover have "time_ok (ticks s) (tick_pending s) (ptable s' ! k) = time_ok (ticks s) (tick_pending s) (ptable s ! k)" for k
    using f(1) i by (auto simp: nth_upd time_ok_def)
  then have "time_inv s'" using v(5) unfolding time_inv_def f(2-) len by simp
  ultimately show ?thesis using v(1) len by (simp add: proc_inv_def)
qed

lemma created_inv:
  assumes inv: "proc_inv s" and c: "created me i x s s'" and x: "x = UNUSED \<or> x = RUNNABLE"
    and me: "me < length (ptable s)" "live (pstate (ptable s ! me))"
    and b: "unat (nextpid s) < 2 ^ 31 - 1"
  shows "proc_inv s'"
proof -
  note v = proc_invD[OF inv]
  have i: "i < length (ptable s)" "pstate (ptable s ! i) = UNUSED" using c by (auto simp: created_def)
  obtain q where q: "ptable s' = (ptable s)[i := q]" "pid q = nextpid s" "pstate q = x" "ctime q = ticks s"
    "rtime q = 0" "parent q = (if x = UNUSED then parent (ptable s ! i) else Some me)"
    using c unfolding created_def by blast
  have f: "cpu_proc s' = cpu_proc s" "nextpid s' = nextpid s + 1" "ticks s' = ticks s"
    "tick_pending s' = tick_pending s" "initproc s' = initproc s" using c by (auto simp: created_def)
  have len: "length (ptable s') = length (ptable s)" by (simp add: q(1))
  have st: "pstate (ptable s' ! k) = (if k = i then x else pstate (ptable s ! k))"
    "pid (ptable s' ! k) = (if k = i then nextpid s else pid (ptable s ! k))"
    "parent (ptable s' ! k) = (if k = i \<and> x \<noteq> UNUSED then Some me else parent (ptable s ! k))" for k
    using i(1) q by (auto simp: nth_upd)
  have "cpu_inv s'"
    using v(2) len f(1) by (rule cpu_inv_same) (use i x st(1) in auto)
  moreover have "pid_inv s'"
  proof -
    have n: "unat (nextpid s + 1) = unat (nextpid s) + 1"
      using b by (simp add: unat_word_ariths)
    have lt: "0 < unat (pid (ptable s ! k))" "unat (pid (ptable s ! k)) < unat (nextpid s)"
      if "k < length (ptable s)" "pstate (ptable s ! k) \<noteq> UNUSED" for k
      using v(3) that unfolding pid_inv_def by blast+
    have inj: "k = j" if "k < length (ptable s)" "j < length (ptable s)" "pstate (ptable s ! k) \<noteq> UNUSED"
      "pstate (ptable s ! j) \<noteq> UNUSED" "pid (ptable s ! k) = pid (ptable s ! j)" for k j
      using v(3) that unfolding pid_inv_def by blast
    have pos: "0 < unat (nextpid s)" using v(3) unfolding pid_inv_def by blast
    show ?thesis unfolding pid_inv_def len f(2) n st
    proof (intro conjI allI impI)
      show "unat (nextpid s) + 1 < 2 ^ 31" using b by simp
    next
      fix k j assume kj: "k < length (ptable s)" "j < length (ptable s)"
        "(if k = i then x else pstate (ptable s ! k)) \<noteq> UNUSED"
        "(if j = i then x else pstate (ptable s ! j)) \<noteq> UNUSED"
        "(if k = i then nextpid s else pid (ptable s ! k)) = (if j = i then nextpid s else pid (ptable s ! j))"
      then show "k = j" using lt(2)[of k] lt(2)[of j] inj[of k j] by (auto split: if_splits)
    qed (use pos lt in \<open>auto split: if_splits simp: less_Suc_eq\<close>)
  qed
  moreover have "parent_inv s'"
  proof -
    obtain k where k: "initproc s = Some k" "k < length (ptable s)" "live (pstate (ptable s ! k))"
      by (rule parent_invE[OF v(4)])
    have lv: "live (pstate (ptable s' ! j))" if "live (pstate (ptable s ! j))" for j
      using that i(2) st(1)[of j] by (auto simp: live_def)
    have "initproc s' = Some k" "k < length (ptable s')" "live (pstate (ptable s' ! k))"
      using k lv f(5) len by auto
    then show ?thesis
    proof (rule parent_invI)
      fix n assume "n < length (ptable s')" "pstate (ptable s' ! n) = UNUSED"
      then show "parent (ptable s' ! n) = None"
        using parent_invD(1)[OF v(4), of n] st(1,3)[of n] len i by (auto split: if_splits)
    next
      fix n j assume n: "n < length (ptable s')" "parent (ptable s' ! n) = Some j"
      then show "j < length (ptable s') \<and> live (pstate (ptable s' ! j))"
        using parent_invD(2,3)[OF v(4), of n j] me len lv st(3)[of n] by (auto split: if_splits)
    qed
  qed
  moreover have "time_ok (ticks s) (tick_pending s) (ptable s' ! k)" if "k < length (ptable s)" for k
  proof -
    have t: "time_ok (ticks s) (tick_pending s) (ptable s ! k)" using v(5) that by (simp add: time_inv_def)
    have "time_ok (ticks s) (tick_pending s) q" using x q by (auto simp: time_ok_def)
    then show ?thesis using t q(1) by (simp add: nth_upd)
  qed
  then have "time_inv s'" using v(5) unfolding time_inv_def f(3-) len by simp
  ultimately show ?thesis using v(1) len by (simp add: proc_inv_def)
qed

lemma reaped_inv:
  assumes inv: "proc_inv s" and r: "reaped i s s'"
  shows "proc_inv s'"
proof -
  note v = proc_invD[OF inv]
  have i: "i < length (ptable s)" "pstate (ptable s ! i) = ZOMBIE" using r by (auto simp: reaped_def)
  obtain q where q: "ptable s' = (ptable s)[i := q]" "pstate q = UNUSED" "parent q = None"
    using r unfolding reaped_def by blast
  have f: "cpu_proc s' = cpu_proc s" "nextpid s' = nextpid s" "ticks s' = ticks s"
    "tick_pending s' = tick_pending s" "initproc s' = initproc s" using r by (auto simp: reaped_def)
  have len: "length (ptable s') = length (ptable s)" by (simp add: q(1))
  have st: "pstate (ptable s' ! k) = (if k = i then UNUSED else pstate (ptable s ! k))"
    "k \<noteq> i \<Longrightarrow> pid (ptable s' ! k) = pid (ptable s ! k)"
    "parent (ptable s' ! k) = (if k = i then None else parent (ptable s ! k))" for k
    using i(1) q by (auto simp: nth_upd)
  have "cpu_inv s'"
    using v(2) len f(1) by (rule cpu_inv_same) (use i st(1) in auto)
  moreover have "pid_inv s'"
    using v(3) len f(2) by (rule pid_inv_same) (use i st in \<open>auto split: if_splits\<close>)
  moreover have "parent_inv s'"
  proof -
    obtain k where k: "initproc s = Some k" "k < length (ptable s)" "live (pstate (ptable s ! k))"
      by (rule parent_invE[OF v(4)])
    have lv: "live (pstate (ptable s' ! j))" if "live (pstate (ptable s ! j))" for j
      using that i(2) st(1)[of j] by (auto simp: live_def)
    have "initproc s' = Some k" "k < length (ptable s')" "live (pstate (ptable s' ! k))"
      using k lv f(5) len by auto
    then show ?thesis
    proof (rule parent_invI)
      fix n assume "n < length (ptable s')" "pstate (ptable s' ! n) = UNUSED"
      then show "parent (ptable s' ! n) = None"
        using parent_invD(1)[OF v(4), of n] st(1,3)[of n] len i by (auto split: if_splits)
    next
      fix n j assume n: "n < length (ptable s')" "parent (ptable s' ! n) = Some j"
      then show "j < length (ptable s') \<and> live (pstate (ptable s' ! j))"
        using parent_invD(2,3)[OF v(4), of n j] len lv st(3)[of n] by (auto split: if_splits)
    qed
  qed
  moreover have "time_ok (ticks s) (tick_pending s) (ptable s' ! k)" if "k < length (ptable s)" for k
  proof (cases "k = i")
    case True
    then show ?thesis using i(1) q(1,2) by (simp add: time_ok_def)
  next
    case False
    then show ?thesis using time_invD[OF v(5) that] q(1) by simp
  qed
  then have "time_inv s'" using v(5) unfolding time_inv_def f(3-) len by simp
  ultimately show ?thesis using v(1) len by (simp add: proc_inv_def)
qed

lemma reparented_inv:
  assumes inv: "proc_inv s" and r: "reparented me n s s'"
  shows "proc_inv s'"
proof -
  note v = proc_invD[OF inv]
  have f: "cpu_proc s' = cpu_proc s" "nextpid s' = nextpid s" "ticks s' = ticks s"
    "tick_pending s' = tick_pending s" "initproc s' = initproc s" and len: "length (ptable s') = length (ptable s)"
    using r by (auto simp: reparented_def)
  have e: "pid (ptable s' ! i) = pid (ptable s ! i)" "rtime (ptable s' ! i) = rtime (ptable s ! i)"
    "ctime (ptable s' ! i) = ctime (ptable s ! i)" "etime (ptable s' ! i) = etime (ptable s ! i)"
    "parent (ptable s' ! i) = (if n \<le> i \<and> parent (ptable s ! i) = Some me then initproc s else parent (ptable s ! i))"
    "pstate (ptable s' ! i) = pstate (ptable s ! i) \<or> pstate (ptable s ! i) = SLEEPING \<and> pstate (ptable s' ! i) = RUNNABLE"
    if "i < length (ptable s)" for i
    using r that unfolding reparented_def Let_def fixed_fields_def by blast+
  have "cpu_inv s'"
    using v(2) len f(1) by (rule cpu_inv_same) (use e(6) in fastforce)
  moreover have "pid_inv s'"
    using v(3) len f(2) by (rule pid_inv_same) (use e in fastforce)
  moreover have "parent_inv s'"
  proof -
    obtain k where k: "initproc s = Some k" "k < length (ptable s)" "live (pstate (ptable s ! k))"
      by (rule parent_invE[OF v(4)])
    have lv: "live (pstate (ptable s' ! j))" if "j < length (ptable s)" "live (pstate (ptable s ! j))" for j
      using that e(6)[OF that(1)] by (auto simp: live_def)
    have "initproc s' = Some k" "k < length (ptable s')" "live (pstate (ptable s' ! k))"
      using k lv f(5) len by auto
    then show ?thesis
    proof (rule parent_invI)
      fix m assume "m < length (ptable s')" "pstate (ptable s' ! m) = UNUSED"
      then show "parent (ptable s' ! m) = None"
        using parent_invD(1)[OF v(4), of m] e(5,6)[of m] len by auto
    next
      fix m j assume "m < length (ptable s')" "parent (ptable s' ! m) = Some j"
      then show "j < length (ptable s') \<and> live (pstate (ptable s' ! j))"
        using parent_invD(2,3)[OF v(4), of m j] len lv e(5)[of m] k by (auto split: if_splits)
    qed
  qed
  moreover have "time_ok (ticks s) (tick_pending s) (ptable s' ! k)" if k: "k < length (ptable s)" for k
    using time_invD[OF v(5) k] e(6)[OF k] unfolding time_ok_def e(2-4)[OF k] by auto
  then have "time_inv s'" using v(5) unfolding time_inv_def f(3-) len by simp
  ultimately show ?thesis using v(1) len by (simp add: proc_inv_def)
qed

lemma exit_inv:
  assumes inv: "proc_inv s" and on: "on_cpu c me s" and ni: "initproc s \<noteq> Some me"
    and e: "exit_locked c me s = Inr s'"
  shows "proc_inv s'"
proof -
  obtain t u where t: "wake_only s t" and u: "reparented me 0 t u" and l: "leaves c me ZOMBIE u s'"
    using exit_locked_effect[OF e on_cpuD(1)[OF inv on] ni] by blast
  have it: "proc_inv t" using wake_only_inv[OF t inv] .
  have iu: "proc_inv u" using reparented_inv[OF it u] .
  have "cpu_proc u = cpu_proc s" "initproc u = initproc s" "initproc t = initproc s"
    "length (ptable u) = length (ptable t)"
    using t u by (auto simp: wake_only_def reparented_def)
  moreover have "parent (ptable u ! i) \<noteq> Some me" if "i < length (ptable t)" for i
    using u that ni \<open>initproc t = initproc s\<close> unfolding reparented_def Let_def by (metis le0)
  ultimately show ?thesis
    using leaves_inv[OF iu _ l] on ni by (simp add: on_cpu_def)
qed

lemma wait_inv:
  assumes inv: "proc_inv s" and on: "on_cpu c me s" and w: "wait c me s = Inr (r, s')"
  shows "proc_inv s'"
  using wait_effect[OF w on_cpuD(1)[OF inv on]] inv
  by cases (auto intro: reaped_inv leaves_inv[OF inv on])

lemma fork_inv:
  assumes inv: "proc_inv s" and on: "on_cpu c me s" and b: "unat (nextpid s) < 2 ^ 31 - 1"
    and e: "s' = s \<or> created me i UNUSED s s' \<or> created me i RUNNABLE s s'"
  shows "proc_inv s'"
  using e created_inv[OF inv _ _ on_cpuD(1)[OF inv on] _ b] on_cpuD(2)[OF inv on] inv
  by (auto simp: live_def)

lemma tick_inv:
  assumes inv: "proc_inv s" and np: "\<not> tick_pending s" and b: "unat (ticks s) < 2 ^ 31 - 1"
  shows "proc_inv (tick s)"
proof -
  let ?t = "s\<lparr>ticks := ticks s + 1, tick_pending := True\<rparr>"
  note v = proc_invD[OF inv]
  have n: "unat (ticks s + 1) = unat (ticks s) + 1" using b by (simp add: unat_word_ariths)
  have "time_ok (ticks s + 1) True (ptable s ! i)" if "i < length (ptable s)" for i
    using time_invD[OF v(5) that] np n by (auto simp: time_ok_def)
  then have "time_inv ?t" using b n by (simp add: time_inv_def)
  moreover have "cpu_inv ?t" using v(2) by (rule cpu_inv_same) simp_all
  moreover have "pid_inv ?t" using v(3) by (rule pid_inv_same) simp_all
  moreover have "parent_inv ?t" using v(4) by (rule parent_inv_same) simp_all
  ultimately have t: "proc_inv ?t" using v(1) by (simp add: proc_inv_def)
  have "tick s = wakeup Ticks_chan ?t" by (simp add: tick_def wakeup_def wakeup1_def)
  then show ?thesis using wake_only_inv[OF wake_only_wakeup1 t] by (simp add: wakeup_def)
qed

lemma update_rtime_inv:
  assumes inv: "proc_inv s" and p: "tick_pending s"
  shows "proc_inv (update_rtime s)"
proof -
  let ?s = "update_rtime s"
  note v = proc_invD[OF inv]
  have f: "cpu_proc ?s = cpu_proc s" "nextpid ?s = nextpid s" "initproc ?s = initproc s" "ticks ?s = ticks s"
    "tick_pending ?s = False" and len: "length (ptable ?s) = length (ptable s)"
    by (simp_all add: update_rtime_def)
  have e: "ptable ?s ! i = (if pstate (ptable s ! i) = RUNNING
      then (ptable s ! i)\<lparr>rtime := rtime (ptable s ! i) + 1\<rparr> else ptable s ! i)" if "i < length (ptable s)" for i
    using that by (simp add: update_rtime_def)
  have "cpu_inv ?s" using v(2) len f(1) by (rule cpu_inv_same) (simp add: e)
  moreover have "pid_inv ?s" using v(3) len f(2) by (rule pid_inv_same) (auto simp: e split: if_splits)
  moreover have "parent_inv ?s"
    using v(4) len f(3) by (rule parent_inv_same) (auto simp: e split: if_splits)
  moreover have "time_ok (ticks s) False (ptable ?s ! i)" if i: "i < length (ptable s)" for i
  proof -
    have t: "time_ok (ticks s) True (ptable s ! i)" using time_invD[OF v(5) i] p by simp
    have b: "unat (ticks s) < 2 ^ 31" using v(5) by (simp add: time_inv_def)
    have "unat (rtime (ptable s ! i) + 1) = unat (rtime (ptable s ! i)) + 1" if "pstate (ptable s ! i) = RUNNING"
      using t that b by (simp add: time_ok_def unat_word_ariths)
    then show ?thesis using t unfolding e[OF i] by (auto simp: time_ok_def)
  qed
  then have "time_inv ?s" using v(5) unfolding time_inv_def f len by simp
  ultimately show ?thesis using v(1) len by (simp add: proc_inv_def)
qed

lemma quiet_wake_only: "quiet s s' \<Longrightarrow> wake_only s s'"
  by (simp add: quiet_def wake_only_def Let_def)

lemma kstep_inv: "kstep s s' \<Longrightarrow> proc_inv s \<Longrightarrow> proc_inv s'"
proof (induction rule: kstep.induct)
  case (yields c me s s')
  then show ?case using leaves_inv[OF _ _ leaves_yield] on_cpuD(1) by blast
next
  case (sleeps c me s ch s')
  then show ?case using leaves_inv[OF _ _ leaves_sleep] on_cpuD(1) by blast
next
  case (forks c me s r s')
  then show ?case using fork_effect[OF forks(3)] fork_inv by blast
next
  case (forks2 c me s x r s')
  then show ?case using fork2_effect[OF forks2(3)] fork_inv by blast
qed (auto intro: run_inv wake_only_inv[OF wake_only_resume] wake_only_inv[OF wake_only_wakeup1]
    wake_only_inv[OF wake_only_kill] exit_inv wait_inv wake_only_inv[OF wake_only_growproc] tick_inv
    update_rtime_inv wake_only_inv[OF quiet_wake_only] simp: wakeup_def)

text \<open>
  The state \<open>userinit\<close> leaves behind: \<open>init\<close> is runnable in slot 0 with pid 1 and nothing else exists.
\<close>

definition kstart :: "'a kernel_scheme \<Rightarrow> bool" where
  "kstart s \<longleftrightarrow>
     length (ptable s) = 64 \<and> list_all (\<lambda>x. x = None) (cpu_proc s) \<and> initproc s = Some 0 \<and>
     nextpid s = 2 \<and> ticks s = 0 \<and> \<not> tick_pending s \<and>
     pstate (ptable s ! 0) = RUNNABLE \<and> pid (ptable s ! 0) = 1 \<and> rtime (ptable s ! 0) = 0 \<and>
     ctime (ptable s ! 0) = 0 \<and>
     list_all (\<lambda>p. parent p = None) (ptable s) \<and> list_all (\<lambda>p. pstate p = UNUSED) (tl (ptable s))"

lemma kstart_inv:
  assumes "kstart s"
  shows "proc_inv s"
proof -
  have len: "length (ptable s) = 64" and c: "\<And>c. c < length (cpu_proc s) \<Longrightarrow> cpu_proc s ! c = None"
    and p: "\<And>i. i < length (ptable s) \<Longrightarrow> parent (ptable s ! i) = None"
    using assms by (auto simp: kstart_def list_all_length)
  have st: "pstate (ptable s ! i) = UNUSED" if "0 < i" "i < length (ptable s)" for i
  proof -
    have "i - 1 < length (tl (ptable s))" using that by simp
    then have "pstate (tl (ptable s) ! (i - 1)) = UNUSED" using assms by (simp only: kstart_def list_all_length)
    then show ?thesis using that by (simp add: nth_tl)
  qed
  have z: "i = 0" if "i < length (ptable s)" "pstate (ptable s ! i) \<noteq> UNUSED" for i
    using st[of i] that by blast
  have 0: "pstate (ptable s ! 0) = RUNNABLE" "pid (ptable s ! 0) = 1" "rtime (ptable s ! 0) = 0"
    "ctime (ptable s ! 0) = 0" and n: "nextpid s = 2" "ticks s = 0" "initproc s = Some 0"
    using assms by (simp_all only: kstart_def)
  have "cpu_inv s" by (rule cpu_invI) (use c z 0 in fastforce)+
  moreover have "pid_inv s" unfolding pid_inv_def
    by (intro conjI allI impI) ((use z 0 n in \<open>force+\<close>)[4], metis z)
  moreover have "parent_inv s" by (rule parent_invI[of _ 0]) (use n 0 p len in \<open>simp_all add: live_def\<close>)
  moreover have "time_ok (ticks s) (tick_pending s) (ptable s ! i)" if "i < length (ptable s)" for i
    using z[OF that] 0 n by (cases "i = 0") (auto simp: time_ok_def)
  then have "time_inv s" using n by (simp add: time_inv_def)
  ultimately show ?thesis using len by (simp add: proc_inv_def)
qed

interpretation ksys: transition_system kstart kstep proc_inv
  by unfold_locales (fact kstart_inv, fact kstep_inv)

section \<open>What the system calls rely on\<close>

definition demo_proc :: proc where
  "demo_proc = \<lparr>sz = 0, pgdir = 0, kstack = 0, pstate = UNUSED, pid = 0, parent = None, tf = 0, pcontext = 0,
     chan = None, killed = 0, ofile = replicate 16 None, cwd = None, pname = replicate 16 0,
     priority = 0, ctime = 0, etime = 0, rtime = 0\<rparr>"

definition demo_kernel :: kernel where
  "demo_kernel = files.extend demo_files
     \<lparr>ptable = demo_proc\<lparr>pstate := RUNNABLE, pid := 1, kstack := 0x80403000, pgdir := 0x80400000\<rparr> # replicate 63 demo_proc,
      initproc = Some 0, nextpid = 2, ticks = 0, tick_pending = False, cpu_proc = [None, None],
      sym_trapret = 0, sym_forkret = 0\<rparr>"

text \<open>A state in which \<open>init\<close> waits for its child, which runs on CPU 0.\<close>

definition demo_family :: kernel where
  "demo_family = demo_kernel\<lparr>nextpid := 3, cpu_proc := [Some 1, None],
     ptable := [demo_proc\<lparr>pstate := SLEEPING, pid := 1, chan := Some (Proc_chan 0)\<rparr>,
                demo_proc\<lparr>pstate := RUNNING, pid := 2, parent := Some 0\<rparr>] @ replicate 62 demo_proc\<rparr>"

lemma demo_start: "kstart demo_kernel"
  by (simp add: kstart_def demo_kernel_def demo_proc_def files.extend_def list_all_length nth_Cons')

lemma demo_family_inv: "proc_inv demo_family"
proof -
  let ?s = demo_family
  have t: "ptable ?s = [demo_proc\<lparr>pstate := SLEEPING, pid := 1, chan := Some (Proc_chan 0)\<rparr>,
      demo_proc\<lparr>pstate := RUNNING, pid := 2, parent := Some 0\<rparr>] @ replicate 62 demo_proc"
    and c: "cpu_proc ?s = [Some 1, None]" and i: "initproc ?s = Some 0" "nextpid ?s = 3" "ticks ?s = 0"
    by (simp_all add: demo_family_def demo_kernel_def files.extend_def)
  have st: "pstate (ptable ?s ! n) = (if n = 0 then SLEEPING else if n = 1 then RUNNING else UNUSED)"
    "pid (ptable ?s ! n) = (if n = 0 then 1 else if n = 1 then 2 else 0)"
    "parent (ptable ?s ! n) = (if n = 1 then Some 0 else None)"
    "rtime (ptable ?s ! n) = 0" "ctime (ptable ?s ! n) = 0" if "n < 64" for n
    unfolding t using that by (auto simp: nth_append demo_proc_def nth_Cons' )
  have l: "length (ptable ?s) = 64" by (simp add: t)
  have "cpu_inv ?s" unfolding cpu_inv_def l c by (auto simp: st nth_Cons' less_Suc_eq)
  moreover have "pid_inv ?s" unfolding pid_inv_def l i by (auto simp: st)
  moreover have "parent_inv ?s" using i l by (intro parent_invI[of _ 0]) (auto simp: st live_def split: if_splits)
  moreover have "time_inv ?s" unfolding time_inv_def l i by (auto simp: time_ok_def st)
  ultimately show ?thesis using l by (simp add: proc_inv_def)
qed







text \<open>
  C14. \<open>kill\<close> does not look at the state of a slot and \<open>allocproc\<close> does not reset \<open>killed\<close>. After a
  successful \<open>kill(0)\<close> that hit a free slot, the next process created in this slot is born killed.
\<close>

theorem kill_free_slot_poisons_fork:
  assumes "kill 0 s = (0, s1)" "find_idx (\<lambda>p. pid p = 0) (ptable s) = Some i"
    "find_idx (\<lambda>p. pstate p = UNUSED) (ptable s) = Some i"
  shows "killed (ptable s1 ! i) = 1 \<and>
    (\<forall>me r s2. fork me s1 = Inr (r, s2) \<longrightarrow> r \<noteq> - 1 \<longrightarrow>
       pid (ptable s2 ! i) = r \<and> pstate (ptable s2 ! i) = RUNNABLE \<and> killed (ptable s2 ! i) = 1)"
proof -
  have i: "i < length (ptable s)" "pstate (ptable s ! i) = UNUSED" "\<forall>j < i. pstate (ptable s ! j) \<noteq> UNUSED"
    using find_idx_SomeD[OF assms(3)] by auto
  have s1: "s1 = upd_proc i (\<lambda>p. p\<lparr>killed := 1\<rparr>) s"
    using assms(1,2) i by (auto simp: kill_def upd_proc_def Let_def)
  then have f: "find_idx (\<lambda>p. pstate p = UNUSED) (ptable s1) = Some i"
    using i by (intro find_idx_SomeI) auto
  have k: "killed (ptable s1 ! i) = 1" using s1 i(1) by simp
  have "pid (ptable s2 ! i) = r \<and> pstate (ptable s2 ! i) = RUNNABLE \<and> killed (ptable s2 ! i) = 1"
    if "fork me s1 = Inr (r, s2)" "r \<noteq> - 1" for me r s2
  proof -
    have "r = nextpid s1" "created me i RUNNABLE s1 s2" using fork_effect[OF that(1)] that(2) f by auto
    then show ?thesis using k by (auto simp: created_def)
  qed
  then show ?thesis using k by blast
qed

theorem kill_free_slot_poisons_fork_witness:
  "\<exists>s1. kill 0 demo_kernel = (0, s1) \<and> killed (ptable s1 ! 1) = 1"
proof -
  have "find_idx (\<lambda>p. pid p = 0) (ptable demo_kernel) = Some 1"
    "find_idx (\<lambda>p. pstate p = UNUSED) (ptable demo_kernel) = Some 1"
    by (simp_all add: demo_kernel_def demo_proc_def files.extend_def numeral_eq_Suc)
  moreover from this have "kill 0 demo_kernel = (0, snd (kill 0 demo_kernel))" by (simp add: kill_def)
  ultimately show ?thesis
    using kill_free_slot_poisons_fork[of demo_kernel "snd (kill 0 demo_kernel)" 1] by metis
qed

end
