(* ===== verification/Printf.thy ===== *)
theory Printf
  imports CString
begin

text \<open>
  Formatted output: \<open>printint\<close> and \<open>cprintf\<close> of the kernel console (\<open>console.c\<close>), \<open>printint\<close> and
  \<open>printf\<close> of the user library (\<open>printf.c\<close>), and \<open>atoi\<close> (\<open>ulib.c\<close>). The result of a print routine is
  the sequence of bytes it hands to \<open>consputc\<close> or \<open>putc\<close>. An argument of a call is a word or a pointer
  to a string, \<open>None\<close> being the null pointer.
\<close>

section \<open>Numbers\<close>

definition ascii :: "string \<Rightarrow> u8 list" where
  "ascii s = map (\<lambda>c. of_nat (of_char c)) s"

abbreviation chr :: "char \<Rightarrow> u8" where
  "chr c \<equiv> of_nat (of_char c)"

definition lower_digits :: "u8 list" where "lower_digits = ascii ''0123456789abcdef''"
definition upper_digits :: "u8 list" where "upper_digits = ascii ''0123456789ABCDEF''"

text \<open>\<open>do buf[i++] = digits[x % base]; while((x /= base) != 0)\<close>; the divisor is 10 or 16.\<close>

function digit_loop :: "u8 list \<Rightarrow> u32 \<Rightarrow> u32 \<Rightarrow> u8 list" where
  "digit_loop ds b x =
     (if b \<le> 1 then []
      else ds ! unat (x mod b) # (if x div b \<noteq> 0 then digit_loop ds b (x div b) else []))"
  by pat_completeness auto
termination
proof (relation "measure (\<lambda>(ds, b, x). unat x)", simp, goal_cases)
  case (1 ds b x)
  then have b: "1 < unat b" by (simp add: word_less_nat_alt not_le)
  have "unat x \<noteq> 0" using 1(2) by (auto simp: unat_eq_0)
  then show ?case using b by (simp add: unat_div)
qed

declare digit_loop.simps [simp del]

text \<open>The contents of \<open>buf\<close> before it is printed from its end.\<close>

definition printint_buf :: "u8 list \<Rightarrow> u32 \<Rightarrow> u32 \<Rightarrow> bool \<Rightarrow> u8 list" where
  "printint_buf ds xx b sg =
     (let neg = (sg \<and> sint xx < 0); x = (if neg then - xx else xx)
      in digit_loop ds b x @ (if neg then [chr CHR ''-''] else []))"

definition printint :: "u32 \<Rightarrow> u32 \<Rightarrow> bool \<Rightarrow> u8 list" where
  "printint xx b sg = rev (printint_buf lower_digits xx b sg)"

definition uprintint :: "u32 \<Rightarrow> u32 \<Rightarrow> bool \<Rightarrow> u8 list" where
  "uprintint xx b sg = rev (printint_buf upper_digits xx b sg)"

text \<open>\<open>while('0' <= *s && *s <= '9') n = n*10 + *s++ - '0'\<close>, on a string without its terminator.\<close>

primrec atoi_loop :: "u32 \<Rightarrow> u8 list \<Rightarrow> u32" where
  "atoi_loop n [] = n"
| "atoi_loop n (c # s) =
     (if chr CHR ''0'' \<le> c \<and> c \<le> chr CHR ''9'' then atoi_loop (n * 10 + ucast c - 48) s else n)"

definition atoi :: "u8 list \<Rightarrow> u32" where
  "atoi s = atoi_loop 0 s"

section \<open>Format strings\<close>

datatype arg = Word u32 | Str "u8 list option"

definition str_bytes :: "u8 list option \<Rightarrow> u8 list" where
  "str_bytes s = (case s of None \<Rightarrow> ascii ''(null)'' | Some s \<Rightarrow> s)"

text \<open>
  \<open>cprintf\<close> of the kernel. Taking an argument that was not passed, or that has the other type, is a
  fault.
\<close>

fun cprintf :: "u8 list \<Rightarrow> arg list \<Rightarrow> fault + u8 list" where
  "cprintf [] args = Inr []"
| "cprintf (c # fmt) args =
     (if c \<noteq> chr CHR ''%'' then bind_res (cprintf fmt args) (\<lambda>r. Inr (c # r))
      else case fmt of
        [] \<Rightarrow> Inr []
      | d # fmt \<Rightarrow>
        if d = chr CHR ''d'' then
          (case args of Word w # args \<Rightarrow> bind_res (cprintf fmt args) (\<lambda>r. Inr (printint w 10 True @ r))
           | _ \<Rightarrow> Inl (Bad_Access ''cprintf''))
        else if d = chr CHR ''x'' \<or> d = chr CHR ''p'' then
          (case args of Word w # args \<Rightarrow> bind_res (cprintf fmt args) (\<lambda>r. Inr (printint w 16 False @ r))
           | _ \<Rightarrow> Inl (Bad_Access ''cprintf''))
        else if d = chr CHR ''s'' then
          (case args of Str s # args \<Rightarrow> bind_res (cprintf fmt args) (\<lambda>r. Inr (str_bytes s @ r))
           | _ \<Rightarrow> Inl (Bad_Access ''cprintf''))
        else if d = chr CHR ''%'' then bind_res (cprintf fmt args) (\<lambda>r. Inr (chr CHR ''%'' # r))
        else bind_res (cprintf fmt args) (\<lambda>r. Inr (chr CHR ''%'' # d # r)))"

text \<open>\<open>printf\<close> of the user library; \<open>st\<close> is the variable \<open>state\<close>, set after a percent sign.\<close>

fun uprintf :: "bool \<Rightarrow> u8 list \<Rightarrow> arg list \<Rightarrow> fault + u8 list" where
  "uprintf st [] args = Inr []"
| "uprintf st (c # fmt) args =
     (if \<not> st then
        (if c = chr CHR ''%'' then uprintf True fmt args
         else bind_res (uprintf False fmt args) (\<lambda>r. Inr (c # r)))
      else if c = chr CHR ''d'' then
        (case args of Word w # args \<Rightarrow> bind_res (uprintf False fmt args) (\<lambda>r. Inr (uprintint w 10 True @ r))
         | _ \<Rightarrow> Inl (Bad_Access ''printf''))
      else if c = chr CHR ''x'' \<or> c = chr CHR ''p'' then
        (case args of Word w # args \<Rightarrow> bind_res (uprintf False fmt args) (\<lambda>r. Inr (uprintint w 16 False @ r))
         | _ \<Rightarrow> Inl (Bad_Access ''printf''))
      else if c = chr CHR ''s'' then
        (case args of Str s # args \<Rightarrow> bind_res (uprintf False fmt args) (\<lambda>r. Inr (str_bytes s @ r))
         | _ \<Rightarrow> Inl (Bad_Access ''printf''))
      else if c = chr CHR ''c'' then
        (case args of Word w # args \<Rightarrow> bind_res (uprintf False fmt args) (\<lambda>r. Inr (ucast w # r))
         | _ \<Rightarrow> Inl (Bad_Access ''printf''))
      else if c = chr CHR ''%'' then bind_res (uprintf False fmt args) (\<lambda>r. Inr (c # r))
      else bind_res (uprintf False fmt args) (\<lambda>r. Inr (chr CHR ''%'' # c # r)))"

section \<open>Properties\<close>

text \<open>The digits as numbers, least significant first.\<close>

function nat_digits :: "nat \<Rightarrow> nat \<Rightarrow> nat list" where
  "nat_digits b n = (if b \<le> 1 then [] else n mod b # (if n div b \<noteq> 0 then nat_digits b (n div b) else []))"
  by pat_completeness auto
termination
  by (relation "measure snd") (auto intro: div_less_dividend simp: not_le div_eq_0_iff)

declare nat_digits.simps [simp del]

lemma digit_loop_nat: "digit_loop ds b x = map (nth ds) (nat_digits (unat b) (unat x))"
proof (induction ds b x rule: digit_loop.induct)
  case (1 ds b x)
  have d: "x div b \<noteq> 0 \<longleftrightarrow> unat x div unat b \<noteq> 0" by (simp add: unat_div[symmetric] unat_eq_0)
  have b: "b \<le> 1 \<longleftrightarrow> unat b \<le> 1" by (simp add: word_le_nat_alt)
  show ?case
    unfolding digit_loop.simps[of ds b x] nat_digits.simps[of "unat b" "unat x"]
    using 1 d b by (simp add: unat_mod unat_div)
qed

lemma nat_digits_length: "2 \<le> b \<Longrightarrow> n < b ^ k \<Longrightarrow> length (nat_digits b n) \<le> max 1 k"
proof (induction b n arbitrary: k rule: nat_digits.induct)
  case (1 b n)
  show ?case
  proof (cases "n div b = 0")
    case True
    then show ?thesis by (simp add: nat_digits.simps[of b n])
  next
    case False
    then obtain j where j: "k = Suc j" using 1(3) by (cases k) auto
    have "n div b < b ^ j" using 1(2,3) j by (simp add: div_less_iff_less_mult mult.commute)
    then have "length (nat_digits b (n div b)) \<le> max 1 j" using 1 False by simp
    moreover have "j \<noteq> 0" using \<open>n div b < b ^ j\<close> False by (cases j) auto
    ultimately show ?thesis using False 1(2) j by (simp add: nat_digits.simps[of b n])
  qed
qed

lemma length_printint_buf:
  assumes "b = 10 \<or> b = 16"
  shows "length (printint_buf ds xx b sg) \<le> 11"
proof -
  have "length (digit_loop ds b x) \<le> 10" for x
  proof -
    have l: "unat x < 4294967296" by (rule unat_u32_less)
    have "unat x < 10 ^ 10" "unat x < 16 ^ 8" using l by simp_all
    then have "length (nat_digits 10 (unat x)) \<le> max 1 10" "length (nat_digits 16 (unat x)) \<le> max 1 8"
      by (intro nat_digits_length; simp)+
    then show ?thesis unfolding digit_loop_nat using assms by auto
  qed
  from this[of xx] this[of "- xx"] show ?thesis by (simp add: printint_buf_def Let_def)
qed

lemma nat_digits_less: "2 \<le> b \<Longrightarrow> d \<in> set (nat_digits b n) \<Longrightarrow> d < b"
proof (induction b n rule: nat_digits.induct)
  case (1 b n)
  then show ?case by (subst (asm) nat_digits.simps) (auto split: if_splits)
qed

lemma decimal_digit: "d < 10 \<Longrightarrow> upper_digits ! d = of_nat (48 + d) \<and> lower_digits ! d = of_nat (48 + d)"
  by (simp add: upper_digits_def lower_digits_def ascii_def numeral_eq_Suc less_Suc_eq nth_Cons') auto

lemma atoi_loop_digits:
  "\<forall>d \<in> set ds. d < 10 \<Longrightarrow>
   atoi_loop n (map (\<lambda>d. of_nat (48 + d)) ds) = foldl (\<lambda>n d. n * 10 + of_nat d) n ds"
proof (induction ds arbitrary: n)
  case (Cons d ds)
  have d: "d < 10" using Cons.prems by simp
  have u: "unat (of_nat (48 + d) :: u8) = 48 + d" "unat (of_nat (48 + d) :: u32) = 48 + d"
    using d by (simp_all add: unsigned_of_nat take_bit_nat_eq_self del: of_nat_add)
  have r: "48 \<le> (of_nat (48 + d) :: u8)" "(of_nat (48 + d) :: u8) \<le> 57"
    unfolding word_le_nat_alt u using d by simp_all
  have "unat (ucast (of_nat (48 + d) :: u8) :: u32) = unat (of_nat (48 + d) :: u32)"
    using d u by (simp add: unsigned_ucast_eq take_bit_nat_eq_self del: of_nat_add)
  then have c: "ucast (of_nat (48 + d) :: u8) = (of_nat (48 + d) :: u32)" by (rule unsigned_word_eqI)
  show ?case using Cons r c by (simp add: algebra_simps)
qed simp

lemma foldl_digits: "2 \<le> b \<Longrightarrow> foldl (\<lambda>n d. n * of_nat b + of_nat d) 0 (rev (nat_digits b n)) = (of_nat n :: u32)"
proof (induction b n rule: nat_digits.induct)
  case (1 b n)
  show ?case
  proof (cases "n div b = 0")
    case True
    then have "n mod b = n" by (metis add.left_neutral div_mult_mod_eq mult_zero_left)
    then show ?thesis using 1(2) True by (simp add: nat_digits.simps[of b n])
  next
    case False
    have "foldl (\<lambda>n d. n * of_nat b + of_nat d) 0 (rev (nat_digits b n)) =
        of_nat (n div b) * of_nat b + (of_nat (n mod b) :: u32)"
      using 1 False by (simp add: nat_digits.simps[of b n])
    also have "\<dots> = of_nat (n div b * b + n mod b)" by (simp only: of_nat_add of_nat_mult)
    also have "\<dots> = of_nat n" by (simp only: div_mult_mod_eq)
    finally show ?thesis .
  qed
qed

lemma printint_digits:
  assumes "0 \<le> sint x"
  shows "uprintint x 10 True = map (\<lambda>d. of_nat (48 + d)) (rev (nat_digits 10 (unat x)))"
    and "printint x 10 True = map (\<lambda>d. of_nat (48 + d)) (rev (nat_digits 10 (unat x)))"
  using assms nat_digits_less[of 10 _ "unat x"] decimal_digit
  by (simp_all add: uprintint_def printint_def printint_buf_def digit_loop_nat rev_map)



end
