(* ===== verification/Syscall.thy ===== *)
theory Syscall
  imports Proc_Sys Printf
begin

text \<open>
  System-call arguments (\<open>syscall.c\<close>). The kernel reads user memory through the page table of the
  current process, as the processor does: an address whose entry is not present, or for a store not
  writable, traps, and a trap taken in kernel mode ends in \<open>panic("trap")\<close>. \<open>None\<close> as a result stands for the return value \<open>-1\<close>.
  The dispatcher takes the table of handlers as an argument.
\<close>

section \<open>User memory seen from the kernel\<close>

definition mmu :: "mem \<Rightarrow> u32 \<Rightarrow> bool \<Rightarrow> u32 \<Rightarrow> u32 option" where
  "mmu m d wr va =
     (let e = pte_of m d va
      in if e AND PTE_P = 0 \<or> wr \<and> e AND PTE_W = 0 then None
         else Some (P2V (PTE_ADDR e) + (va AND 0xFFF)))"

definition uload :: "nat \<Rightarrow> u32 \<Rightarrow> 'a kernel_scheme \<Rightarrow> fault + u8" where
  "uload me a s =
     (case mmu (memory s) (pgdir (ptable s ! me)) False a of
        None \<Rightarrow> Inl (Panic ''trap'')
      | Some k \<Rightarrow> Inr (memory s k))"

definition ustore :: "nat \<Rightarrow> u32 \<Rightarrow> u8 \<Rightarrow> 'a kernel_scheme \<Rightarrow> fault + 'a kernel_scheme" where
  "ustore me a v s =
     (case mmu (memory s) (pgdir (ptable s ! me)) True a of
        None \<Rightarrow> Inl (Panic ''trap'')
      | Some k \<Rightarrow> Inr (s\<lparr>memory := (memory s)(k := v)\<rparr>))"

primrec uloads :: "nat \<Rightarrow> u32 \<Rightarrow> nat \<Rightarrow> 'a kernel_scheme \<Rightarrow> fault + u8 list" where
  "uloads me a 0 s = Inr []"
| "uloads me a (Suc n) s =
     bind_res (uload me a s) (\<lambda>b. bind_res (uloads me (a + 1) n s) (\<lambda>bs. Inr (b # bs)))"

primrec ustores :: "nat \<Rightarrow> u32 \<Rightarrow> u8 list \<Rightarrow> 'a kernel_scheme \<Rightarrow> fault + 'a kernel_scheme" where
  "ustores me a [] s = Inr s"
| "ustores me a (b # bs) s = bind_res (ustore me a b s) (ustores me (a + 1) bs)"

definition word_of :: "u8 list \<Rightarrow> u32" where
  "word_of bs = ucast (bs ! 0) OR push_bit 8 (ucast (bs ! 1)) OR push_bit 16 (ucast (bs ! 2))
     OR push_bit 24 (ucast (bs ! 3))"

definition bytes_of :: "u32 \<Rightarrow> u8 list" where
  "bytes_of v = [ucast v, ucast (drop_bit 8 v), ucast (drop_bit 16 v), ucast (drop_bit 24 v)]"

definition uload32 :: "nat \<Rightarrow> u32 \<Rightarrow> 'a kernel_scheme \<Rightarrow> fault + u32" where
  "uload32 me a s = bind_res (uloads me a 4 s) (\<lambda>bs. Inr (word_of bs))"

definition ustore32 :: "nat \<Rightarrow> u32 \<Rightarrow> u32 \<Rightarrow> 'a kernel_scheme \<Rightarrow> fault + 'a kernel_scheme" where
  "ustore32 me a v s = ustores me a (bytes_of v) s"

section \<open>Fetching arguments\<close>

definition fetchint :: "nat \<Rightarrow> u32 \<Rightarrow> 'a kernel_scheme \<Rightarrow> fault + u32 option" where
  "fetchint me addr s =
     (if addr \<ge> sz (ptable s ! me) \<or> addr + 4 > sz (ptable s ! me) then Inr None
      else bind_res (uload32 me addr s) (\<lambda>v. Inr (Some v)))"

function fetchstr_loop :: "nat \<Rightarrow> u32 \<Rightarrow> u32 \<Rightarrow> u32 \<Rightarrow> 'a kernel_scheme \<Rightarrow> fault + u32 option" where
  "fetchstr_loop me p a ep s =
     (if a < ep
      then bind_res (uload me a s) (\<lambda>c.
           if c = 0 then Inr (Some (a - p)) else fetchstr_loop me p (a + 1) ep s)
      else Inr None)"
  by pat_completeness auto
termination
proof (relation "measure (\<lambda>(me, p, a, ep, s). unat ep - unat a)", simp, goal_cases)
  case (1 me p a ep s c)
  then have "unat (a + 1) = unat a + 1"
    using unat_u32_less[of ep] by (simp add: word_less_nat_alt unat_word_ariths)
  then show ?case using 1 by (simp add: word_less_nat_alt)
qed

declare fetchstr_loop.simps [simp del]

definition fetchstr :: "nat \<Rightarrow> u32 \<Rightarrow> 'a kernel_scheme \<Rightarrow> fault + u32 option" where
  "fetchstr me addr s =
     (if addr \<ge> sz (ptable s ! me) then Inr None
      else fetchstr_loop me addr addr (sz (ptable s ! me)) s)"

text \<open>\<open>eax\<close> is at offset 28 of the trap frame, \<open>esp\<close> at offset 68.\<close>

definition argint :: "nat \<Rightarrow> u32 \<Rightarrow> 'a kernel_scheme \<Rightarrow> fault + u32 option" where
  "argint me n s = fetchint me (read32 (memory s) (tf (ptable s ! me) + 68) + 4 + 4 * n) s"

definition argptr :: "nat \<Rightarrow> u32 \<Rightarrow> u32 \<Rightarrow> 'a kernel_scheme \<Rightarrow> fault + u32 option" where
  "argptr me n len s =
     bind_res (argint me n s) (\<lambda>r. case r of
        None \<Rightarrow> Inr None
      | Some i \<Rightarrow>
        if sint len < 0 \<or> i \<ge> sz (ptable s ! me) \<or> i + len > sz (ptable s ! me) then Inr None
        else Inr (Some i))"

definition argstr :: "nat \<Rightarrow> u32 \<Rightarrow> 'a kernel_scheme \<Rightarrow> fault + (u32 \<times> u32) option" where
  "argstr me n s =
     bind_res (argint me n s) (\<lambda>r. case r of
        None \<Rightarrow> Inr None
      | Some a \<Rightarrow> bind_res (fetchstr me a s) (\<lambda>l. Inr (map_option (\<lambda>l. (a, l)) l)))"

section \<open>Dispatch\<close>

text \<open>\<open>cons_out\<close> collects the bytes \<open>cprintf\<close> has sent to the console.\<close>

record kio = kernel +
  cons_out :: "u8 list"

definition kprint :: "string \<Rightarrow> arg list \<Rightarrow> 'a kio_scheme \<Rightarrow> fault + 'a kio_scheme" where
  "kprint fmt args s =
     bind_res (cprintf (ascii fmt) args) (\<lambda>bs. Inr (s\<lparr>cons_out := cons_out s @ bs\<rparr>))"

definition cstring :: "u8 list \<Rightarrow> u8 list" where
  "cstring bs = takeWhile (\<lambda>b. b \<noteq> 0) bs"

type_synonym 'a handler = "nat \<Rightarrow> nat \<Rightarrow> 'a kio_scheme \<Rightarrow> fault + u32 outcome \<times> 'a kio_scheme"

definition set_eax :: "nat \<Rightarrow> u32 \<Rightarrow> 'a kernel_scheme \<Rightarrow> 'a kernel_scheme" where
  "set_eax me v s = s\<lparr>memory := write32 (memory s) (tf (ptable s ! me) + 28) v\<rparr>"

definition syscall ::
  "'a handler option list \<Rightarrow> nat \<Rightarrow> nat \<Rightarrow> 'a kio_scheme \<Rightarrow> fault + unit outcome \<times> 'a kio_scheme" where
  "syscall tbl c me s =
     (let num = read32 (memory s) (tf (ptable s ! me) + 28)
      in if sint num > 0 \<and> unat num < length tbl \<and> tbl ! unat num \<noteq> None
      then bind_res (the (tbl ! unat num) c me s) (\<lambda>(r, s). case r of
             Blocked \<Rightarrow> Inr (Blocked, s)
           | Done v \<Rightarrow> Inr (Done (), set_eax me v s))
      else bind_res (kprint ''%d %s: unknown sys call %d\<newline>''
               [Word (pid (ptable s ! me)), Str (Some (cstring (pname (ptable s ! me)))), Word num] s)
             (\<lambda>s. Inr (Done (), set_eax me (- 1) s)))"

section \<open>Properties\<close>

text \<open>Every page below the size of the process is mapped, and the size stays below the kernel.\<close>

definition user_space :: "nat \<Rightarrow> 'a kernel_scheme \<Rightarrow> bool" where
  "user_space me s \<longleftrightarrow>
     sz (ptable s ! me) \<le> KERNBASE \<and>
     (\<forall>va < sz (ptable s ! me). present (pte_of (memory s) (pgdir (ptable s ! me)) va))"

lemma uload_user: "user_space me s \<Longrightarrow> a < sz (ptable s ! me) \<Longrightarrow> \<exists>b. uload me a s = Inr b"
  by (auto simp: user_space_def uload_def mmu_def Let_def)

lemma uloads_user:
  "user_space me s \<Longrightarrow> unat a + n \<le> unat (sz (ptable s ! me)) \<Longrightarrow>
   \<exists>bs. uloads me a n s = Inr bs \<and> length bs = n"
proof (induction n arbitrary: a)
  case (Suc n)
  have l: "unat (sz (ptable s ! me)) < 2 ^ 32" using unat_u32_less by simp
  have a: "a < sz (ptable s ! me)" using Suc.prems(2) by (simp add: word_less_nat_alt)
  then obtain b where b: "uload me a s = Inr b" using uload_user Suc.prems(1) by blast
  have "unat (a + 1) = unat a + 1" using Suc.prems(2) l by (simp add: unat_word_ariths)
  then have "unat (a + 1) + n \<le> unat (sz (ptable s ! me))" using Suc.prems(2) by simp
  then obtain bs where "uloads me (a + 1) n s = Inr bs \<and> length bs = n" using Suc.IH[OF Suc.prems(1)] by blast
  then show ?case using b by simp
qed simp

lemma user_range:
  fixes i len z :: u32
  assumes "z \<le> KERNBASE" "i < z" "0 \<le> sint len" "i + len \<le> z"
  shows "unat i + unat len \<le> unat z"
proof -
  have len: "unat len < 2 ^ 31" using assms(3) by (simp only: sint_nonneg_iff)
  have "unat i < unat z" "unat z \<le> 2 ^ 31" using assms(1,2) by (simp_all add: word_less_nat_alt word_le_nat_alt)
  then have "unat (i + len) = unat i + unat len" using len by (simp add: unat_word_ariths)
  then show ?thesis using assms(4) by (simp add: word_le_nat_alt)
qed

lemma fetchint_user:
  assumes "user_space me s"
  shows "\<exists>r. fetchint me a s = Inr r"
proof (cases "a \<ge> sz (ptable s ! me) \<or> a + 4 > sz (ptable s ! me)")
  case False
  then have "unat a + unat (4 :: u32) \<le> unat (sz (ptable s ! me))"
    using assms by (intro user_range) (simp_all add: user_space_def not_le not_less)
  then obtain bs where "uloads me a 4 s = Inr bs" using uloads_user[OF assms, of a 4] by auto
  then show ?thesis using False by (simp add: fetchint_def uload32_def)
qed (simp add: fetchint_def)

lemma fetchstr_loop_user:
  assumes "user_space me s" "p \<le> a" "a \<le> sz (ptable s ! me)"
  shows "\<exists>r. fetchstr_loop me p a (sz (ptable s ! me)) s = Inr r \<and>
    (\<forall>l. r = Some l \<longrightarrow> unat a \<le> unat p + unat l \<and> unat p + unat l < unat (sz (ptable s ! me)) \<and>
      uload me (p + l) s = Inr 0)"
  using assms(2-)
proof (induction "unat (sz (ptable s ! me)) - unat a" arbitrary: a)
  case 0
  then have "\<not> a < sz (ptable s ! me)" by (simp add: word_less_nat_alt)
  then show ?case by (simp add: fetchstr_loop.simps[of me p a])
next
  case (Suc k)
  then have a: "a < sz (ptable s ! me)" by (simp add: word_less_nat_alt)
  obtain c where c: "uload me a s = Inr c" using uload_user[OF assms(1) a] by blast
  have a1: "unat (a + 1) = unat a + 1"
    using a unat_u32_less[of "sz (ptable s ! me)"] by (simp add: word_less_nat_alt unat_word_ariths)
  show ?case
  proof (cases "c = 0")
    case True
    have "unat (a - p) = unat a - unat p" using Suc.prems(1) by (simp add: unat_sub)
    then show ?thesis
      using a c True Suc.prems(1) by (simp add: fetchstr_loop.simps[of me p a] word_le_nat_alt word_less_nat_alt)
  next
    case False
    have "k = unat (sz (ptable s ! me)) - unat (a + 1)" using Suc.hyps(2) a1 by simp
    moreover have "p \<le> a + 1" "a + 1 \<le> sz (ptable s ! me)"
      using Suc.prems a a1 by (simp_all add: word_le_nat_alt word_less_nat_alt)
    ultimately obtain r where "fetchstr_loop me p (a + 1) (sz (ptable s ! me)) s = Inr r \<and>
        (\<forall>l. r = Some l \<longrightarrow> unat (a + 1) \<le> unat p + unat l \<and> unat p + unat l < unat (sz (ptable s ! me)) \<and>
          uload me (p + l) s = Inr 0)" using Suc.hyps(1) by blast
    then show ?thesis using a c False a1 by (auto simp: fetchstr_loop.simps[of me p a])
  qed
qed

text \<open>A process whose only page, at address 0, holds its arguments.\<close>

definition demo_umem :: mem where
  "demo_umem = write32 (write32 (write32 (\<lambda>_. 0) 0x80400000 0x401007) 0x80401000 0x402007) 0x80402004 16"

definition demo_user :: kernel where
  "demo_user = demo_family\<lparr>memory := demo_umem,
     ptable := (ptable demo_family)[1 := (ptable demo_family ! 1)\<lparr>pgdir := 0x80400000, sz := 4096, tf := 0x80403000\<rparr>]\<rparr>"

lemma demo_user_simps [simp]:
  "memory demo_user = demo_umem" "pgdir (ptable demo_user ! Suc 0) = 0x80400000"
  "sz (ptable demo_user ! Suc 0) = 4096" "tf (ptable demo_user ! Suc 0) = 0x80403000"
  "length (ptable demo_user) = 64" "pid (ptable demo_user ! Suc 0) = 2"
  "killed (ptable demo_user ! Suc 0) = 0" "cpu_proc demo_user = [Some 1, None]"
  by (simp_all add: demo_user_def demo_family_def demo_proc_def)

lemma demo_umem_read:
  "read32 demo_umem 0x80400000 = 0x401007" "read32 demo_umem 0x80401000 = 0x402007"
  by (simp_all add: demo_umem_def read32_write32_other aligned_def)

text \<open>The translation only depends on the two entries.\<close>

definition demo_entries :: "mem \<Rightarrow> bool" where
  "demo_entries m \<longleftrightarrow> read32 m 0x80400000 = 0x401007 \<and> read32 m 0x80401000 = 0x402007"

lemma demo_entries_upd:
  "demo_entries m \<Longrightarrow> 0x80402000 \<le> k \<Longrightarrow> demo_entries (m(k := b))"
  by (auto simp: demo_entries_def read32_def)

lemma demo_pte:
  assumes "va < 4096" "demo_entries m"
  shows "pte_of m 0x80400000 va = 0x402007"
proof -
  have "unat va < 4096" using assms(1) by (simp add: word_less_nat_alt)
  then have "unat (PDX va) = 0" "unat (PTX va) = 0" by (simp_all add: unat_PDX unat_PTX)
  then have "PDX va = 0" "PTX va = 0" by (simp_all add: unat_eq_0)
  then show ?thesis
    using assms(2) by (simp add: pte_of_def pde_of_def tab_of_def demo_entries_def PTE_ADDR_def P2V_def)
qed

lemma demo_user_space: "user_space 1 demo_user"
  by (simp add: user_space_def demo_pte demo_entries_def demo_umem_read)

lemma demo_mmu: "va < 4096 \<Longrightarrow> demo_entries m \<Longrightarrow> mmu m 0x80400000 wr va = Some (0x80402000 + va)"
proof -
  assume v: "va < 4096" and d: "demo_entries m"
  have "unat (va AND 0xFFF) = unat va" using v unat_and_mask[of va 12] by (simp add: mask_12 word_less_nat_alt)
  then have "va AND 0xFFF = va" by (rule unsigned_word_eqI)
  then show ?thesis using demo_pte[OF v d] by (simp add: mmu_def PTE_ADDR_def P2V_def)
qed

text \<open>
  C18. Checked pointers are safe. Whatever a user program leaves on its stack, \<open>argptr\<close> and \<open>argstr\<close>
  return without a fault. A block \<open>argptr\<close> accepts lies inside the address space, without a wrap
  around its end, and every byte of it can be read; a string \<open>argstr\<close> accepts ends inside the address
  space.
\<close>

theorem checked_pointers_safe:
  assumes "user_space me s"
  shows "(\<exists>r. argptr me n len s = Inr r \<and>
      (\<forall>p. r = Some p \<longrightarrow> unat p + unat len \<le> unat (sz (ptable s ! me)) \<and>
        (\<exists>bs. uloads me p (unat len) s = Inr bs \<and> length bs = unat len))) \<and>
    (\<exists>r. argstr me n s = Inr r \<and>
      (\<forall>p l. r = Some (p, l) \<longrightarrow> unat p + unat l < unat (sz (ptable s ! me)) \<and>
        uload me (p + l) s = Inr 0))"
proof (intro conjI)
  obtain r where r: "argint me n s = Inr r" using fetchint_user[OF assms] unfolding argint_def by blast
  show "\<exists>r. argptr me n len s = Inr r \<and>
      (\<forall>p. r = Some p \<longrightarrow> unat p + unat len \<le> unat (sz (ptable s ! me)) \<and>
        (\<exists>bs. uloads me p (unat len) s = Inr bs \<and> length bs = unat len))"
  proof (cases r)
    case (Some i)
    let ?bad = "sint len < 0 \<or> i \<ge> sz (ptable s ! me) \<or> i + len > sz (ptable s ! me)"
    show ?thesis
    proof (cases ?bad)
      case False
      then have "unat i + unat len \<le> unat (sz (ptable s ! me))"
        using assms by (intro user_range) (simp_all add: user_space_def not_le not_less)
      moreover from this have "\<exists>bs. uloads me i (unat len) s = Inr bs \<and> length bs = unat len"
        by (rule uloads_user[OF assms])
      ultimately show ?thesis using False r Some by (simp add: argptr_def)
    qed (use r Some in \<open>simp add: argptr_def\<close>)
  qed (use r in \<open>simp add: argptr_def\<close>)
  show "\<exists>r. argstr me n s = Inr r \<and>
      (\<forall>p l. r = Some (p, l) \<longrightarrow> unat p + unat l < unat (sz (ptable s ! me)) \<and> uload me (p + l) s = Inr 0)"
  proof (cases r)
    case (Some a)
    show ?thesis
    proof (cases "a \<ge> sz (ptable s ! me)")
      case False
      then have "\<exists>r. fetchstr_loop me a a (sz (ptable s ! me)) s = Inr r \<and>
          (\<forall>l. r = Some l \<longrightarrow> unat a \<le> unat a + unat l \<and> unat a + unat l < unat (sz (ptable s ! me)) \<and>
            uload me (a + l) s = Inr 0)"
        by (intro fetchstr_loop_user[OF assms]) simp_all
      then show ?thesis using False r Some by (auto simp: argstr_def fetchstr_def)
    qed (use r Some in \<open>simp add: argstr_def fetchstr_def\<close>)
  qed (use r in \<open>simp add: argstr_def\<close>)
qed

theorem checked_pointers_safe_witness:
  "(\<exists>r. argptr 1 0 100 demo_user = Inr r) \<and> (\<exists>r. argstr 1 0 demo_user = Inr r)"
  using checked_pointers_safe[OF demo_user_space, of 0 100] by blast

end
