(* ===== verification/Sysproc.thy ===== *)
theory Sysproc
  imports Syscall
begin

text \<open>
  The system calls on processes (\<open>sysproc.c\<close>): the standard ones and the added \<open>getppid\<close>, \<open>getprocs\<close>,
  \<open>set_priority\<close>, \<open>cps\<close>, \<open>waitx\<close>, \<open>waitpid\<close>, \<open>sigkill\<close>, \<open>shmem\<close>, \<open>fork2\<close> and \<open>getncpu\<close>. A call that
  sleeps inside a loop is entered again at the head of the loop when the process runs again.
\<close>

section \<open>Handlers\<close>

record sysproc = kio +
  shm_pages :: "u32 list"
  ncpu :: u32

text \<open>\<open>if(argint(n, &x) < 0) return -1;\<close> followed by the rest of the handler.\<close>

definition with_argint ::
  "nat \<Rightarrow> u32 \<Rightarrow> (u32 \<Rightarrow> fault + u32 outcome \<times> 'a kernel_scheme) \<Rightarrow> 'a kernel_scheme \<Rightarrow>
   fault + u32 outcome \<times> 'a kernel_scheme" where
  "with_argint me n k s =
     bind_res (argint me n s) (\<lambda>r. case r of None \<Rightarrow> Inr (Done (- 1), s) | Some v \<Rightarrow> k v)"

definition returns :: "u32 \<times> 'a \<Rightarrow> fault + u32 outcome \<times> 'a" where
  "returns r = Inr (Done (fst r), snd r)"

definition sys_fork :: "nat \<Rightarrow> nat \<Rightarrow> 'a kernel_scheme \<Rightarrow> fault + u32 outcome \<times> 'a kernel_scheme" where
  "sys_fork c me s = bind_res (fork me s) returns"

definition sys_wait :: "nat \<Rightarrow> nat \<Rightarrow> 'a kernel_scheme \<Rightarrow> fault + u32 outcome \<times> 'a kernel_scheme" where
  "sys_wait c me s = wait c me s"

definition sys_kill :: "nat \<Rightarrow> nat \<Rightarrow> 'a kernel_scheme \<Rightarrow> fault + u32 outcome \<times> 'a kernel_scheme" where
  "sys_kill c me s = with_argint me 0 (\<lambda>x. returns (kill x s)) s"

definition sys_getpid :: "nat \<Rightarrow> nat \<Rightarrow> 'a kernel_scheme \<Rightarrow> fault + u32 outcome \<times> 'a kernel_scheme" where
  "sys_getpid c me s = returns (pid (ptable s ! me), s)"

definition sys_sbrk :: "nat \<Rightarrow> nat \<Rightarrow> 'a kernel_scheme \<Rightarrow> fault + u32 outcome \<times> 'a kernel_scheme" where
  "sys_sbrk c me s = with_argint me 0 (\<lambda>n.
     let addr = sz (ptable s ! me)
     in bind_res (growproc n me s) (\<lambda>(r, s).
          if sint r < 0 then returns (- 1, s) else returns (addr, s))) s"

text \<open>
  The loop of \<open>sleep\<close>; \<open>ticks - ticks0\<close> is unsigned, so \<open>n\<close> is compared as an unsigned number.
\<close>

definition sys_sleep_loop ::
  "u32 \<Rightarrow> u32 \<Rightarrow> nat \<Rightarrow> nat \<Rightarrow> 'a kernel_scheme \<Rightarrow> fault + u32 outcome \<times> 'a kernel_scheme" where
  "sys_sleep_loop n ticks0 c me s =
     (if ticks s - ticks0 < n
      then if killed (ptable s ! me) \<noteq> 0 then returns (- 1, s)
        else bind_res (sleep c me Ticks_chan s) (\<lambda>s. Inr (Blocked, s))
      else returns (0, s))"

definition sys_sleep :: "nat \<Rightarrow> nat \<Rightarrow> 'a kernel_scheme \<Rightarrow> fault + u32 outcome \<times> 'a kernel_scheme" where
  "sys_sleep c me s = with_argint me 0 (\<lambda>n. sys_sleep_loop n (ticks s) c me s) s"

definition sys_uptime :: "nat \<Rightarrow> nat \<Rightarrow> 'a kernel_scheme \<Rightarrow> fault + u32 outcome \<times> 'a kernel_scheme" where
  "sys_uptime c me s = returns (ticks s, s)"

definition sys_getppid :: "nat \<Rightarrow> nat \<Rightarrow> 'a kernel_scheme \<Rightarrow> fault + u32 outcome \<times> 'a kernel_scheme" where
  "sys_getppid c me s =
     (case parent (ptable s ! me) of
        None \<Rightarrow> returns (- 1, s)
      | Some p \<Rightarrow> returns (pid (ptable s ! p), s))"

definition sys_getprocs :: "nat \<Rightarrow> nat \<Rightarrow> 'a kernel_scheme \<Rightarrow> fault + u32 outcome \<times> 'a kernel_scheme" where
  "sys_getprocs c me s =
     returns (fold (\<lambda>p count. if pstate p \<noteq> UNUSED then count + 1 else count) (ptable s) 0, s)"

definition sys_set_priority :: "nat \<Rightarrow> nat \<Rightarrow> 'a kernel_scheme \<Rightarrow> fault + u32 outcome \<times> 'a kernel_scheme" where
  "sys_set_priority c me s = with_argint me 0 (\<lambda>x. with_argint me 1 (\<lambda>prio.
     if sint prio < 0 \<or> sint prio > 100 then returns (- 1, s)
     else case find_idx (\<lambda>p. pid p = x) (ptable s) of
        None \<Rightarrow> returns (- 1, s)
      | Some i \<Rightarrow> returns (priority (ptable s ! i), upd_proc i (\<lambda>p. p\<lparr>priority := prio\<rparr>) s)) s) s"

definition state_name :: "procstate \<Rightarrow> string" where
  "state_name x = (case x of UNUSED \<Rightarrow> ''unused'' | EMBRYO \<Rightarrow> ''embryo'' | SLEEPING \<Rightarrow> ''sleep ''
     | RUNNABLE \<Rightarrow> ''runble'' | RUNNING \<Rightarrow> ''run   '' | ZOMBIE \<Rightarrow> ''zombie'')"

primrec cps_loop :: "proc list \<Rightarrow> 'a kio_scheme \<Rightarrow> fault + 'a kio_scheme" where
  "cps_loop [] s = Inr s"
| "cps_loop (p # ps) s =
     (if pstate p = UNUSED then cps_loop ps s
      else bind_res (kprint (''%d'' @ [CHR 9] @ ''%s'' @ [CHR 9] @ ''%d'' @ [CHR 9] @ ''%s'' @ [CHR 10])
             [Word (pid p), Str (Some (ascii (state_name (pstate p)))), Word (priority p),
              Str (Some (cstring (pname p)))] s) (cps_loop ps))"

definition sys_cps :: "nat \<Rightarrow> nat \<Rightarrow> 'a kio_scheme \<Rightarrow> fault + u32 outcome \<times> 'a kio_scheme" where
  "sys_cps c me s =
     bind_res (kprint ([CHR 10] @ ''PID'' @ [CHR 9] @ ''State'' @ [CHR 9] @ ''Prio'' @ [CHR 9] @ ''Name'' @ [CHR 10]) [] s)
       (\<lambda>s. bind_res (cps_loop (ptable s) s) (\<lambda>s. returns (0, s)))"

text \<open>
  One pass of \<open>waitx\<close> over the table. The two results go to the addresses the caller passed as
  plain integers.
\<close>

function waitx_scan ::
  "u32 \<Rightarrow> u32 \<Rightarrow> nat \<Rightarrow> nat \<Rightarrow> bool \<Rightarrow> 'a kernel_scheme \<Rightarrow> fault + (u32 + bool) \<times> 'a kernel_scheme" where
  "waitx_scan wtime_addr rtime_addr me i havekids s =
     (if i < length (ptable s)
      then let p = ptable s ! i
        in if parent p \<noteq> Some me then waitx_scan wtime_addr rtime_addr me (i + 1) havekids s
        else if pstate p = ZOMBIE
        then bind_res (ustore32 me wtime_addr (etime p - ctime p - rtime p) s) (\<lambda>s.
             bind_res (ustore32 me rtime_addr (rtime p) s) (\<lambda>s.
             bind_res (kfree (kstack p) s) (\<lambda>s.
             bind_res (freevm (pgdir p) (upd_proc i (\<lambda>p. p\<lparr>kstack := 0\<rparr>) s)) (\<lambda>s.
             Inr (Inl (pid p), upd_proc i (\<lambda>p. p\<lparr>pid := 0, parent := None, pname := (pname p)[0 := 0],
                                 killed := 0, pstate := UNUSED\<rparr>) s)))))
        else waitx_scan wtime_addr rtime_addr me (i + 1) True s
      else Inr (Inr havekids, s))"
  by pat_completeness auto
termination by (relation "measure (\<lambda>(w, r, me, i, h, s). length (ptable s) - i)") auto

declare waitx_scan.simps [simp del]

definition waitx_loop ::
  "u32 \<Rightarrow> u32 \<Rightarrow> nat \<Rightarrow> nat \<Rightarrow> 'a kernel_scheme \<Rightarrow> fault + u32 outcome \<times> 'a kernel_scheme" where
  "waitx_loop wtime_addr rtime_addr c me s =
     bind_res (waitx_scan wtime_addr rtime_addr me 0 False s) (\<lambda>(r, s).
       case r of
         Inl x \<Rightarrow> returns (x, s)
       | Inr havekids \<Rightarrow>
           if \<not> havekids \<or> killed (ptable s ! me) \<noteq> 0 then returns (- 1, s)
           else bind_res (sleep c me (Proc_chan me) s) (\<lambda>s. Inr (Blocked, s)))"

definition sys_waitx :: "nat \<Rightarrow> nat \<Rightarrow> 'a kernel_scheme \<Rightarrow> fault + u32 outcome \<times> 'a kernel_scheme" where
  "sys_waitx c me s = with_argint me 0 (\<lambda>w. with_argint me 1 (\<lambda>r. waitx_loop w r c me s) s) s"

function waitpid_scan ::
  "u32 \<Rightarrow> nat \<Rightarrow> nat \<Rightarrow> bool \<Rightarrow> 'a kernel_scheme \<Rightarrow> fault + (u32 + bool) \<times> 'a kernel_scheme" where
  "waitpid_scan x me i found s =
     (if i < length (ptable s)
      then let p = ptable s ! i
        in if parent p \<noteq> Some me \<or> pid p \<noteq> x then waitpid_scan x me (i + 1) found s
        else if pstate p = ZOMBIE
        then bind_res (kfree (kstack p) s) (\<lambda>s.
             bind_res (freevm (pgdir p) (upd_proc i (\<lambda>p. p\<lparr>kstack := 0\<rparr>) s)) (\<lambda>s.
             Inr (Inl (pid p), upd_proc i (\<lambda>p. p\<lparr>pstate := UNUSED, pid := 0, parent := None,
                                 pname := (pname p)[0 := 0], killed := 0\<rparr>) s)))
        else waitpid_scan x me (i + 1) True s
      else Inr (Inr found, s))"
  by pat_completeness auto
termination by (relation "measure (\<lambda>(x, me, i, h, s). length (ptable s) - i)") auto

declare waitpid_scan.simps [simp del]

definition waitpid_loop ::
  "u32 \<Rightarrow> nat \<Rightarrow> nat \<Rightarrow> 'a kernel_scheme \<Rightarrow> fault + u32 outcome \<times> 'a kernel_scheme" where
  "waitpid_loop x c me s =
     bind_res (waitpid_scan x me 0 False s) (\<lambda>(r, s).
       case r of
         Inl x \<Rightarrow> returns (x, s)
       | Inr found \<Rightarrow>
           if \<not> found \<or> killed (ptable s ! me) \<noteq> 0 then returns (- 1, s)
           else bind_res (sleep c me (Proc_chan me) s) (\<lambda>s. Inr (Blocked, s)))"

definition sys_waitpid :: "nat \<Rightarrow> nat \<Rightarrow> 'a kernel_scheme \<Rightarrow> fault + u32 outcome \<times> 'a kernel_scheme" where
  "sys_waitpid c me s = with_argint me 0 (\<lambda>x. waitpid_loop x c me s) s"

definition sys_sigkill :: "nat \<Rightarrow> nat \<Rightarrow> 'a kernel_scheme \<Rightarrow> fault + u32 outcome \<times> 'a kernel_scheme" where
  "sys_sigkill c me s = with_argint me 0 (\<lambda>x. returns (kill x s)) s"

definition sys_fork2 :: "nat \<Rightarrow> nat \<Rightarrow> 'a kernel_scheme \<Rightarrow> fault + u32 outcome \<times> 'a kernel_scheme" where
  "sys_fork2 c me s = with_argint me 0 (\<lambda>prio. bind_res (fork2 prio me s) returns) s"

definition sys_getncpu :: "nat \<Rightarrow> nat \<Rightarrow> 'a sysproc_scheme \<Rightarrow> fault + u32 outcome \<times> 'a sysproc_scheme" where
  "sys_getncpu c me s = returns (ncpu s, s)"

text \<open>\<open>SHM_NKEYS\<close> is 4. The page of a key is allocated once and its contents are copied on each call.\<close>

definition sys_shmem :: "nat \<Rightarrow> nat \<Rightarrow> 'a sysproc_scheme \<Rightarrow> fault + u32 outcome \<times> 'a sysproc_scheme" where
  "sys_shmem c me s =
     bind_res (argint me 0 s) (\<lambda>r. case r of
        None \<Rightarrow> returns (- 1, s)
      | Some key \<Rightarrow>
        if sint key < 0 \<or> sint key \<ge> 4 then returns (- 1, s)
        else
          let k = unat key;
              s = (if shm_pages s ! k = 0
                   then case kalloc s of (p, s) \<Rightarrow>
                     (let s = s\<lparr>shm_pages := (shm_pages s)[k := p]\<rparr>
                      in if p = 0 then s else s\<lparr>memory := memset (memory s) p 0 4096\<rparr>)
                   else s)
          in if shm_pages s ! k = 0 then returns (- 1, s)
          else
            let va = sz (ptable s ! me)
            in bind_res (growproc 4096 me s) (\<lambda>(r, s).
               if sint r < 0 then returns (- 1, s)
               else bind_res (copyout (pgdir (ptable s ! me)) va (shm_pages s ! k) 4096 s) (\<lambda>(r, s).
               if sint r < 0 then returns (- 1, s) else returns (va, s))))"

section \<open>The process table under the handlers\<close>

lemma returns_Inr [simp]: "returns p = Inr (r, s) \<longleftrightarrow> r = Done (fst p) \<and> s = snd p"
  by (auto simp: returns_def)

lemma with_argint_cases:
  assumes "with_argint me n k s = Inr (r, s')"
  obtains "s' = s" "r = Done (- 1)" | v where "k v = Inr (r, s')"
  using assms by (auto simp: with_argint_def bind_res_Inr_iff split: option.splits)

lemma ustores_ktab: "ustores me a bs s = Inr s' \<Longrightarrow> ktab_same s s'"
proof (induction bs arbitrary: a s)
  case (Cons b bs)
  then obtain t where t: "ustore me a b s = Inr t" "ustores me (a + 1) bs t = Inr s'"
    by (auto simp: bind_res_Inr_iff)
  have "ktab_same s t" using t(1) by (auto simp: ustore_def ktab_same_def split: option.splits)
  moreover have "ktab_same t s'" using Cons.IH t(2) by blast
  ultimately show ?case by (simp add: ktab_same_def)
qed simp

lemma ustore32_ktab: "ustore32 me a v s = Inr s' \<Longrightarrow> ktab_same s s'"
  by (auto simp: ustore32_def intro: ustores_ktab)

text \<open>The teardown of a zombie in slot \<open>i\<close>, in the order of fields of each of the three callers.\<close>

lemma teardown_reaped:
  assumes "i < length (ptable s)" "pstate (ptable s ! i) = ZOMBIE" "ktab_same s t"
    and "kfree a t = Inr t1" "freevm d (upd_proc i (\<lambda>p. p\<lparr>kstack := 0\<rparr>) t1) = Inr t2"
    and f: "\<And>p. pstate (f p) = UNUSED \<and> parent (f p) = None \<and> pid (f p) = 0 \<and> killed (f p) = 0"
  shows "reaped i s (upd_proc i f t2)"
proof -
  have "ktab_same t t1" using kmem_same_kfree[OF assms(4)] by (rule kmem_same_ktab)
  moreover have "ktab_same (upd_proc i (\<lambda>p. p\<lparr>kstack := 0\<rparr>) t1) t2"
    using keepsD[OF keeps_freevm[OF kmem_same_refl] assms(5)] by (simp add: kmem_same_ktab)
  ultimately show ?thesis
    unfolding reaped_def using assms(1-3) f by (auto simp: ktab_same_def)
qed

lemma waitx_scan_effect:
  "waitx_scan w v me n h s = Inr (r, s') \<Longrightarrow>
   (case r of
      Inl x \<Rightarrow> \<exists>i t. n \<le> i \<and> parent (ptable s ! i) = Some me \<and> x = pid (ptable s ! i) \<and> reaped i s s' \<and>
        ustore32 me w (etime (ptable s ! i) - ctime (ptable s ! i) - rtime (ptable s ! i)) s = Inr t
    | Inr h' \<Rightarrow> s' = s)"
proof (induction "length (ptable s) - n" arbitrary: n h)
  case 0
  then show ?case by (auto simp: waitx_scan.simps[of w v me n])
next
  case (Suc k)
  have n: "n < length (ptable s)" using Suc.hyps(2) by simp
  have k: "k = length (ptable s) - (n + 1)" using Suc.hyps(2) by simp
  show ?case
  proof (cases "parent (ptable s ! n) = Some me \<and> pstate (ptable s ! n) = ZOMBIE")
    case False
    then obtain h' where "waitx_scan w v me (n + 1) h' s = Inr (r, s')"
      using Suc.prems n by (auto simp: waitx_scan.simps[of w v me n] Let_def split: if_splits)
    from Suc.hyps(1)[OF k this] show ?thesis by (auto split: sum.splits intro: Suc_leD)
  next
    case True
    let ?p = "ptable s ! n"
    obtain t0 t1 t2 t3 where t: "ustore32 me w (etime ?p - ctime ?p - rtime ?p) s = Inr t0"
      "ustore32 me v (rtime ?p) t0 = Inr t1" "kfree (kstack ?p) t1 = Inr t2"
      "freevm (pgdir ?p) (upd_proc n (\<lambda>p. p\<lparr>kstack := 0\<rparr>) t2) = Inr t3"
      "r = Inl (pid ?p)" "s' = upd_proc n (\<lambda>p. p\<lparr>pid := 0, parent := None, pname := (pname p)[0 := 0],
         killed := 0, pstate := UNUSED\<rparr>) t3"
      using Suc.prems n True by (auto simp: waitx_scan.simps[of w v me n] bind_res_Inr_iff Let_def)
    have "ktab_same s t1" using ustore32_ktab[OF t(1)] ustore32_ktab[OF t(2)] by (simp add: ktab_same_def)
    then have "reaped n s s'" unfolding t(6) using n True by (intro teardown_reaped[OF _ _ _ t(3,4)]) simp_all
    then show ?thesis using t(1,5) True by auto
  qed
qed

lemma waitpid_scan_effect:
  "waitpid_scan x me n h s = Inr (r, s') \<Longrightarrow>
   (case r of
      Inl y \<Rightarrow> \<exists>i. n \<le> i \<and> parent (ptable s ! i) = Some me \<and> pid (ptable s ! i) = x \<and> y = x \<and> reaped i s s'
    | Inr h' \<Rightarrow> s' = s \<and>
        (h' \<longleftrightarrow> h \<or> (\<exists>i < length (ptable s). n \<le> i \<and> parent (ptable s ! i) = Some me \<and> pid (ptable s ! i) = x)) \<and>
        (\<forall>i < length (ptable s). n \<le> i \<longrightarrow> parent (ptable s ! i) = Some me \<longrightarrow> pid (ptable s ! i) = x \<longrightarrow>
           pstate (ptable s ! i) \<noteq> ZOMBIE))"
proof (induction "length (ptable s) - n" arbitrary: n h)
  case 0
  then show ?case by (auto simp: waitpid_scan.simps[of x me n])
next
  case (Suc k)
  have n: "n < length (ptable s)" using Suc.hyps(2) by simp
  have k: "k = length (ptable s) - (n + 1)" using Suc.hyps(2) by simp
  have le: "n \<le> i \<longleftrightarrow> i = n \<or> n + 1 \<le> i" for i by auto
  let ?p = "ptable s ! n"
  consider (other) "\<not> (parent ?p = Some me \<and> pid ?p = x)"
    | (zombie) "parent ?p = Some me" "pid ?p = x" "pstate ?p = ZOMBIE"
    | (alive) "parent ?p = Some me" "pid ?p = x" "pstate ?p \<noteq> ZOMBIE" by blast
  then show ?case
  proof cases
    case other
    then have "waitpid_scan x me (n + 1) h s = Inr (r, s')"
      using Suc.prems n by (auto simp: waitpid_scan.simps[of x me n] Let_def)
    from Suc.hyps(1)[OF k this] show ?thesis unfolding le using other n by (auto split: sum.splits)
  next
    case alive
    then have "waitpid_scan x me (n + 1) True s = Inr (r, s')"
      using Suc.prems n by (simp add: waitpid_scan.simps[of x me n])
    from Suc.hyps(1)[OF k this] show ?thesis unfolding le using alive n by (auto split: sum.splits)
  next
    case zombie
    obtain t2 t3 where t: "kfree (kstack ?p) s = Inr t2"
      "freevm (pgdir ?p) (upd_proc n (\<lambda>p. p\<lparr>kstack := 0\<rparr>) t2) = Inr t3"
      "r = Inl (pid ?p)" "s' = upd_proc n (\<lambda>p. p\<lparr>pstate := UNUSED, pid := 0, parent := None,
         pname := (pname p)[0 := 0], killed := 0\<rparr>) t3"
      using Suc.prems n zombie by (auto simp: waitpid_scan.simps[of x me n] bind_res_Inr_iff Let_def)
    have "reaped n s s'" unfolding t(4) using n zombie(3) by (intro teardown_reaped[OF _ _ ktab_same_refl t(1,2)]) simp_all
    then show ?thesis using t(3) zombie by auto
  qed
qed

text \<open>What a handler that waits for a child may do to the table.\<close>

definition wait_effects :: "nat \<Rightarrow> nat \<Rightarrow> 'a kernel_scheme \<Rightarrow> 'a kernel_scheme \<Rightarrow> bool" where
  "wait_effects c me s s' \<longleftrightarrow> s' = s \<or> (\<exists>i. reaped i s s') \<or> leaves c me SLEEPING s s'"

lemma wait_effects_inv: "wait_effects c me s s' \<Longrightarrow> proc_inv s \<Longrightarrow> on_cpu c me s \<Longrightarrow> proc_inv s'"
  by (auto simp: wait_effects_def intro: reaped_inv leaves_inv)

lemma waitx_loop_effects:
  assumes "waitx_loop w v c me s = Inr (r, s')" "me < length (ptable s)"
  shows "wait_effects c me s s'"
proof -
  obtain x t where t: "waitx_scan w v me 0 False s = Inr (x, t)"
    using assms(1) by (auto simp: waitx_loop_def bind_res_Inr_iff)
  show ?thesis
    using waitx_scan_effect[OF t] assms t leaves_sleep[of c me "Proc_chan me" s]
    by (cases x) (auto simp: waitx_loop_def wait_effects_def bind_res_Inr_iff split: if_splits)
qed

lemma waitpid_loop_effects:
  assumes "waitpid_loop x c me s = Inr (r, s')" "me < length (ptable s)"
  shows "wait_effects c me s s'"
proof -
  obtain y t where t: "waitpid_scan x me 0 False s = Inr (y, t)"
    using assms(1) by (auto simp: waitpid_loop_def bind_res_Inr_iff)
  show ?thesis
    using waitpid_scan_effect[OF t] assms t leaves_sleep[of c me "Proc_chan me" s]
    by (cases y) (auto simp: waitpid_loop_def wait_effects_def bind_res_Inr_iff split: if_splits)
qed

lemma demo_user_inv: "proc_inv demo_user"
proof (rule wake_only_inv[OF _ demo_family_inv])
  show "wake_only demo_family demo_user"
    by (auto simp: wake_only_def demo_user_def fixed_fields_def nth_upd)
qed

lemma demo_user_cpu: "on_cpu 0 1 demo_user"
  by (simp add: on_cpu_def)

lemma kill_inv: "proc_inv s \<Longrightarrow> proc_inv (snd (kill x s))"
  using wake_only_inv[OF wake_only_kill, of x s] by (metis prod.collapse)

lemma set_priority_wake_only: "find_idx P (ptable s) = Some i \<Longrightarrow> wake_only s (upd_proc i (\<lambda>p. p\<lparr>priority := x\<rparr>) s)"
  by (auto simp: wake_only_def fixed_fields_def nth_upd)

lemma sys_fork_inv:
  assumes "proc_inv s" "on_cpu c me s" "unat (nextpid s) < 2 ^ 31 - 1" "fork me s = Inr (r, s')"
  shows "proc_inv s'"
  using fork_effect[OF assms(4)] fork_inv[OF assms(1-3)] by blast

lemma sys_fork2_inv:
  assumes "proc_inv s" "on_cpu c me s" "unat (nextpid s) < 2 ^ 31 - 1" "fork2 x me s = Inr (r, s')"
  shows "proc_inv s'"
  using fork2_effect[OF assms(4)] fork_inv[OF assms(1-3)] by blast



text \<open>
  C21. \<open>waitpid\<close> on every branch. It reaps the child with the given pid, and nothing else, once it is a
  zombie; it returns \<open>-1\<close> without a change only when the caller has no such child or was killed; it
  sleeps only while that child exists and is not a zombie.
\<close>

theorem waitpid_branches:
  assumes inv: "proc_inv s" and on: "on_cpu c me s" and w: "waitpid_loop x c me s = Inr (r, s')"
  shows "(r = Done x \<and> (\<exists>i < 64. pstate (ptable s ! i) = ZOMBIE \<and> parent (ptable s ! i) = Some me \<and>
        pid (ptable s ! i) = x \<and> pstate (ptable s' ! i) = UNUSED \<and>
        (\<forall>j < 64. j \<noteq> i \<longrightarrow> ptable s' ! j = ptable s ! j))) \<or>
    (r = Done (- 1) \<and> s' = s \<and>
        ((\<forall>i < 64. parent (ptable s ! i) = Some me \<longrightarrow> pid (ptable s ! i) \<noteq> x) \<or> killed (ptable s ! me) \<noteq> 0)) \<or>
    (r = Blocked \<and> pstate (ptable s' ! me) = SLEEPING \<and>
        (\<exists>i < 64. parent (ptable s ! i) = Some me \<and> pid (ptable s ! i) = x \<and> pstate (ptable s ! i) \<noteq> ZOMBIE))"
proof -
  note v = proc_invD[OF inv] and me = on_cpuD(1)[OF inv on]
  obtain y t where t: "waitpid_scan x me 0 False s = Inr (y, t)"
    using w by (auto simp: waitpid_loop_def bind_res_Inr_iff)
  note e = waitpid_scan_effect[OF t]
  show ?thesis
  proof (cases y)
    case (Inl z)
    then obtain i where i: "parent (ptable s ! i) = Some me" "pid (ptable s ! i) = x" "z = x" "reaped i s t"
      using e by auto
    then have "pstate (ptable t ! i) = UNUSED" "\<forall>j < 64. j \<noteq> i \<longrightarrow> ptable t ! j = ptable s ! j"
      by (auto simp: reaped_def)
    then show ?thesis using i w t Inl v(1) by (auto simp: waitpid_loop_def reaped_def)
  next
    case (Inr h)
    then have h: "t = s" "h \<longleftrightarrow> (\<exists>i < 64. parent (ptable s ! i) = Some me \<and> pid (ptable s ! i) = x)"
      "\<forall>i < 64. parent (ptable s ! i) = Some me \<longrightarrow> pid (ptable s ! i) = x \<longrightarrow> pstate (ptable s ! i) \<noteq> ZOMBIE"
      using e v(1) by auto
    show ?thesis
    proof (cases "\<not> h \<or> killed (ptable s ! me) \<noteq> 0")
      case True
      then show ?thesis using h w t Inr by (auto simp: waitpid_loop_def)
    next
      case False
      then have sl: "sleep c me (Proc_chan me) s = Inr s'" "r = Blocked"
        using w t Inr h(1) by (auto simp: waitpid_loop_def bind_res_Inr_iff)
      then have "leaves c me SLEEPING s s'" using leaves_sleep me by blast
      then obtain q where "ptable s' = (ptable s)[me := q]" "pstate q = SLEEPING" unfolding leaves_def by blast
      then have "pstate (ptable s' ! me) = SLEEPING" using me by simp
      then show ?thesis using sl(2) h(2,3) False by blast
    qed
  qed
qed

theorem waitpid_branches_witness:
  "\<exists>s'. waitpid_loop 5 0 1 demo_user = Inr (Done (- 1), s')"
proof -
  have np: "parent (ptable demo_user ! i) \<noteq> Some 1" if "i < 64" for i
    using that by (simp add: demo_user_def demo_family_def demo_kernel_def demo_proc_def nth_append nth_Cons' nth_upd)
  have "waitpid_scan 5 1 n False demo_user = Inr (Inr False, demo_user)" for n
  proof (induction "64 - n" arbitrary: n)
    case 0
    then show ?case by (simp add: waitpid_scan.simps[of _ _ n])
  next
    case (Suc k)
    then show ?case using np[of n] by (simp add: waitpid_scan.simps[of _ _ n])
  qed
  then have w: "waitpid_loop 5 0 1 demo_user = Inr (Done (- 1), demo_user)"
    by (simp add: waitpid_loop_def returns_def)
  from waitpid_branches[OF demo_user_inv demo_user_cpu w] w show ?thesis by blast
qed


text \<open>The running process has a zombie child that was charged a tick in the tick it was created.\<close>

definition demo_zombie :: kernel where
  "demo_zombie = demo_user\<lparr>nextpid := 4, ticks := 5, ptable := (ptable demo_user)[2 := demo_proc\<lparr>
     pstate := ZOMBIE, pid := 3, parent := Some 1, kstack := 0x80404000, pgdir := 0x80405000,
     ctime := 5, etime := 5, rtime := 1\<rparr>]\<rparr>"

lemma demo_zombie_slot:
  "ptable demo_zombie ! n = (if n = 2 then demo_proc\<lparr>
     pstate := ZOMBIE, pid := 3, parent := Some 1, kstack := 0x80404000, pgdir := 0x80405000,
     ctime := 5, etime := 5, rtime := 1\<rparr> else ptable demo_user ! n)"
  by (simp add: demo_zombie_def nth_upd)

lemma demo_user_slot:
  "n < 64 \<Longrightarrow> pstate (ptable demo_user ! n) = (if n = 0 then SLEEPING else if n = 1 then RUNNING else UNUSED)"
  "n < 64 \<Longrightarrow> pid (ptable demo_user ! n) = (if n = 0 then 1 else if n = 1 then 2 else 0)"
  "n < 64 \<Longrightarrow> parent (ptable demo_user ! n) = (if n = 1 then Some 0 else None)"
  "n < 64 \<Longrightarrow> rtime (ptable demo_user ! n) = 0" "n < 64 \<Longrightarrow> ctime (ptable demo_user ! n) = 0"
  by (auto simp: demo_user_def demo_family_def demo_kernel_def demo_proc_def nth_append nth_Cons' nth_upd)

lemma demo_zombie_inv: "proc_inv demo_zombie"
proof -
  let ?s = demo_zombie
  have l: "length (ptable ?s) = 64" and c: "cpu_proc ?s = [Some 1, None]"
    and i: "initproc ?s = Some 0" "nextpid ?s = 4" "ticks ?s = 5"
    by (simp_all add: demo_zombie_def demo_user_def demo_family_def demo_kernel_def files.extend_def)
  have st: "pstate (ptable ?s ! n) = (if n = 0 then SLEEPING else if n = 1 then RUNNING else if n = 2 then ZOMBIE else UNUSED)"
    "pid (ptable ?s ! n) = (if n = 0 then 1 else if n = 1 then 2 else if n = 2 then 3 else 0)"
    "parent (ptable ?s ! n) = (if n = 1 then Some 0 else if n = 2 then Some 1 else None)" if "n < 64" for n
    using that by (auto simp: demo_zombie_slot demo_user_slot)
  have "cpu_inv ?s" unfolding cpu_inv_def l c by (auto simp: st nth_Cons' less_Suc_eq)
  moreover have "pid_inv ?s" unfolding pid_inv_def l i by (auto simp: st)
  moreover have "parent_inv ?s" using i l by (intro parent_invI[of _ 0]) (auto simp: st live_def split: if_splits)
  moreover have "time_inv ?s" unfolding time_inv_def l i
    by (auto simp: time_ok_def demo_zombie_slot demo_user_slot)
  ultimately show ?thesis using l by (simp add: proc_inv_def)
qed

lemma demo_ustore32:
  assumes "pgdir (ptable s ! me) = 0x80400000" "demo_entries (memory s)" "a \<in> {8, 12}"
  shows "\<exists>m. ustore32 me a v s = Inr (s\<lparr>memory := m\<rparr>) \<and> demo_entries m \<and>
    (\<forall>k. 0x80403000 \<le> k \<longrightarrow> m k = memory s k)"
proof -
  have a: "a < 4096" "a + 1 < 4096" "a + 1 + 1 < 4096" "a + 1 + 1 + 1 < 4096" using assms(3) by auto
  let ?k = "0x80402000 + a"
  let ?m = "(memory s)(?k := ucast v, ?k + 1 := ucast (drop_bit 8 v), ?k + 2 := ucast (drop_bit 16 v), ?k + 3 := ucast (drop_bit 24 v))"
  have "ustore32 me a v s = Inr (s\<lparr>memory := ?m\<rparr>)"
    unfolding ustore32_def bytes_of_def using assms
    by (auto simp: ustore_def demo_mmu demo_entries_upd)
  moreover have "demo_entries ?m" using assms by (auto intro!: demo_entries_upd)
  moreover have "\<forall>k. 0x80403000 \<le> k \<longrightarrow> ?m k = memory s k" using assms(3) by auto
  ultimately show ?thesis by blast
qed


end
