(* ===== verification/Shm.thy ===== *)
theory Shm
  imports Sysproc
begin

text \<open>
  Shared memory regions (\<open>shminit\<close>, \<open>shmget\<close> and \<open>shmem_count\<close> of \<open>vm.c\<close> with their system calls). A
  region is a page that several address spaces map.
\<close>

section \<open>Operations\<close>

record shm_region =
  rpage :: u32
  refcnt :: u32

text \<open>\<open>NSHM\<close> is 8.\<close>

record shm = sysproc +
  shmtable :: "shm_region list"

definition shminit :: "'a shm_scheme \<Rightarrow> 'a shm_scheme" where
  "shminit s = s\<lparr>shmtable := replicate 8 \<lparr>rpage = 0, refcnt = 0\<rparr>\<rparr>"

definition shmget :: "u32 \<Rightarrow> nat \<Rightarrow> 'a shm_scheme \<Rightarrow> fault + u32 \<times> 'a shm_scheme" where
  "shmget rid me s =
     (if sint rid < 0 \<or> sint rid \<ge> 8 then Inr (- 1, s)
      else
        let i = unat rid;
            (ok, s) = (if rpage (shmtable s ! i) = 0
              then case kalloc s of (mem, s) \<Rightarrow>
                if mem = 0 then (False, s)
                else (True, s\<lparr>memory := memset (memory s) mem 0 4096,
                       shmtable := (shmtable s)[i := \<lparr>rpage = mem, refcnt = 0\<rparr>]\<rparr>)
              else (True, s))
        in if \<not> ok then Inr (- 1, s)
        else
          let pa = rpage (shmtable s ! i); va = PGROUNDUP (sz (ptable s ! me))
          in bind_res (mappages (pgdir (ptable s ! me)) va 4096 (V2P pa) (PTE_W OR PTE_U) s) (\<lambda>(r, s).
             if sint r < 0 then Inr (- 1, s)
             else
               let s = upd_proc me (\<lambda>p. p\<lparr>sz := va + 4096\<rparr>) s;
                   s = s\<lparr>shmtable := (shmtable s)[i := (shmtable s ! i)\<lparr>refcnt := refcnt (shmtable s ! i) + 1\<rparr>]\<rparr>
               in bind_res (switchuvm (Some (kstack (ptable s ! me), pgdir (ptable s ! me))) s)
                    (\<lambda>s. Inr (va, s))))"

definition shmem_count :: "u32 \<Rightarrow> 'a shm_scheme \<Rightarrow> u32" where
  "shmem_count rid s =
     (if sint rid < 0 \<or> sint rid \<ge> 8 then - 1 else refcnt (shmtable s ! unat rid))"

definition sys_shmget :: "nat \<Rightarrow> nat \<Rightarrow> 'a shm_scheme \<Rightarrow> fault + u32 outcome \<times> 'a shm_scheme" where
  "sys_shmget c me s = with_argint me 0 (\<lambda>rid. bind_res (shmget rid me s) returns) s"

definition sys_shmem_count :: "nat \<Rightarrow> nat \<Rightarrow> 'a shm_scheme \<Rightarrow> fault + u32 outcome \<times> 'a shm_scheme" where
  "sys_shmem_count c me s = with_argint me 0 (\<lambda>rid. returns (shmem_count rid s, s)) s"

section \<open>Sharing\<close>

lemma shmtable_upd_proc [simp]: "shmtable (upd_proc i f s) = shmtable s"
  by (simp add: upd_proc_def)

lemma mmu_leaf:
  assumes "page_ok s x" "pte_of m d va = V2P x OR PTE_W OR PTE_U OR PTE_P"
  shows "mmu m d wr va = Some (x + (va AND 0xFFF))"
proof -
  have w: "(V2P x OR 2 OR 4 OR 1) AND 2 \<noteq> 0"
    by (simp add: bit.conj_disj_distrib2)
  then show ?thesis
    using leaf_parts[OF assms(1)] assms(2) by (simp add: mmu_def Let_def)
qed

lemma page_offset:
  assumes "aligned 12 a" "unat i < 4096"
  shows "(a + i) AND 0xFFF = i" "PGROUNDDOWN (a + i) = a"
proof -
  have u: "unat (a + i) = unat a + unat i" using unat_add_aligned[of 12 a i] assms by simp
  obtain q where q: "unat a = 4096 * q" using assms(1) by (auto simp: aligned_def elim: dvdE)
  have "(unat a + unat i) mod 4096 = unat i" using assms(2) unfolding q by simp
  then have "unat ((a + i) AND 0xFFF) = unat i"
    using unat_and_mask[of "a + i" 12] u by (simp add: mask_12)
  then show "(a + i) AND 0xFFF = i" by (rule unsigned_word_eqI)
  show "PGROUNDDOWN (a + i) = a" using assms by (rule PGROUNDDOWN_add)
qed


definition demo_shm :: shm where
  "demo_shm = kernel.extend
     (demo_family\<lparr>memory := memory demo_mem, freelist := freelist demo_mem,
        ptable := (ptable demo_family)[1 := (ptable demo_family ! 1)\<lparr>pgdir := 0x80400000, kstack := 0x80404000\<rparr>]\<rparr>)
     \<lparr>cons_out = [], shm_pages = replicate 4 0, ncpu = 2,
      shmtable = \<lparr>rpage = 0x80401000, refcnt = 0\<rparr> # replicate 7 \<lparr>rpage = 0, refcnt = 0\<rparr>\<rparr>"

lemma demo_shm_simps [simp]:
  "memory demo_shm = memory demo_mem" "freelist demo_shm = freelist demo_mem" "kend demo_shm = kend demo_mem"
  "pgdir (ptable demo_shm ! Suc 0) = 0x80400000" "kstack (ptable demo_shm ! Suc 0) = 0x80404000"
  "sz (ptable demo_shm ! Suc 0) = 0" "length (ptable demo_shm) = 64" "length (shmtable demo_shm) = 8"
  "rpage (shmtable demo_shm ! 0) = 0x80401000"
  by (simp_all add: demo_shm_def demo_family_def demo_kernel_def demo_proc_def demo_files_def demo_mem_def
      kernel.extend_def files.extend_def)

lemma demo_shm_wf: "pt_wf demo_shm [0x80402000, 0x80403000] 0x80400000"
  using uvm_wfD(1)[OF demo_mem_wf(1)] by (simp add: pt_wf_def free_pages_def page_ok_def)


text \<open>
  C24. Regions outlive their page. When a process that has mapped a region is torn down, the page of the
  region goes back to the free list with the rest of its memory, although the region table still
  names it and its count is not lowered: another process that has it mapped, or maps it later, shares
  it with whoever is given the page next.
\<close>

theorem shm_page_freed:
  assumes wf: "uvm_wf s xs d" and u: "umapped (memory s) d va"
    and x: "uframe (memory s) d va = rpage (shmtable s ! unat rid)"
  shows "\<exists>s' ys. freevm d s = Inr s' \<and> free_pages s' ys \<and>
    rpage (shmtable s' ! unat rid) \<in> set ys \<and> shmem_count rid s' = shmem_count rid s"
proof -
  obtain s' ys where f: "freevm d s = Inr s'" "free_pages s' ys" "kmem_same s s'" "set ys = all_pages s xs d"
    using freevm_spec[OF wf] by blast
  have "shmtable s' = shmtable s" using f(3) by (auto elim: kmem_same_of)
  moreover have "uframe (memory s) d va \<in> set ys" using f(4) u by (auto simp: all_pages_def uframes_def)
  ultimately show ?thesis using f(1,2) x by (auto simp: shmem_count_def)
qed

lemma demo_umem_slot:
  assumes "unat d < 1024"
  shows "read32 demo_umem (0x80400000 + 4 * d) = (if d = 0 then 0x401007 else 0)"
    and "read32 demo_umem (0x80401000 + 4 * d) = (if d = 0 then 0x402007 else 0)"
proof -
  have al: "aligned 2 (0x80400000 + 4 * d)" "aligned 2 (0x80401000 + 4 * d)"
    by (rule aligned_slot[OF _ assms], simp add: aligned_def)+
  have u: "unat (0x80400000 + 4 * d) = 0x80400000 + 4 * unat d" "unat (0x80401000 + 4 * d) = 0x80401000 + 4 * unat d"
    using assms by (simp_all add: unat_word_ariths)
  have z: "4 * unat d = 0 \<longleftrightarrow> d = 0" by (simp add: unat_eq_0)
  have ne: "0x80402004 \<noteq> 0x80400000 + 4 * d" "0x80401000 \<noteq> 0x80400000 + 4 * d" "0x80402004 \<noteq> 0x80401000 + 4 * d"
    "0x80400000 \<noteq> 0x80401000 + 4 * d"
    using assms u by (auto simp: word_unat_eq_iff)
  show "read32 demo_umem (0x80400000 + 4 * d) = (if d = 0 then 0x401007 else 0)"
  proof (cases "d = 0")
    case False
    then have "0x80400000 \<noteq> 0x80400000 + 4 * d" using u z by (auto simp: word_unat_eq_iff)
    then show ?thesis using al ne False unfolding demo_umem_def
      by (simp add: read32_write32_other aligned_def) (simp add: read32_def)
  qed (simp add: demo_umem_read)
  show "read32 demo_umem (0x80401000 + 4 * d) = (if d = 0 then 0x402007 else 0)"
  proof (cases "d = 0")
    case False
    then have "0x80401000 \<noteq> 0x80401000 + 4 * d" using u z by (auto simp: word_unat_eq_iff)
    then show ?thesis using al ne False unfolding demo_umem_def
      by (simp add: read32_write32_other aligned_def) (simp add: read32_def)
  qed (simp add: demo_umem_read)
qed

lemma demo_umem_wf:
  assumes "memory s = demo_umem" "freelist s = 0" "kend s = 0x80110000"
  shows "uvm_wf s [] 0x80400000"
proof -
  have pde: "pde_of demo_umem 0x80400000 d = (if d = 0 then 0x401007 else 0)" if "unat d < 1024" for d
    using demo_umem_slot(1)[OF that] by (simp add: pde_of_def)
  have tab: "tab_of demo_umem 0x80400000 0 = 0x80401000"
    using pde[of 0] by (simp add: tab_of_def PTE_ADDR_def P2V_def)
  have pte: "pte_of demo_umem 0x80400000 va = (if PDX va = 0 \<and> PTX va = 0 then 0x402007 else 0)" for va
    using pde[OF PDX_less, of va] demo_umem_slot(2)[OF PTX_less, of va] tab by (auto simp: pte_of_def)
  have ok: "page_ok s 0x80400000" "page_ok s 0x80401000" "page_ok s 0x80402000"
    using assms(3) by (simp_all add: page_ok_def aligned_def V2P_def)
  have f: "free_pages s []" using assms(2) by (simp add: free_pages_def)
  have "pt_wf s [] 0x80400000"
    using f ok pde tab by (intro pt_wfI) (auto simp: assms(1) split: if_splits)
  moreover have um: "umapped demo_umem 0x80400000 va \<longleftrightarrow> va < KERNBASE \<and> PDX va = 0 \<and> PTX va = 0"
    "umapped demo_umem 0x80400000 va \<Longrightarrow> uframe demo_umem 0x80400000 va = 0x80402000" for va
    using pte[of va] by (auto simp: umapped_def uframe_def PTE_ADDR_def P2V_def split: if_splits)
  moreover have "pt_pages demo_umem 0x80400000 \<subseteq> {0x80400000, 0x80401000}"
    using pde tab by (auto simp: pt_pages_def split: if_splits)
  moreover have "PGROUNDDOWN va = PGROUNDDOWN vb" if "PDX va = PDX vb" "PTX va = PTX vb" for va vb
    using same_page_iff that by blast
  ultimately show ?thesis
    using ok assms(1,3) by (intro uvm_wfI) (auto simp: um)
qed

theorem shm_page_freed_witness:
  "\<exists>t :: shm. \<exists>s' ys. freevm 0x80400000 t = Inr s' \<and> free_pages s' ys \<and>
     rpage (shmtable s' ! 0) \<in> set ys \<and> shmem_count 0 s' = 1"
proof -
  let ?t = "demo_shm\<lparr>memory := demo_umem, freelist := 0,
    shmtable := (shmtable demo_shm)[0 := \<lparr>rpage = 0x80402000, refcnt = 1\<rparr>]\<rparr>"
  have wf: "uvm_wf ?t [] 0x80400000" by (rule demo_umem_wf) (simp_all add: demo_mem_def)
  have p: "pte_of demo_umem 0x80400000 0 = 0x402007" by (rule demo_pte) (simp_all add: demo_entries_def demo_umem_read)
  have um: "umapped (memory ?t) 0x80400000 0" using p by (simp add: umapped_def)
  have fr: "uframe (memory ?t) 0x80400000 0 = rpage (shmtable ?t ! unat 0)"
    using p by (simp add: uframe_def PTE_ADDR_def P2V_def)
  have "shmem_count 0 ?t = 1" by (simp add: shmem_count_def)
  then have "\<exists>s' ys. freevm 0x80400000 ?t = Inr s' \<and> free_pages s' ys \<and>
      rpage (shmtable s' ! 0) \<in> set ys \<and> shmem_count 0 s' = 1"
    using shm_page_freed[OF wf um fr] by simp
  then show ?thesis by blast
qed

end
