(* ===== verification/Mutex.thy ===== *)
theory Mutex
  imports Shm
begin

text \<open>
  User mutexes (\<open>mutex_create\<close>, \<open>mutex_lock\<close> and \<open>mutex_unlock\<close> of \<open>sysproc.c\<close>). The step relation
  interleaves the calls of all processes; the set of pairs it carries records which process, by pid,
  has been told that it holds which mutex.
\<close>

section \<open>Operations\<close>

record umutex =
  allocated :: u32
  mlocked :: u32
  mpid :: u32

text \<open>\<open>MAX_MUTEXES\<close> is 10.\<close>

record mutexes = shm +
  user_mutexes :: "umutex list"
  mutex_table_inited :: bool

definition mutex_table_init :: "'a mutexes_scheme \<Rightarrow> 'a mutexes_scheme" where
  "mutex_table_init s = (if \<not> mutex_table_inited s then s\<lparr>mutex_table_inited := True\<rparr> else s)"

definition set_mutex :: "nat \<Rightarrow> umutex \<Rightarrow> 'a mutexes_scheme \<Rightarrow> 'a mutexes_scheme" where
  "set_mutex i m s = s\<lparr>user_mutexes := (user_mutexes s)[i := m]\<rparr>"

definition sys_mutex_create :: "nat \<Rightarrow> nat \<Rightarrow> 'a mutexes_scheme \<Rightarrow> fault + u32 outcome \<times> 'a mutexes_scheme" where
  "sys_mutex_create c me s =
     (let s = mutex_table_init s
      in case find_idx (\<lambda>m. allocated m = 0) (user_mutexes s) of
           None \<Rightarrow> returns (- 1, s)
         | Some i \<Rightarrow> returns (of_nat i, set_mutex i \<lparr>allocated = 1, mlocked = 0, mpid = 0\<rparr> s))"

text \<open>The loop of \<open>mutex_lock\<close>, where the process goes on after it was woken.\<close>

definition mutex_lock_loop ::
  "nat \<Rightarrow> nat \<Rightarrow> nat \<Rightarrow> 'a mutexes_scheme \<Rightarrow> fault + u32 outcome \<times> 'a mutexes_scheme" where
  "mutex_lock_loop i c me s =
     (if mlocked (user_mutexes s ! i) \<noteq> 0
      then bind_res (sleep c me (Mutex_chan i) s) (\<lambda>s. Inr (Blocked, s))
      else returns (0, set_mutex i ((user_mutexes s ! i)\<lparr>mlocked := 1, mpid := pid (ptable s ! me)\<rparr>) s))"

definition sys_mutex_lock :: "nat \<Rightarrow> nat \<Rightarrow> 'a mutexes_scheme \<Rightarrow> fault + u32 outcome \<times> 'a mutexes_scheme" where
  "sys_mutex_lock c me s = with_argint me 0 (\<lambda>mid.
     if sint mid < 0 \<or> sint mid \<ge> 10 then returns (- 1, s)
     else let s = mutex_table_init s
       in if allocated (user_mutexes s ! unat mid) = 0 then returns (- 1, s)
       else mutex_lock_loop (unat mid) c me s) s"

definition mutex_unlock :: "nat \<Rightarrow> nat \<Rightarrow> 'a mutexes_scheme \<Rightarrow> u32 \<times> 'a mutexes_scheme" where
  "mutex_unlock i me s =
     (let m = user_mutexes s ! i
      in if allocated m = 0 \<or> mlocked m = 0 \<or> mpid m \<noteq> pid (ptable s ! me) then (- 1, s)
      else (0, wakeup (Mutex_chan i) (set_mutex i (m\<lparr>mlocked := 0, mpid := 0\<rparr>) s)))"

definition sys_mutex_unlock :: "nat \<Rightarrow> nat \<Rightarrow> 'a mutexes_scheme \<Rightarrow> fault + u32 outcome \<times> 'a mutexes_scheme" where
  "sys_mutex_unlock c me s = with_argint me 0 (\<lambda>mid.
     if sint mid < 0 \<or> sint mid \<ge> 10 then returns (- 1, s)
     else returns (mutex_unlock (unat mid) me (mutex_table_init s))) s"

section \<open>All processes together\<close>

type_synonym 'a mrun = "'a mutexes_scheme \<times> (u32 \<times> nat) set"

inductive mstep :: "'a mrun \<Rightarrow> 'a mrun \<Rightarrow> bool" where
  create: "sys_mutex_create c me s = Inr (Done r, s') \<Longrightarrow> mstep (s, H) (s', H)"
| lock: "i < 10 \<Longrightarrow> allocated (user_mutexes s ! i) \<noteq> 0 \<Longrightarrow> mutex_lock_loop i c me s = Inr (Done 0, s') \<Longrightarrow>
    mstep (s, H) (s', insert (pid (ptable s ! me), i) H)"
| block: "i < 10 \<Longrightarrow> mutex_lock_loop i c me s = Inr (Blocked, s') \<Longrightarrow> mstep (s, H) (s', H)"
| unlock: "i < 10 \<Longrightarrow> mutex_unlock i me s = (0, s') \<Longrightarrow> mstep (s, H) (s', H - {(pid (ptable s ! me), i)})"
| refuse: "i < 10 \<Longrightarrow> mutex_unlock i me s = (- 1, s') \<Longrightarrow> mstep (s, H) (s', H)"
| other: "user_mutexes s' = user_mutexes s \<Longrightarrow> mstep (s, H) (s', H)"

definition mstart :: "'a mrun \<Rightarrow> bool" where
  "mstart r \<longleftrightarrow> user_mutexes (fst r) = replicate 10 \<lparr>allocated = 0, mlocked = 0, mpid = 0\<rparr> \<and> snd r = {}"

definition minv :: "'a mrun \<Rightarrow> bool" where
  "minv r \<longleftrightarrow> length (user_mutexes (fst r)) = 10 \<and>
     (\<forall>x i. (x, i) \<in> snd r \<longleftrightarrow>
        i < 10 \<and> mlocked (user_mutexes (fst r) ! i) \<noteq> 0 \<and> mpid (user_mutexes (fst r) ! i) = x) \<and>
     (\<forall>i < 10. allocated (user_mutexes (fst r) ! i) = 0 \<longrightarrow> mlocked (user_mutexes (fst r) ! i) = 0)"

lemma user_mutexes_frame [simp]:
  "user_mutexes (mutex_table_init s) = user_mutexes s" "user_mutexes (wakeup ch s) = user_mutexes s"
  "user_mutexes (set_mutex i m s) = (user_mutexes s)[i := m]"
  "ptable (mutex_table_init s) = ptable s" "ptable (set_mutex i m s) = ptable s"
  by (simp_all add: mutex_table_init_def wakeup_def wakeup1_def set_mutex_def)

lemma user_mutexes_sleep: "sleep c me ch s = Inr s' \<Longrightarrow> user_mutexes s' = user_mutexes s"
  by (auto simp: sleep_def sched_def scheduler_back_def switchkvm_def upd_proc_def split: if_splits)

lemma mstart_inv: "mstart r \<Longrightarrow> minv r"
  by (auto simp: mstart_def minv_def)

lemma minvD:
  assumes "minv (s, H)"
  shows "length (user_mutexes s) = 10"
    "(x, i) \<in> H \<longleftrightarrow> i < 10 \<and> mlocked (user_mutexes s ! i) \<noteq> 0 \<and> mpid (user_mutexes s ! i) = x"
    "i < 10 \<Longrightarrow> allocated (user_mutexes s ! i) = 0 \<Longrightarrow> mlocked (user_mutexes s ! i) = 0"
  using assms by (auto simp: minv_def)

lemma minv_update:
  assumes inv: "minv (s, H)" and i: "i < 10" "user_mutexes s' = (user_mutexes s)[i := m]"
    and m: "allocated m = 0 \<longrightarrow> mlocked m = 0"
    and H: "\<And>x j. (x, j) \<in> H' \<longleftrightarrow> (if j = i then mlocked m \<noteq> 0 \<and> mpid m = x else (x, j) \<in> H)"
  shows "minv (s', H')"
  using minvD[OF inv] i m H by (auto simp: minv_def nth_upd)

lemma mstep_inv: "mstep r r' \<Longrightarrow> minv r \<Longrightarrow> minv r'"
proof (induction rule: mstep.induct)
  case (create c me s r s' H)
  note d = minvD[OF create(2)]
  show ?case
  proof (cases "find_idx (\<lambda>m. allocated m = 0) (user_mutexes s)")
    case None
    then show ?thesis using create by (auto simp: sys_mutex_create_def minv_def)
  next
    case (Some i)
    have i: "i < 10" "allocated (user_mutexes s ! i) = 0" using find_idx_SomeD[OF Some] d(1) by auto
    then have "\<And>x. (x, i) \<notin> H" using d(2,3) by blast
    then show ?thesis
      using Some create i by (intro minv_update[OF create(2) i(1)]) (auto simp: sys_mutex_create_def)
  qed
next
  case (lock i s c me s' H)
  note d = minvD[OF lock(4)]
  let ?m = "(user_mutexes s ! i)\<lparr>mlocked := 1, mpid := pid (ptable s ! me)\<rparr>"
  have s': "mlocked (user_mutexes s ! i) = 0" "s' = set_mutex i ?m s"
    using lock(3) by (auto simp: mutex_lock_loop_def bind_res_Inr_iff split: if_splits)
  then have "\<And>x. (x, i) \<notin> H" using d(2) by blast
  then show ?case using lock s' by (intro minv_update[OF lock(4) lock(1), of s' ?m]) auto
next
  case (block i c me s s' H)
  then have "user_mutexes s' = user_mutexes s"
    by (auto simp: mutex_lock_loop_def bind_res_Inr_iff dest: user_mutexes_sleep split: if_splits)
  then show ?case using block by (simp add: minv_def)
next
  case (unlock i me s s' H)
  note d = minvD[OF unlock(3)]
  let ?m = "(user_mutexes s ! i)\<lparr>mlocked := 0, mpid := 0\<rparr>"
  have s': "mpid (user_mutexes s ! i) = pid (ptable s ! me)" "user_mutexes s' = (user_mutexes s)[i := ?m]"
    using unlock(2) by (auto simp: mutex_unlock_def Let_def split: if_splits)
  then show ?case using unlock d(2) by (intro minv_update[OF unlock(3) unlock(1), of s' ?m]) auto
next
  case (refuse i me s s' H)
  then have "user_mutexes s' = user_mutexes s" by (auto simp: mutex_unlock_def Let_def split: if_splits)
  then show ?case using refuse by (simp add: minv_def)
next
  case (other s' s H)
  then show ?case by (simp add: minv_def)
qed

interpretation mutexsys: transition_system mstart mstep minv
  by unfold_locales (fact mstart_inv, fact mstep_inv)

section \<open>Properties\<close>


definition demo_mutexes :: mutexes where
  "demo_mutexes = shm.extend demo_shm
     \<lparr>user_mutexes = replicate 10 \<lparr>allocated = 0, mlocked = 0, mpid = 0\<rparr>, mutex_table_inited = False\<rparr>"


text \<open>
  Unlocking. The holder of a mutex can always unlock it; the call returns 0, frees the mutex and makes
  every process that sleeps for it runnable. A process that does not hold the mutex gets \<open>-1\<close> and
  changes nothing.
\<close>

theorem mutex_unlock_wakes:
  assumes "i < length (user_mutexes s)"
  defines "m \<equiv> user_mutexes s ! i"
  shows "if allocated m \<noteq> 0 \<and> mlocked m \<noteq> 0 \<and> mpid m = pid (ptable s ! me)
    then \<exists>s'. mutex_unlock i me s = (0, s') \<and> mlocked (user_mutexes s' ! i) = 0 \<and>
      (\<forall>j < length (ptable s). pstate (ptable s ! j) = SLEEPING \<longrightarrow> chan (ptable s ! j) = Some (Mutex_chan i) \<longrightarrow>
         pstate (ptable s' ! j) = RUNNABLE)
    else mutex_unlock i me s = (- 1, s)"
  using assms by (auto simp: mutex_unlock_def Let_def wakeup_def wakeup1_def set_mutex_def)

theorem mutex_unlock_wakes_witness: "mutex_unlock 3 1 demo_mutexes = (- 1, demo_mutexes)"
  using mutex_unlock_wakes[of 3 demo_mutexes 1] by (simp add: demo_mutexes_def shm.extend_def)

end
