(* ===== verification/Msgqueue.thy ===== *)
theory Msgqueue
  imports Mutex
begin

text \<open>
  Message queues (\<open>sysproc.c\<close>): linked lists of queues and of messages, each in a page of its own. The
  structures are kept in stores from the address of the page to the structure; freeing a page removes
  its structure, so that an access through a dangling pointer is a fault. A queue holds the list of
  its messages: sending appends to it, receiving takes the first message of the wanted type.
\<close>

section \<open>Structures\<close>

record msg_node =
  nnext :: u32
  msgtyp :: u32
  mlen :: u32
  mdata :: "u8 list"

record msg_queue =
  qnext :: u32
  qid :: u32
  qkey :: u32
  qhead :: u32
  qtail :: u32

record msgs = mutexes +
  queues :: "u32 \<rightharpoonup> msg_queue"
  nodes :: "u32 \<rightharpoonup> msg_node"
  queue_list_head :: u32
  queue_list_initialized :: bool
  next_queue_id :: u32

definition of_loop :: "(fault + 'a) option \<Rightarrow> fault + 'a" where
  "of_loop r = (case r of None \<Rightarrow> Inl Diverge | Some x \<Rightarrow> x)"

section \<open>Linked lists\<close>

text \<open>The search \<open>while(queue) ...\<close> for the first queue with a property; 0 when there is none.\<close>

partial_function (option) find_queue ::
  "(u32 \<rightharpoonup> msg_queue) \<Rightarrow> (msg_queue \<Rightarrow> bool) \<Rightarrow> u32 \<Rightarrow> u32 \<Rightarrow> (fault + u32 \<times> u32) option" where
  "find_queue Q P prev p =
     (if p = 0 then Some (Inr (prev, 0))
      else case Q p of
        None \<Rightarrow> Some (Inl (Bad_Access ''msg_queue''))
      | Some q \<Rightarrow> if P q then Some (Inr (prev, p)) else find_queue Q P p (qnext q))"

text \<open>The search of \<open>msgrcv\<close>: the first message of the wanted type and its predecessor.\<close>

partial_function (option) find_node ::
  "(u32 \<rightharpoonup> msg_node) \<Rightarrow> (msg_node \<Rightarrow> bool) \<Rightarrow> u32 \<Rightarrow> u32 \<Rightarrow> (fault + u32 \<times> u32) option" where
  "find_node N P prev p =
     (if p = 0 then Some (Inr (prev, 0))
      else case N p of
        None \<Rightarrow> Some (Inl (Bad_Access ''msg_node''))
      | Some n \<Rightarrow> if P n then Some (Inr (prev, p)) else find_node N P p (nnext n))"

definition msg_enqueue :: "u32 \<Rightarrow> u32 \<Rightarrow> 'a msgs_scheme \<Rightarrow> fault + 'a msgs_scheme" where
  "msg_enqueue qp np s =
     (case queues s qp of
        None \<Rightarrow> Inl (Bad_Access ''msg_queue'')
      | Some q \<Rightarrow>
        if qhead q = 0 then Inr (s\<lparr>queues := (queues s)(qp \<mapsto> q\<lparr>qhead := np, qtail := np\<rparr>)\<rparr>)
        else case nodes s (qtail q) of
          None \<Rightarrow> Inl (Bad_Access ''msg_node'')
        | Some n \<Rightarrow> Inr (s\<lparr>nodes := (nodes s)(qtail q \<mapsto> n\<lparr>nnext := np\<rparr>),
                          queues := (queues s)(qp \<mapsto> q\<lparr>qtail := np\<rparr>)\<rparr>))"

definition msg_unlink :: "u32 \<Rightarrow> u32 \<Rightarrow> u32 \<Rightarrow> 'a msgs_scheme \<Rightarrow> fault + 'a msgs_scheme" where
  "msg_unlink qp prev cur s =
     (case (queues s qp, nodes s cur) of
        (Some q, Some n) \<Rightarrow>
          bind_res
            (if prev \<noteq> 0
             then case nodes s prev of
                 None \<Rightarrow> Inl (Bad_Access ''msg_node'')
               | Some m \<Rightarrow> Inr (q, s\<lparr>nodes := (nodes s)(prev \<mapsto> m\<lparr>nnext := nnext n\<rparr>)\<rparr>)
             else Inr (q\<lparr>qhead := nnext n\<rparr>, s))
            (\<lambda>(q, s). Inr (s\<lparr>queues := (queues s)(qp \<mapsto> (if cur = qtail q then q\<lparr>qtail := prev\<rparr> else q))\<rparr>))
      | _ \<Rightarrow> Inl (Bad_Access ''msg_queue''))"

definition free_node :: "u32 \<Rightarrow> 'a msgs_scheme \<Rightarrow> fault + 'a msgs_scheme" where
  "free_node p s = bind_res (kfree p s) (\<lambda>s. Inr (s\<lparr>nodes := (nodes s)(p := None)\<rparr>))"

section \<open>System calls\<close>

definition queue_table_initialize :: "'a msgs_scheme \<Rightarrow> 'a msgs_scheme" where
  "queue_table_initialize s =
     (if \<not> queue_list_initialized s then s\<lparr>queue_list_initialized := True\<rparr> else s)"

abbreviation (input) IPC_CREAT :: u32 where "IPC_CREAT \<equiv> 512"
abbreviation (input) IPC_NOWAIT :: u32 where "IPC_NOWAIT \<equiv> 2048"
abbreviation (input) IPC_RMID :: u32 where "IPC_RMID \<equiv> 0"

definition msgget :: "u32 \<Rightarrow> u32 \<Rightarrow> 'a msgs_scheme \<Rightarrow> fault + u32 \<times> 'a msgs_scheme" where
  "msgget key msgflg s =
     (let s = queue_table_initialize s
      in bind_res (of_loop (find_queue (queues s) (\<lambda>q. qkey q = key) 0 (queue_list_head s))) (\<lambda>(_, p).
         if p \<noteq> 0 then Inr (qid (the (queues s p)), s)
         else if msgflg AND IPC_CREAT = 0 then Inr (- 1, s)
         else case kalloc s of (p, s) \<Rightarrow>
           if p = 0 then Inr (- 1, s)
           else
             let q = \<lparr>qnext = queue_list_head s, qid = next_queue_id s, qkey = key, qhead = 0, qtail = 0\<rparr>
             in Inr (qid q, s\<lparr>queues := (queues s)(p \<mapsto> q), queue_list_head := p,
                       next_queue_id := next_queue_id s + 1\<rparr>)))"

definition sys_msgget :: "nat \<Rightarrow> nat \<Rightarrow> 'a msgs_scheme \<Rightarrow> fault + u32 outcome \<times> 'a msgs_scheme" where
  "sys_msgget c me s = with_argint me 0 (\<lambda>key. with_argint me 1 (\<lambda>flg.
     bind_res (msgget key flg s) returns) s) s"

text \<open>
  The part of \<open>msgsnd\<close> after the arguments are fetched. The data of a node starts at offset 12 of its
  page; copying past the end of the page is a fault.
\<close>

definition msgsnd :: "u32 \<Rightarrow> u32 \<Rightarrow> u32 \<Rightarrow> nat \<Rightarrow> 'a msgs_scheme \<Rightarrow> fault + u32 \<times> 'a msgs_scheme" where
  "msgsnd msqid msgp msgsz me s =
     (let s = queue_table_initialize s
      in bind_res (of_loop (find_queue (queues s) (\<lambda>q. qid q = msqid) 0 (queue_list_head s))) (\<lambda>(_, qp).
         if qp = 0 then Inr (- 1, s)
         else case kalloc s of (np, s) \<Rightarrow>
           if np = 0 then Inr (- 1, s)
           else bind_res (uload32 me msgp s) (\<lambda>typ.
                bind_res (if sint msgsz > 0 then uloads me (msgp + 4) (unat msgsz) s else Inr []) (\<lambda>bs.
                if 12 + length bs > 4096 then Inl (Bad_Access ''msgsnd'')
                else
                  let s = s\<lparr>nodes := (nodes s)(np \<mapsto> \<lparr>nnext = 0, msgtyp = typ, mlen = msgsz, mdata = bs\<rparr>)\<rparr>
                  in bind_res (msg_enqueue qp np s) (\<lambda>s.
                     Inr (0, wakeup (Queue_chan (unat qp)) s))))))"

definition sys_msgsnd :: "nat \<Rightarrow> nat \<Rightarrow> 'a msgs_scheme \<Rightarrow> fault + u32 outcome \<times> 'a msgs_scheme" where
  "sys_msgsnd c me s = with_argint me 0 (\<lambda>msqid. with_argint me 2 (\<lambda>msgsz. with_argint me 3 (\<lambda>msgflg.
     bind_res (argptr me 1 (msgsz + 4) s) (\<lambda>r. case r of
        None \<Rightarrow> returns (- 1, s)
      | Some msgp \<Rightarrow> bind_res (msgsnd msqid msgp msgsz me s) returns)) s) s) s"

text \<open>
  What \<open>msgrcv\<close> does with the message it has unlinked; \<open>length\<close> and \<open>msgsz\<close> are compared as unsigned
  numbers.
\<close>

definition msg_deliver :: "u32 \<Rightarrow> u32 \<Rightarrow> nat \<Rightarrow> 'a msgs_scheme \<Rightarrow> fault + u32 \<times> 'a msgs_scheme" where
  "msg_deliver cur msgsz me s =
     (case nodes s cur of
        None \<Rightarrow> Inl (Bad_Access ''msg_node'')
      | Some n \<Rightarrow>
        let copysz = (if mlen n < msgsz then mlen n else msgsz)
        in bind_res (argptr me 1 (4 + copysz) s) (\<lambda>r. case r of
             None \<Rightarrow> bind_res (free_node cur s) (\<lambda>s. Inr (- 1, s))
           | Some msgp \<Rightarrow>
             bind_res (ustore32 me msgp (msgtyp n) s) (\<lambda>s.
             bind_res (if sint copysz > 0
                then if unat copysz > length (mdata n) then Inl (Bad_Access ''msgrcv'')
                  else ustores me (msgp + 4) (take (unat copysz) (mdata n)) s
                else Inr s) (\<lambda>s.
             bind_res (free_node cur s) (\<lambda>s. Inr (copysz, s))))))"

text \<open>The loop of \<open>msgrcv\<close>; the process goes on here, with the same queue, after it was woken.\<close>

definition msgrcv_loop ::
  "u32 \<Rightarrow> u32 \<Rightarrow> u32 \<Rightarrow> u32 \<Rightarrow> nat \<Rightarrow> nat \<Rightarrow> 'a msgs_scheme \<Rightarrow> fault + u32 outcome \<times> 'a msgs_scheme" where
  "msgrcv_loop qp msgsz typ msgflg c me s =
     (case queues s qp of
        None \<Rightarrow> Inl (Bad_Access ''msg_queue'')
      | Some q \<Rightarrow>
        bind_res (of_loop (find_node (nodes s) (\<lambda>n. typ = 0 \<or> msgtyp n = typ) 0 (qhead q))) (\<lambda>(prev, cur).
        if cur \<noteq> 0
        then bind_res (msg_unlink qp prev cur s) (\<lambda>s. bind_res (msg_deliver cur msgsz me s) returns)
        else if msgflg AND IPC_NOWAIT \<noteq> 0 then returns (- 1, s)
        else if killed (ptable s ! me) \<noteq> 0 then returns (- 1, s)
        else bind_res (sleep c me (Queue_chan (unat qp)) s) (\<lambda>s. Inr (Blocked, s))))"

definition sys_msgrcv :: "nat \<Rightarrow> nat \<Rightarrow> 'a msgs_scheme \<Rightarrow> fault + u32 outcome \<times> 'a msgs_scheme" where
  "sys_msgrcv c me s = with_argint me 0 (\<lambda>msqid. with_argint me 2 (\<lambda>msgsz. with_argint me 3 (\<lambda>typ.
     with_argint me 4 (\<lambda>msgflg.
       let s = queue_table_initialize s
       in bind_res (of_loop (find_queue (queues s) (\<lambda>q. qid q = msqid) 0 (queue_list_head s))) (\<lambda>(_, qp).
          if qp = 0 then returns (- 1, s)
          else msgrcv_loop qp msgsz typ msgflg c me s)) s) s) s) s"

partial_function (option) free_nodes :: "u32 \<Rightarrow> 'a msgs_scheme \<Rightarrow> (fault + 'a msgs_scheme) option" where
  "free_nodes p s =
     (if p = 0 then Some (Inr s)
      else case nodes s p of
        None \<Rightarrow> Some (Inl (Bad_Access ''msg_node''))
      | Some n \<Rightarrow> case free_node p s of Inl e \<Rightarrow> Some (Inl e) | Inr s \<Rightarrow> free_nodes (nnext n) s)"

definition msgctl :: "u32 \<Rightarrow> u32 \<Rightarrow> 'a msgs_scheme \<Rightarrow> fault + u32 \<times> 'a msgs_scheme" where
  "msgctl msqid cmd s =
     (if cmd \<noteq> IPC_RMID then Inr (- 1, s)
      else
        let s = queue_table_initialize s
        in bind_res (of_loop (find_queue (queues s) (\<lambda>q. qid q = msqid) 0 (queue_list_head s))) (\<lambda>(prev, cur).
           if cur = 0 then Inr (- 1, s)
           else
             let q = the (queues s cur)
             in bind_res
                  (if prev \<noteq> 0
                   then case queues s prev of
                       None \<Rightarrow> Inl (Bad_Access ''msg_queue'')
                     | Some p \<Rightarrow> Inr (s\<lparr>queues := (queues s)(prev \<mapsto> p\<lparr>qnext := qnext q\<rparr>)\<rparr>)
                   else Inr (s\<lparr>queue_list_head := qnext q\<rparr>))
                  (\<lambda>s. bind_res (of_loop (free_nodes (qhead q) s)) (\<lambda>s.
                   let s = wakeup (Queue_chan (unat cur)) s
                   in bind_res (kfree cur s) (\<lambda>s. Inr (0, s\<lparr>queues := (queues s)(cur := None)\<rparr>))))))"

definition sys_msgctl :: "nat \<Rightarrow> nat \<Rightarrow> 'a msgs_scheme \<Rightarrow> fault + u32 outcome \<times> 'a msgs_scheme" where
  "sys_msgctl c me s = with_argint me 0 (\<lambda>msqid. with_argint me 1 (\<lambda>cmd.
     bind_res (msgctl msqid cmd s) returns) s) s"

section \<open>Queues as lists\<close>

primrec nlist :: "(u32 \<rightharpoonup> msg_node) \<Rightarrow> u32 \<Rightarrow> u32 list \<Rightarrow> bool" where
  "nlist N p [] \<longleftrightarrow> p = 0"
| "nlist N p (a # as) \<longleftrightarrow> p = a \<and> a \<noteq> 0 \<and> (\<exists>n. N a = Some n \<and> nlist N (nnext n) as)"

definition queue_at :: "'a msgs_scheme \<Rightarrow> u32 \<Rightarrow> u32 list \<Rightarrow> bool" where
  "queue_at s qp as \<longleftrightarrow>
     (\<exists>q. queues s qp = Some q \<and> nlist (nodes s) (qhead q) as \<and> distinct as \<and>
        (as \<noteq> [] \<longrightarrow> qtail q = last as))"

type_synonym message = "u32 \<times> u32 \<times> u8 list"

definition message_of :: "msg_node \<Rightarrow> message" where
  "message_of n = (msgtyp n, mlen n, mdata n)"

definition messages :: "'a msgs_scheme \<Rightarrow> u32 list \<Rightarrow> message list" where
  "messages s as = map (\<lambda>a. message_of (the (nodes s a))) as"

text \<open>The first message with a property, and the others in their order.\<close>

fun take_first :: "('m \<Rightarrow> bool) \<Rightarrow> 'm list \<Rightarrow> ('m \<times> 'm list) option" where
  "take_first P [] = None"
| "take_first P (m # ms) =
     (if P m then Some (m, ms) else map_option (\<lambda>(x, ys). (x, m # ys)) (take_first P ms))"

lemma take_first_split: "\<forall>u \<in> set us. \<not> P u \<Longrightarrow> P m \<Longrightarrow> take_first P (us @ m # vs) = Some (m, us @ vs)"
  by (induction us) auto

lemma take_first_None: "take_first P ms = None \<longleftrightarrow> (\<forall>m \<in> set ms. \<not> P m)"
  by (induction ms) auto

lemma nlist_cong: "(\<And>a. a \<in> set as \<Longrightarrow> N a = M a) \<Longrightarrow> nlist N p as = nlist M p as"
  by (induction as arbitrary: p) auto

lemma nlist_nodes: "nlist N p as \<Longrightarrow> a \<in> set as \<Longrightarrow> \<exists>n. N a = Some n"
  by (induction as arbitrary: p) auto

lemma nlist_nonzero: "nlist N p as \<Longrightarrow> 0 \<notin> set as"
  by (induction as arbitrary: p) auto

lemma nlist_tail: "nlist N p (us @ a # vs) \<Longrightarrow> nlist N (nnext (the (N a))) vs"
  by (induction us arbitrary: p) auto

text \<open>Changing the link of the last node of a segment.\<close>

lemma nlist_relink:
  assumes "nlist N p (us @ [u] @ ws)" "distinct (us @ [u] @ ws)" "N u = Some n" "nlist N x vs" "u \<notin> set vs"
  shows "nlist (N(u \<mapsto> n\<lparr>nnext := x\<rparr>)) p (us @ [u] @ vs)"
  using assms
proof (induction us arbitrary: p)
  case Nil
  have "nlist (N(u \<mapsto> n\<lparr>nnext := x\<rparr>)) x vs = nlist N x vs"
    using Nil.prems(5) by (intro nlist_cong) auto
  then show ?case using Nil.prems by (auto simp: fun_upd_def)
next
  case (Cons a us)
  then show ?case by (auto simp: fun_upd_def)
qed

lemma find_node_spec:
  "nlist N p as \<Longrightarrow>
   find_node N P prev p = Some (Inr
     (if \<exists>a \<in> set as. P (the (N a))
      then (last (prev # takeWhile (\<lambda>a. \<not> P (the (N a))) as), hd (dropWhile (\<lambda>a. \<not> P (the (N a))) as))
      else (last (prev # as), 0)))"
proof (induction as arbitrary: p prev)
  case Nil
  then show ?case by (simp add: find_node.simps)
next
  case (Cons a as)
  then obtain n where n: "p = a" "a \<noteq> 0" "N a = Some n" "nlist N (nnext n) as" by auto
  show ?case
  proof (cases "P n")
    case True
    then show ?thesis using n by (subst find_node.simps) simp
  next
    case False
    then have "find_node N P prev p = find_node N P a (nnext n)" using n by (subst find_node.simps) simp
    then show ?thesis using Cons.IH[OF n(4), of a] n False by simp
  qed
qed

lemma split_first:
  assumes "\<exists>a \<in> set as. P a"
  obtains us a vs where "as = us @ a # vs" "\<forall>u \<in> set us. \<not> P u" "P a"
    "takeWhile (\<lambda>a. \<not> P a) as = us" "hd (dropWhile (\<lambda>a. \<not> P a) as) = a"
proof -
  obtain us a vs where s: "as = us @ a # vs" "P a" "\<forall>u \<in> set us. \<not> P u"
    using split_list_first_prop[OF assms] by blast
  then have "takeWhile (\<lambda>a. \<not> P a) as = us" "dropWhile (\<lambda>a. \<not> P a) as = a # vs" by simp_all
  then show ?thesis using that s by auto
qed

lemma enqueue_list:
  assumes q: "queue_at s qp as" and n: "nodes s np = Some n" "nnext n = 0" "np \<noteq> 0" "np \<notin> set as"
  shows "\<exists>s'. msg_enqueue qp np s = Inr s' \<and> queue_at s' qp (as @ [np]) \<and>
    messages s' (as @ [np]) = messages s as @ [message_of n] \<and> ptable s' = ptable s \<and> memory s' = memory s"
proof -
  obtain q where q: "queues s qp = Some q" "nlist (nodes s) (qhead q) as" "distinct as"
    "as \<noteq> [] \<longrightarrow> qtail q = last as" using q by (auto simp: queue_at_def)
  show ?thesis
  proof (cases as rule: rev_cases)
    case Nil
    then show ?thesis using q n by (auto simp: msg_enqueue_def queue_at_def messages_def)
  next
    case (snoc us u)
    have u: "qtail q = u" "u \<in> set as" using q(4) snoc by auto
    obtain m where m: "nodes s u = Some m" using nlist_nodes[OF q(2) u(2)] by blast
    have h: "qhead q \<noteq> 0" using q(2) snoc by (cases us) auto
    let ?N = "(nodes s)(u \<mapsto> m\<lparr>nnext := np\<rparr>)"
    let ?s = "s\<lparr>nodes := ?N, queues := (queues s)(qp \<mapsto> q\<lparr>qtail := np\<rparr>)\<rparr>"
    have e: "msg_enqueue qp np s = Inr ?s" using q(1) h u(1) m by (simp add: msg_enqueue_def)
    have "nlist ?N (qhead q) (us @ [u] @ [np])"
      using q(2,3) snoc n m u by (intro nlist_relink[where ws = "[]"]) auto
    then have "queue_at ?s qp (as @ [np])" using q(3) n(4) snoc by (auto simp: queue_at_def)
    moreover have "message_of (the (?N a)) = message_of (the (nodes s a))" for a
      using m by (simp add: message_of_def)
    then have "messages ?s (as @ [np]) = messages s as @ [message_of n]" using n(1) by (simp add: messages_def)
    ultimately show ?thesis using e by auto
  qed
qed

lemma unlink_list:
  assumes q: "queue_at s qp (us @ a # vs)"
  shows "\<exists>s'. msg_unlink qp (last (0 # us)) a s = Inr s' \<and> queue_at s' qp (us @ vs) \<and> a \<notin> set (us @ vs) \<and>
    messages s' (us @ vs) = messages s us @ messages s vs \<and> nodes s' a = nodes s a \<and>
    ptable s' = ptable s \<and> memory s' = memory s"
proof -
  obtain q where q: "queues s qp = Some q" "nlist (nodes s) (qhead q) (us @ a # vs)" "distinct (us @ a # vs)"
    "qtail q = last (us @ a # vs)" using q by (auto simp: queue_at_def)
  obtain n where n: "nodes s a = Some n" using nlist_nodes[OF q(2), of a] by auto
  have tl: "nlist (nodes s) (nnext n) vs" using nlist_tail[OF q(2)] n by simp
  show ?thesis
  proof (cases us rule: rev_cases)
    case Nil
    then show ?thesis
      using q n tl by (auto simp: msg_unlink_def queue_at_def messages_def last_ConsR split: if_splits)
  next
    case (snoc ws u)
    then have u: "last (0 # us) = u" "u \<in> set us" "u \<noteq> 0" using nlist_nonzero[OF q(2)] by auto
    obtain m where m: "nodes s u = Some m" using nlist_nodes[OF q(2), of u] u by auto
    let ?N = "(nodes s)(u \<mapsto> m\<lparr>nnext := nnext n\<rparr>)"
    let ?q = "if a = qtail q then q\<lparr>qtail := u\<rparr> else q"
    let ?s = "s\<lparr>nodes := ?N, queues := (queues s)(qp \<mapsto> ?q)\<rparr>"
    have e: "msg_unlink qp (last (0 # us)) a s = Inr ?s"
      using q(1) n m u by (simp add: msg_unlink_def)
    have "nlist ?N (qhead q) (ws @ [u] @ vs)"
      using q(2,3) snoc m tl u by (intro nlist_relink[where ws = "a # vs"]) auto
    then have nl: "nlist ?N (qhead ?q) (us @ vs)" using snoc by simp
    have "qtail ?q = last (us @ vs)"
      using q(3,4) snoc by (cases vs rule: rev_cases) auto
    then have "queue_at ?s qp (us @ vs)" using nl q(3) by (simp add: queue_at_def)
    moreover have "message_of (the (?N b)) = message_of (the (nodes s b))" for b
      using m by (simp add: message_of_def)
    then have "messages ?s (us @ vs) = messages s us @ messages s vs" by (simp add: messages_def)
    moreover have "nodes ?s a = nodes s a" "a \<notin> set (us @ vs)" using u q(3) by auto
    ultimately show ?thesis using e by auto
  qed
qed

lemma queue_at_cong:
  assumes "queues s' qp = queues s qp" "\<And>a. a \<in> set as \<Longrightarrow> nodes s' a = nodes s a"
  shows "queue_at s' qp as = queue_at s qp as" "messages s' as = messages s as"
proof -
  have "nlist (nodes s') p as = nlist (nodes s) p as" for p using assms(2) by (rule nlist_cong)
  then show "queue_at s' qp as = queue_at s qp as" using assms(1) by (simp add: queue_at_def)
  show "messages s' as = messages s as" using assms(2) by (simp add: messages_def)
qed

lemma ustores_memory: "ustores me a bs s = Inr s' \<Longrightarrow> \<exists>m. s' = s\<lparr>memory := m\<rparr>"
proof (induction bs arbitrary: a s)
  case Nil
  then have "s' = s\<lparr>memory := memory s\<rparr>" by simp
  then show ?case by blast
next
  case (Cons b bs)
  then obtain t where t: "ustore me a b s = Inr t" "ustores me (a + 1) bs t = Inr s'"
    by (auto simp: bind_res_Inr_iff)
  obtain m where m: "t = s\<lparr>memory := m\<rparr>" using t(1) by (auto simp: ustore_def split: option.splits)
  obtain m' where "s' = t\<lparr>memory := m'\<rparr>" using Cons.IH[OF t(2)] by blast
  then have "s' = s\<lparr>memory := m'\<rparr>" using m by simp
  then show ?case by blast
qed

definition only_mem :: "'a msgs_scheme \<Rightarrow> 'a msgs_scheme \<Rightarrow> bool" where
  "only_mem s s' \<longleftrightarrow> queues s' = queues s \<and> nodes s' = nodes s \<and> ptable s' = ptable s"

lemma only_mem_ustores: "ustores me a bs s = Inr s' \<Longrightarrow> only_mem s s'"
  using ustores_memory[of me a bs s s'] by (auto simp: only_mem_def)

lemma only_mem_kfree: "kfree p s = Inr s' \<Longrightarrow> only_mem s s'"
  using kmem_same_kfree[of p s s'] by (auto simp: only_mem_def elim: kmem_same_of)

lemma only_mem_refl: "only_mem s s"
  by (simp add: only_mem_def)

lemma only_mem_trans: "only_mem s t \<Longrightarrow> only_mem t u \<Longrightarrow> only_mem s u"
  by (simp add: only_mem_def)

lemma free_node_effect:
  assumes "free_node p s = Inr s'"
  shows "queues s' = queues s \<and> nodes s' = (nodes s)(p := None) \<and> ptable s' = ptable s"
  using assms only_mem_kfree[of p s] by (auto simp: free_node_def bind_res_Inr_iff only_mem_def)

lemma msg_deliver_effect:
  assumes "msg_deliver cur msgsz me s = Inr (v, s')" "nodes s cur = Some n"
  shows "queues s' = queues s \<and> nodes s' = (nodes s)(cur := None) \<and>
    (v = - 1 \<or> v = (if mlen n < msgsz then mlen n else msgsz))"
proof -
  let ?c = "if mlen n < msgsz then mlen n else msgsz"
  obtain r where r: "argptr me 1 (4 + ?c) s = Inr r"
    using assms by (auto simp: msg_deliver_def bind_res_Inr_iff Let_def)
  show ?thesis
  proof (cases r)
    case None
    then obtain t where "free_node cur s = Inr t" "s' = t" "v = - 1"
      using assms r by (auto simp: msg_deliver_def bind_res_Inr_iff Let_def)
    then show ?thesis using free_node_effect by blast
  next
    case (Some msgp)
    then obtain t1 t2 t3 where t: "ustore32 me msgp (msgtyp n) s = Inr t1"
      "(if sint ?c > 0 then if unat ?c > length (mdata n) then Inl (Bad_Access ''msgrcv'')
          else ustores me (msgp + 4) (take (unat ?c) (mdata n)) t1 else Inr t1) = Inr t2"
      "free_node cur t2 = Inr t3" "s' = t3" "v = ?c"
      using assms r by (auto simp: msg_deliver_def bind_res_Inr_iff Let_def)
    have "only_mem s t1" using t(1) unfolding ustore32_def by (rule only_mem_ustores)
    moreover have "only_mem t1 t2" using t(2) by (auto split: if_splits intro: only_mem_ustores only_mem_refl)
    ultimately have "only_mem s t2" by (rule only_mem_trans)
    then show ?thesis using free_node_effect[OF t(3)] t(4,5) by (auto simp: only_mem_def)
  qed
qed

text \<open>
  C15. Sending refines appending to a list. When \<open>msgsnd\<close> returns 0 for a queue whose messages sit in the
  pages \<open>as\<close>, the queue has afterwards the same messages in the same order, followed by the new one,
  whose type, length and data are those of the caller's buffer.
\<close>

theorem msgsnd_appends:
  assumes snd: "msgsnd msqid msgp msgsz me s = Inr (0, s')"
    and find: "find_queue (queues s) (\<lambda>q. qid q = msqid) 0 (queue_list_head s) = Some (Inr (prev, qp))" "qp \<noteq> 0"
    and q: "queue_at s qp as" "fst (kalloc s) \<notin> set as"
  shows "\<exists>np ty bs. queue_at s' qp (as @ [np]) \<and> messages s' (as @ [np]) = messages s as @ [(ty, msgsz, bs)] \<and>
    uload32 me msgp s = Inr ty \<and> (sint msgsz > 0 \<longrightarrow> uloads me (msgp + 4) (unat msgsz) s = Inr bs)"
proof -
  let ?s0 = "queue_table_initialize s"
  have init: "queues ?s0 = queues s" "nodes ?s0 = nodes s" "queue_list_head ?s0 = queue_list_head s"
    "ptable ?s0 = ptable s" "memory ?s0 = memory s" "freelist ?s0 = freelist s"
    by (simp_all add: queue_table_initialize_def)
  obtain np t where k: "kalloc ?s0 = (np, t)" by (cases "kalloc ?s0")
  have t: "queues t = queues s" "nodes t = nodes s" "ptable t = ptable s" "memory t = memory s"
    using k init by (auto simp: kalloc_def Let_def split: if_splits)
  have np: "np = fst (kalloc s)" using k init by (auto simp: kalloc_def Let_def split: if_splits)
  obtain ty bs where l: "np \<noteq> 0" "uload32 me msgp t = Inr ty"
    "(if sint msgsz > 0 then uloads me (msgp + 4) (unat msgsz) t else Inr []) = Inr bs"
    and e: "\<exists>v. msg_enqueue qp np (t\<lparr>nodes := (nodes t)(np \<mapsto> \<lparr>nnext = 0, msgtyp = ty, mlen = msgsz, mdata = bs\<rparr>)\<rparr>) = Inr v \<and>
      s' = wakeup (Queue_chan (unat qp)) v"
    using snd find k init
    by (auto simp: msgsnd_def Let_def of_loop_def bind_res_Inr_iff split: if_splits)
  let ?n = "\<lparr>nnext = 0, msgtyp = ty, mlen = msgsz, mdata = bs\<rparr>"
  let ?t = "t\<lparr>nodes := (nodes t)(np \<mapsto> ?n)\<rparr>"
  have eqs: "nodes ?t a = nodes s a" if "a \<in> set as" for a using that np q(2) t(2) by auto
  have q': "queue_at ?t qp as" "messages ?t as = messages s as"
    using queue_at_cong[of ?t qp s as] eqs q(1) t(1) by simp_all
  obtain v where v: "msg_enqueue qp np ?t = Inr v" "queue_at v qp (as @ [np])"
    "messages v (as @ [np]) = messages ?t as @ [message_of ?n]"
    using enqueue_list[OF q'(1), of np ?n] l(1) np q(2) by auto
  have s': "s' = wakeup (Queue_chan (unat qp)) v" using e v(1) by simp
  have "queue_at s' qp (as @ [np])" "messages s' (as @ [np]) = messages v (as @ [np])"
    using v(2) queue_at_cong[of s' qp v "as @ [np]"] by (simp_all add: s' wakeup_def wakeup1_def)
  moreover have "uload me a t = uload me a s" for a using t(3,4) by (simp add: uload_def split: option.split)
  then have "uloads me a k t = uloads me a k s" for a k by (induction k arbitrary: a) simp_all
  then have "uload32 me msgp s = Inr ty" "sint msgsz > 0 \<longrightarrow> uloads me (msgp + 4) (unat msgsz) s = Inr bs"
    using l(2,3) by (auto simp: uload32_def split: if_splits)
  ultimately show ?thesis using v(3) q'(2) by (auto simp: message_of_def)
qed

text \<open>A queue with id 1 and two messages, of types 7 and 9, and a free page.\<close>

definition demo_msgs :: msgs where
  "demo_msgs = mutexes.extend
     (demo_mutexes\<lparr>memory := demo_umem, freelist := 0x80407000, ptable := ptable demo_user\<rparr>)
     \<lparr>queues = [0x80404000 \<mapsto> \<lparr>qnext = 0, qid = 1, qkey = 5, qhead = 0x80405000, qtail = 0x80406000\<rparr>],
      nodes = [0x80405000 \<mapsto> \<lparr>nnext = 0x80406000, msgtyp = 7, mlen = 1, mdata = [11]\<rparr>,
               0x80406000 \<mapsto> \<lparr>nnext = 0, msgtyp = 9, mlen = 2, mdata = [12, 13]\<rparr>],
      queue_list_head = 0x80404000, queue_list_initialized = True, next_queue_id = 2\<rparr>"

lemma demo_msgs_simps [simp]:
  "memory demo_msgs = demo_umem" "freelist demo_msgs = 0x80407000" "ptable demo_msgs = ptable demo_user"
  "queue_list_head demo_msgs = 0x80404000" "queue_list_initialized demo_msgs = True" "kend demo_msgs = 0x80110000"
  by (simp_all add: demo_msgs_def mutexes.extend_def demo_mutexes_def shm.extend_def demo_mem_def)

lemma demo_queue:
  "find_queue (queues demo_msgs) (\<lambda>q. qid q = 1) 0 0x80404000 = Some (Inr (0, 0x80404000))"
  "queue_at demo_msgs 0x80404000 [0x80405000, 0x80406000]"
  "messages demo_msgs [0x80405000, 0x80406000] = [(7, 1, [11]), (9, 2, [12, 13])]"
  by (simp_all add: find_queue.simps queue_at_def messages_def message_of_def demo_msgs_def mutexes.extend_def)

lemma demo_uload: "a < 4096 \<Longrightarrow> uload (Suc 0) a demo_msgs = Inr (demo_umem (0x80402000 + a))"
  by (simp add: uload_def demo_mmu demo_entries_def demo_umem_read)

theorem msgsnd_appends_witness:
  "\<exists>s' np. msgsnd 1 0 2 1 demo_msgs = Inr (0, s') \<and>
     messages s' [0x80405000, 0x80406000, np] = [(7, 1, [11]), (9, 2, [12, 13]), (0, 2, [16, 0])]"
proof -
  have k: "kalloc demo_msgs = (0x80407000, demo_msgs\<lparr>freelist := read32 demo_umem 0x80407000\<rparr>)"
    by (simp add: kalloc_def)
  let ?t = "demo_msgs\<lparr>freelist := read32 demo_umem 0x80407000\<rparr>"
  have ul: "uload (Suc 0) a ?t = Inr (demo_umem (0x80402000 + a))" if "a < 4096" for a
    using demo_uload[OF that] by (simp add: uload_def split: option.splits)
  have l: "uload32 1 0 ?t = Inr 0" "uloads 1 4 2 ?t = Inr [16, 0]"
    by (simp_all add: uload32_def eval_nat_numeral, simp_all add: ul word_of_def,
      simp_all add: demo_umem_def write32_def)
  let ?n = "\<lparr>nnext = 0, msgtyp = 0, mlen = 2, mdata = [16, 0]\<rparr>"
  let ?u = "?t\<lparr>nodes := (nodes ?t)(0x80407000 \<mapsto> ?n)\<rparr>"
  have "queue_at ?u 0x80404000 [0x80405000, 0x80406000]"
    using demo_queue(2) by (subst queue_at_cong(1)[where s = demo_msgs]) auto
  from enqueue_list[OF this, of "0x80407000" ?n] obtain v where "msg_enqueue 0x80404000 0x80407000 ?u = Inr v" by auto
  then have s: "msgsnd 1 0 2 1 demo_msgs = Inr (0, wakeup (Queue_chan (unat (0x80404000 :: u32))) v)"
    using k l demo_queue(1) by (simp add: msgsnd_def queue_table_initialize_def of_loop_def)
  have np: "fst (kalloc demo_msgs) \<notin> set [0x80405000, 0x80406000]" using k by simp
  obtain np ty bs where "messages (wakeup (Queue_chan (unat (0x80404000 :: u32))) v) ([0x80405000, 0x80406000] @ [np]) =
      [(7, 1, [11]), (9, 2, [12, 13])] @ [(ty, 2, bs)]" "uload32 1 0 demo_msgs = Inr ty" "uloads 1 4 2 demo_msgs = Inr bs"
    using msgsnd_appends[OF s, of 0 "0x80404000" "[0x80405000, 0x80406000]"] demo_queue np by auto
  moreover have "uload32 1 0 demo_msgs = Inr 0" "uloads 1 4 2 demo_msgs = Inr [16, 0]"
    by (simp_all add: uload32_def eval_nat_numeral, simp_all add: demo_uload word_of_def,
      simp_all add: demo_umem_def write32_def)
  ultimately show ?thesis using s by auto
qed

text \<open>
  C16. Receiving refines taking the first message of the wanted type. If there is one, the call returns
  without sleeping, the others stay in their order, and the result is the smaller of the message's
  length and the caller's size, or \<open>-1\<close> when the buffer is bad: the message is lost then. If there is
  none, the queue is unchanged, and the call fails or sleeps.
\<close>

theorem msgrcv_takes_first:
  assumes rcv: "msgrcv_loop qp msgsz typ flg c me s = Inr (r, s')" and q: "queue_at s qp as"
  shows "case take_first (\<lambda>m. typ = 0 \<or> fst m = typ) (messages s as) of
      Some ((t, l, bs), ms) \<Rightarrow>
        \<exists>as' v. r = Done v \<and> queue_at s' qp as' \<and> messages s' as' = ms \<and> (v = - 1 \<or> v = min l msgsz)
    | None \<Rightarrow> queue_at s' qp as \<and> messages s' as = messages s as \<and> (r = Done (- 1) \<or> r = Blocked)"
proof -
  let ?P = "\<lambda>n. typ = 0 \<or> msgtyp n = typ" and ?M = "\<lambda>m :: message. typ = 0 \<or> fst m = typ"
  have PM: "?M (message_of n) = ?P n" for n by (simp add: message_of_def)
  obtain qr where qr: "queues s qp = Some qr" "nlist (nodes s) (qhead qr) as" "distinct as"
    using q by (auto simp: queue_at_def)
  note f = find_node_spec[OF qr(2), of ?P 0]
  show ?thesis
  proof (cases "\<exists>a \<in> set as. ?P (the (nodes s a))")
    case True
    then obtain us a vs where sp: "as = us @ a # vs" "\<forall>u \<in> set us. \<not> ?P (the (nodes s u))" "?P (the (nodes s a))"
      "takeWhile (\<lambda>a. \<not> ?P (the (nodes s a))) as = us" "hd (dropWhile (\<lambda>a. \<not> ?P (the (nodes s a))) as) = a"
      by (rule split_first)
    obtain n where n: "nodes s a = Some n" using nlist_nodes[OF qr(2), of a] sp(1) by auto
    have a0: "a \<noteq> 0" using nlist_nonzero[OF qr(2)] sp(1) by auto
    obtain t where t: "msg_unlink qp (last (0 # us)) a s = Inr t" "queue_at t qp (us @ vs)" "a \<notin> set (us @ vs)"
      "messages t (us @ vs) = messages s us @ messages s vs" "nodes t a = nodes s a"
      using unlink_list[of s qp us a vs] q sp(1) by auto
    have fn: "find_node (nodes s) ?P 0 (qhead qr) = Some (Inr (last (0 # us), a))" using f True sp(4,5) by simp
    then obtain v where v: "msg_deliver a msgsz me t = Inr (v, s')" "r = Done v"
      using rcv qr(1) t(1) a0 by (auto simp: msgrcv_loop_def of_loop_def bind_res_Inr_iff)
    have d: "queues s' = queues t" "nodes s' = (nodes t)(a := None)"
      "v = - 1 \<or> v = (if mlen n < msgsz then mlen n else msgsz)"
      using msg_deliver_effect[OF v(1), of n] t(5) n by auto
    have same: "nodes s' b = nodes t b" if "b \<in> set (us @ vs)" for b using that t(3) d(2) by auto
    have "queue_at s' qp (us @ vs)" "messages s' (us @ vs) = messages t (us @ vs)"
      using queue_at_cong[of s' qp t "us @ vs"] same t(2) d(1) by simp_all
    moreover have "take_first ?M (messages s as) = Some (message_of n, messages s us @ messages s vs)"
    proof -
      have "messages s as = messages s us @ message_of n # messages s vs" using sp(1) n by (simp add: messages_def)
      moreover have "\<forall>m \<in> set (messages s us). \<not> ?M m"
        unfolding messages_def set_map by (intro ballI, elim imageE) (use sp(2) PM in blast)
      moreover have "?M (message_of n)" using sp(3) n PM[of n] by simp
      ultimately show ?thesis using take_first_split[of "messages s us" ?M "message_of n" "messages s vs"] by simp
    qed
    moreover have "(if mlen n < msgsz then mlen n else msgsz) = min (mlen n) msgsz" by (auto simp: min_def)
    ultimately show ?thesis using v(2) d(3) t(4) by (auto simp: message_of_def)
  next
    case False
    then have fn: "find_node (nodes s) ?P 0 (qhead qr) = Some (Inr (last (0 # as), 0))" using f by simp
    have "take_first ?M (messages s as) = None"
      unfolding take_first_None messages_def set_map by (intro ballI, elim imageE) (use False PM in blast)
    moreover have "s' = s \<and> r = Done (- 1) \<or> sleep c me (Queue_chan (unat qp)) s = Inr s' \<and> r = Blocked"
      using rcv qr(1) fn by (auto simp: msgrcv_loop_def of_loop_def bind_res_Inr_iff split: if_splits)
    moreover have "queues s' = queues s \<and> nodes s' = nodes s" if "sleep c me (Queue_chan (unat qp)) s = Inr s'"
      using that by (auto simp: sleep_def sched_def scheduler_back_def switchkvm_def upd_proc_def split: if_splits)
    ultimately show ?thesis using q queue_at_cong[of s' qp s as] by auto
  qed
qed

theorem msgrcv_takes_first_witness:
  "\<exists>s'. msgrcv_loop 0x80404000 10 8 IPC_NOWAIT 0 1 demo_msgs = Inr (Done (- 1), s') \<and>
     messages s' [0x80405000, 0x80406000] = [(7, 1, [11]), (9, 2, [12, 13])]"
proof -
  have r: "msgrcv_loop 0x80404000 10 8 IPC_NOWAIT 0 1 demo_msgs = Inr (Done (- 1), demo_msgs)"
    by (simp add: msgrcv_loop_def demo_msgs_def mutexes.extend_def find_node.simps of_loop_def returns_def)
  from msgrcv_takes_first[OF r demo_queue(2)] show ?thesis using r demo_queue(3) by simp
qed



end
