(* ===== verification/Ring.thy ===== *)
theory Ring
  imports Prelude
begin

text \<open>
  Ring buffers indexed by free-running 32-bit counters, as pipes and the console use them: the bytes
  between the counters \<open>r\<close> and \<open>w\<close> sit at their values modulo the size. The locale \<open>ring_size\<close> states
  what the size must satisfy for the counters to be allowed to wrap around; the locale \<open>fifo\<close> is the
  contract of a bounded queue that the users of a ring rely on.
\<close>

definition ring_items :: "nat \<Rightarrow> 'b list \<Rightarrow> u32 \<Rightarrow> u32 \<Rightarrow> 'b list" where
  "ring_items N d r w = map (\<lambda>i. d ! (unat (r + of_nat i) mod N)) [0..<unat (w - r)]"

lemma ring_items_length [simp]: "length (ring_items N d r w) = unat (w - r)"
  by (simp add: ring_items_def)

lemma ring_items_empty [simp]: "ring_items N d r r = []"
  by (simp add: ring_items_def)

lemma ring_items_Nil_iff: "ring_items N d r w = [] \<longleftrightarrow> r = w"
proof -
  have "w - r = 0 \<longleftrightarrow> r = w" by auto
  then show ?thesis by (simp add: ring_items_def unat_eq_0)
qed

lemma unat_pred: "(x :: u32) \<noteq> 0 \<Longrightarrow> unat x = Suc (unat (x - 1))"
  by (metis Suc_pred' unat_gt_0 unat_minus_one)

lemma ring_items_take:
  assumes "r \<noteq> w"
  shows "ring_items N d r w = d ! (unat r mod N) # ring_items N d (r + 1) w"
proof -
  have "unat (w - r) = Suc (unat (w - (r + 1)))"
    using assms unat_pred[of "w - r"] by (simp add: algebra_simps)
  moreover have "[0..<Suc m] = 0 # map Suc [0..<m]" for m by (simp add: map_Suc_upt upt_conv_Cons del: upt_Suc)
  ultimately show ?thesis by (simp add: ring_items_def comp_def add.assoc del: upt_Suc)
qed

lemma ring_items_unput:
  assumes "r \<noteq> w"
  shows "ring_items N d r w = ring_items N d r (w - 1) @ [d ! (unat (w - 1) mod N)]"
proof -
  have "unat (w - r) = Suc (unat (w - 1 - r))"
    using assms unat_pred[of "w - r"] by (simp add: algebra_simps)
  then show ?thesis by (simp add: ring_items_def)
qed

text \<open>A counter between the two splits the queue.\<close>

lemma ring_items_split:
  assumes "unat (w - r) \<le> unat (e - r)"
  shows "ring_items N d r e = ring_items N d r w @ ring_items N d w e"
proof -
  let ?a = "unat (w - r)" and ?b = "unat (e - w)"
  have "e - w = (e - r) - (w - r)" by simp
  then have "?b = unat (e - r) - ?a" using assms by (simp only: unat_sub word_le_nat_alt)
  then have tot: "unat (e - r) = ?a + ?b" using assms by simp
  have upt: "[0..<m + k] = [0..<m] @ map (\<lambda>i. m + i) [0..<k]" for m k :: nat
    by (induction k) simp_all
  have step: "r + of_nat (?a + i) = w + of_nat i" for i by simp
  have "ring_items N d r e = ring_items N d r w @ map (\<lambda>i. d ! (unat (r + of_nat (?a + i)) mod N)) [0..<?b]"
    unfolding ring_items_def tot upt by (simp only: map_append map_map comp_def)
  then show ?thesis by (simp only: step ring_items_def)
qed

locale ring_size =
  fixes N :: nat
  assumes pos: "0 < N" and small: "N < 2 ^ 32" and wraps: "N dvd 2 ^ 32"
begin

lemma slot: "unat (r + of_nat i :: u32) mod N = (unat r + i) mod N"
proof -
  have "unat (r + of_nat i) = (unat r + i) mod 2 ^ 32"
    by (simp add: unat_word_ariths unsigned_of_nat take_bit_eq_mod mod_add_right_eq)
  then show ?thesis using wraps by (simp add: mod_mod_cancel)
qed

lemma slot_distinct:
  assumes "i < N" "j < i"
  shows "unat (r + of_nat i :: u32) mod N \<noteq> unat (r + of_nat j) mod N"
proof
  assume "unat (r + of_nat i) mod N = unat (r + of_nat j) mod N"
  then have "(unat r + i) mod N = (unat r + j) mod N" by (simp only: slot)
  then have "N dvd unat r + i - (unat r + j)" using assms(2) mod_eq_dvd_iff_nat[of "unat r + j" "unat r + i" N] by simp
  then show False using assms by (auto dest: dvd_imp_le)
qed

text \<open>A byte stored at the write counter is appended, whatever the counters are.\<close>

lemma ring_items_put:
  assumes "length d = N" "unat (w - r) < N"
  shows "ring_items N (d[unat w mod N := x]) r (w + 1) = ring_items N d r w @ [x]"
proof -
  let ?n = "unat (w - r)"
  have w: "w = r + of_nat ?n" by simp
  have "w + 1 - r = (w - r) + 1" by simp
  moreover have "unat (w - r + 1) = Suc ?n" using assms(2) small by (simp add: unat_word_ariths(1))
  ultimately have "unat (w + 1 - r) = Suc ?n" by (simp only:)
  moreover have "d[unat w mod N := x] ! (unat (r + of_nat i) mod N) = d ! (unat (r + of_nat i) mod N)" if "i < ?n" for i
    using slot_distinct[OF assms(2) that, of r] w by simp
  moreover have "d[unat w mod N := x] ! (unat (r + of_nat ?n) mod N) = x"
    using assms(1) pos by (simp add: w[symmetric])
  ultimately show ?thesis by (simp add: ring_items_def)
qed

end

section \<open>Bounded queues\<close>

locale fifo =
  fixes ok :: "'q \<Rightarrow> bool"
    and items :: "'q \<Rightarrow> 'b list"
    and put :: "'b \<Rightarrow> 'q \<Rightarrow> 'q"
    and get :: "'q \<Rightarrow> 'b \<times> 'q"
    and cap :: nat
  assumes bound: "ok q \<Longrightarrow> length (items q) \<le> cap"
    and put_items: "ok q \<Longrightarrow> length (items q) < cap \<Longrightarrow> ok (put x q) \<and> items (put x q) = items q @ [x]"
    and get_items: "ok q \<Longrightarrow> items q \<noteq> [] \<Longrightarrow> ok (snd (get q)) \<and> items q = fst (get q) # items (snd (get q))"
begin

text \<open>Storing as many elements as fit appends them in order.\<close>

lemma puts_items:
  "ok q \<Longrightarrow> length (items q) + length xs \<le> cap \<Longrightarrow>
    ok (fold put xs q) \<and> items (fold put xs q) = items q @ xs"
proof (induction xs arbitrary: q)
  case (Cons x xs)
  then show ?case using put_items[of q x] Cons.IH[of "put x q"] by simp
qed simp

text \<open>What was put into an empty queue is taken out in the same order.\<close>

lemma put_get:
  assumes "ok q" "items q = []" "0 < cap"
  shows "fst (get (put x q)) = x \<and> items (snd (get (put x q))) = []"
  using put_items[of q x] get_items[of "put x q"] assms by simp

end

end
