(* ===== verification/Pipe.thy ===== *)
theory Pipe
  imports Msgqueue Ring
begin

text \<open>
  Pipes (\<open>pipe.c\<close>) and the closing of files (\<open>fileclose\<close> of \<open>file.c\<close>). A pipe lives in a page of its
  own and is kept in a store from the address of the page; freeing it removes it from the store.
  \<open>pipewrite\<close> and \<open>piperead\<close> refine a bounded byte queue.
\<close>

section \<open>Structures\<close>

text \<open>\<open>PIPESIZE\<close> is 512.\<close>

record pipe =
  pdata :: "u8 list"
  nread :: u32
  nwrite :: u32
  readopen :: u32
  writeopen :: u32

record pipes = msgs +
  pipe_at :: "nat \<rightharpoonup> pipe"

definition set_pipe :: "nat \<Rightarrow> pipe \<Rightarrow> 'a pipes_scheme \<Rightarrow> 'a pipes_scheme" where
  "set_pipe p q s = s\<lparr>pipe_at := (pipe_at s)(p \<mapsto> q)\<rparr>"

definition the_pipe :: "nat \<Rightarrow> 'a pipes_scheme \<Rightarrow> fault + pipe" where
  "the_pipe p s = (case pipe_at s p of None \<Rightarrow> Inl (Bad_Access ''pipe'') | Some q \<Rightarrow> Inr q)"

section \<open>Closing\<close>

definition pipeclose :: "nat \<Rightarrow> bool \<Rightarrow> 'a pipes_scheme \<Rightarrow> fault + 'a pipes_scheme" where
  "pipeclose p writable s =
     bind_res (the_pipe p s) (\<lambda>q.
       let q = (if writable then q\<lparr>writeopen := 0\<rparr> else q\<lparr>readopen := 0\<rparr>);
           s = wakeup (if writable then Pipe_nread p else Pipe_nwrite p) (set_pipe p q s)
       in if readopen q = 0 \<and> writeopen q = 0
          then kfree (of_nat p) (s\<lparr>pipe_at := (pipe_at s)(p := None)\<rparr>)
          else Inr s)"

text \<open>\<open>iput_op\<close> is the transaction that drops the reference to the inode of the file.\<close>

definition fileclose ::
  "(nat option \<Rightarrow> 'a pipes_scheme \<Rightarrow> fault + 'a pipes_scheme) \<Rightarrow> nat \<Rightarrow> 'a pipes_scheme \<Rightarrow> fault + 'a pipes_scheme" where
  "fileclose iput_op f s =
     (if f \<ge> length (ftable s) then Inl (Bad_Access ''fileclose'')
      else let ff = ftable s ! f
        in if sint (fref ff) < 1 then Inl (Panic ''fileclose'')
        else if sint (fref ff - 1) > 0 then Inr (s\<lparr>ftable := (ftable s)[f := ff\<lparr>fref := fref ff - 1\<rparr>]\<rparr>)
        else let s = s\<lparr>ftable := (ftable s)[f := ff\<lparr>fref := 0, ftype := FD_NONE\<rparr>]\<rparr>
          in case ftype ff of
               FD_PIPE \<Rightarrow> (case fpipe ff of
                   None \<Rightarrow> Inl (Bad_Access ''pipe'')
                 | Some p \<Rightarrow> pipeclose p (fwritable ff \<noteq> 0) s)
             | FD_INODE \<Rightarrow> iput_op (fip ff) s
             | FD_NONE \<Rightarrow> Inr s)"

section \<open>Opening\<close>

definition pipealloc ::
  "(nat option \<Rightarrow> 'a pipes_scheme \<Rightarrow> fault + 'a pipes_scheme) \<Rightarrow> 'a pipes_scheme
    \<Rightarrow> fault + (nat \<times> nat) option \<times> 'a pipes_scheme" where
  "pipealloc iput_op s =
     (case filealloc s of
        (None, s) \<Rightarrow> Inr (None, s)
      | (Some f0, s) \<Rightarrow>
        case filealloc s of
          (None, s) \<Rightarrow> bind_res (fileclose iput_op f0 s) (\<lambda>s. Inr (None, s))
        | (Some f1, s) \<Rightarrow>
          case kalloc s of (a, s) \<Rightarrow>
          if a = 0 then
            bind_res (fileclose iput_op f0 s) (\<lambda>s.
            bind_res (fileclose iput_op f1 s) (\<lambda>s. Inr (None, s)))
          else
            let p = unat a;
                s = set_pipe p \<lparr>pdata = map (\<lambda>i. memory s (a + 52 + of_nat i)) [0..<512],
                      nread = 0, nwrite = 0, readopen = 1, writeopen = 1\<rparr> s;
                s = s\<lparr>ftable := (ftable s)[f0 := (ftable s ! f0)\<lparr>ftype := FD_PIPE, freadable := 1, fwritable := 0, fpipe := Some p\<rparr>]\<rparr>;
                s = s\<lparr>ftable := (ftable s)[f1 := (ftable s ! f1)\<lparr>ftype := FD_PIPE, freadable := 0, fwritable := 1, fpipe := Some p\<rparr>]\<rparr>
            in Inr (Some (f0, f1), s))"

section \<open>Reading and writing\<close>

definition pipe_put :: "u8 \<Rightarrow> pipe \<Rightarrow> pipe" where
  "pipe_put x q = q\<lparr>pdata := (pdata q)[unat (nwrite q) mod 512 := x], nwrite := nwrite q + 1\<rparr>"

definition pipe_get :: "pipe \<Rightarrow> u8 \<times> pipe" where
  "pipe_get q = (pdata q ! (unat (nread q) mod 512), q\<lparr>nread := nread q + 1\<rparr>)"

text \<open>
  The loops continue at byte \<open>i\<close> of the buffer; a blocked write reports how far it came, where it goes
  on when it is woken.
\<close>

function pipewrite_loop ::
  "nat \<Rightarrow> u32 \<Rightarrow> u32 \<Rightarrow> nat \<Rightarrow> nat \<Rightarrow> nat \<Rightarrow> 'a pipes_scheme \<Rightarrow> fault + u32 outcome \<times> nat \<times> 'a pipes_scheme" where
  "pipewrite_loop p addr n i c me s =
     (if int i < sint n then
        bind_res (the_pipe p s) (\<lambda>q.
        if nwrite q = nread q + 512 then
          if readopen q = 0 \<or> killed (ptable s ! me) \<noteq> 0 then Inr (Done (- 1), i, s)
          else bind_res (sleep c me (Pipe_nwrite p) (wakeup (Pipe_nread p) s)) (\<lambda>s. Inr (Blocked, i, s))
        else bind_res (uload me (addr + of_nat i) s) (\<lambda>x.
             pipewrite_loop p addr n (i + 1) c me (set_pipe p (pipe_put x q) s)))
      else Inr (Done n, i, wakeup (Pipe_nread p) s))"
  by pat_completeness auto
termination by (relation "measure (\<lambda>(p, addr, n, i, c, me, s). nat (sint n) - i)") auto

declare pipewrite_loop.simps [simp del]

definition pipewrite ::
  "nat \<Rightarrow> u32 \<Rightarrow> u32 \<Rightarrow> nat \<Rightarrow> nat \<Rightarrow> 'a pipes_scheme \<Rightarrow> fault + u32 outcome \<times> nat \<times> 'a pipes_scheme" where
  "pipewrite p addr n c me s = pipewrite_loop p addr n 0 c me s"

function piperead_copy ::
  "nat \<Rightarrow> u32 \<Rightarrow> u32 \<Rightarrow> nat \<Rightarrow> nat \<Rightarrow> 'a pipes_scheme \<Rightarrow> fault + nat \<times> 'a pipes_scheme" where
  "piperead_copy p addr n i me s =
     (if int i < sint n then
        bind_res (the_pipe p s) (\<lambda>q.
        if nread q = nwrite q then Inr (i, s)
        else bind_res (ustore me (addr + of_nat i) (fst (pipe_get q)) (set_pipe p (snd (pipe_get q)) s))
               (piperead_copy p addr n (i + 1) me))
      else Inr (i, s))"
  by pat_completeness auto
termination by (relation "measure (\<lambda>(p, addr, n, i, me, s). nat (sint n) - i)") auto

declare piperead_copy.simps [simp del]

definition piperead ::
  "nat \<Rightarrow> u32 \<Rightarrow> u32 \<Rightarrow> nat \<Rightarrow> nat \<Rightarrow> 'a pipes_scheme \<Rightarrow> fault + u32 outcome \<times> 'a pipes_scheme" where
  "piperead p addr n c me s =
     bind_res (the_pipe p s) (\<lambda>q.
     if nread q = nwrite q \<and> writeopen q \<noteq> 0 then
       if killed (ptable s ! me) \<noteq> 0 then Inr (Done (- 1), s)
       else bind_res (sleep c me (Pipe_nread p) s) (\<lambda>s. Inr (Blocked, s))
     else bind_res (piperead_copy p addr n 0 me s) (\<lambda>(i, s).
          Inr (Done (of_nat i), wakeup (Pipe_nwrite p) s)))"

section \<open>The queue of a pipe\<close>

definition pipe_ok :: "pipe \<Rightarrow> bool" where
  "pipe_ok q \<longleftrightarrow> length (pdata q) = 512 \<and> unat (nwrite q - nread q) \<le> 512"

definition pipe_items :: "pipe \<Rightarrow> u8 list" where
  "pipe_items q = ring_items 512 (pdata q) (nread q) (nwrite q)"

interpretation pring: ring_size 512
  by unfold_locales auto

lemma pipe_full_iff: "pipe_ok q \<Longrightarrow> nwrite q = nread q + 512 \<longleftrightarrow> length (pipe_items q) = 512"
proof -
  have "unat (nwrite q - nread q) = 512 \<longleftrightarrow> nwrite q - nread q = 512"
    using unsigned_word_eqI[of "nwrite q - nread q" "512"] by auto
  then show ?thesis by (auto simp: pipe_items_def algebra_simps)
qed

lemma pipe_empty_iff: "nread q = nwrite q \<longleftrightarrow> pipe_items q = []"
  by (auto simp: pipe_items_def ring_items_Nil_iff)

lemma pipe_put_items:
  assumes "pipe_ok q" "length (pipe_items q) < 512"
  shows "pipe_ok (pipe_put x q)" "pipe_items (pipe_put x q) = pipe_items q @ [x]"
proof -
  show i: "pipe_items (pipe_put x q) = pipe_items q @ [x]"
    using pring.ring_items_put[of "pdata q" "nwrite q" "nread q" x] assms
    by (simp add: pipe_items_def pipe_put_def pipe_ok_def)
  have "length (pipe_items (pipe_put x q)) \<le> 512" using i assms(2) by simp
  then show "pipe_ok (pipe_put x q)" using assms by (simp add: pipe_ok_def pipe_items_def pipe_put_def)
qed

lemma pipe_get_items:
  assumes "pipe_ok q" "pipe_items q \<noteq> []"
  shows "pipe_ok (snd (pipe_get q))" "pipe_items q = fst (pipe_get q) # pipe_items (snd (pipe_get q))"
proof -
  have ne: "nread q \<noteq> nwrite q" using assms(2) pipe_empty_iff by blast
  show i: "pipe_items q = fst (pipe_get q) # pipe_items (snd (pipe_get q))"
    using ring_items_take[OF ne, of 512 "pdata q"] by (simp add: pipe_items_def pipe_get_def)
  have "length (pipe_items (snd (pipe_get q))) \<le> length (pipe_items q)" by (subst i) simp
  then show "pipe_ok (snd (pipe_get q))" using assms by (simp add: pipe_ok_def pipe_items_def pipe_get_def)
qed

interpretation pfifo: fifo pipe_ok pipe_items pipe_put pipe_get 512
  by unfold_locales (auto simp: pipe_put_items pipe_get_items(1) pipe_get_items(2)[symmetric], simp add: pipe_ok_def pipe_items_def)

section \<open>The loops\<close>

lemma set_pipe_frame [simp]:
  "pipe_at (set_pipe p q s) = (pipe_at s)(p \<mapsto> q)" "ptable (set_pipe p q s) = ptable s"
  "memory (set_pipe p q s) = memory s" "uload me a (set_pipe p q s) = uload me a s"
  by (simp_all add: set_pipe_def uload_def split: option.splits)

lemma pipe_at_wakeup [simp]: "pipe_at (wakeup ch s) = pipe_at s" "length (ptable (wakeup ch s)) = length (ptable s)"
  by (simp_all add: wakeup_def wakeup1_def)

lemma sleep_goes:
  assumes "me < length (ptable s)"
  shows "\<exists>s'. sleep c me ch s = Inr s' \<and> ptable s' = (ptable s)[me := (ptable s ! me)\<lparr>chan := Some ch, pstate := SLEEPING\<rparr>]"
  using assms by (auto simp: sleep_def sched_def scheduler_back_def switchkvm_def upd_proc_def)

lemma pipe_at_sleep: "sleep c me ch s = Inr s' \<Longrightarrow> pipe_at s' = pipe_at s"
  by (auto simp: sleep_def sched_def scheduler_back_def switchkvm_def upd_proc_def split: if_splits)

text \<open>Readers of the pipe that were asleep have been made runnable.\<close>

definition woken :: "chan \<Rightarrow> 'a kernel_scheme \<Rightarrow> 'b kernel_scheme \<Rightarrow> bool" where
  "woken ch s s' \<longleftrightarrow> (\<forall>j < length (ptable s). pstate (ptable s ! j) = SLEEPING \<longrightarrow> chan (ptable s ! j) = Some ch \<longrightarrow>
     pstate (ptable s' ! j) = RUNNABLE)"

lemma woken_wakeup: "woken ch s (wakeup ch s)"
  by (simp add: woken_def wakeup_def wakeup1_def)

lemma uloads_Cons:
  "uloads me a n s = Inr (b # bs) \<Longrightarrow> \<exists>m. n = Suc m \<and> uload me a s = Inr b \<and> uloads me (a + 1) m s = Inr bs"
  by (cases n) (auto simp: bind_res_Inr_iff)

lemma uloads_length: "uloads me a n s = Inr bs \<Longrightarrow> length bs = n"
  by (induction n arbitrary: a bs) (auto simp: bind_res_Inr_iff)

lemma uloads_set_pipe [simp]: "uloads me a n (set_pipe p q s) = uloads me a n s"
  by (induction n arbitrary: a) simp_all

lemma pipewrite_loop_spec:
  assumes "me < length (ptable s)" "pstate (ptable s ! me) = RUNNING" "pipe_at s p = Some q" "pipe_ok q"
    and "uloads me (addr + of_nat i) (nat (sint n) - i) s = Inr bs"
  shows "\<exists>r k s' q'. pipewrite_loop p addr n i c me s = Inr (r, i + k, s') \<and>
    pipe_at s' = (pipe_at s)(p \<mapsto> q') \<and> pipe_ok q' \<and> readopen q' = readopen q \<and> writeopen q' = writeopen q \<and>
    k = min (length bs) (512 - length (pipe_items q)) \<and> pipe_items q' = pipe_items q @ take k bs \<and>
    (if k = length bs then r = Done n \<and> woken (Pipe_nread p) s s'
     else if readopen q = 0 \<or> killed (ptable s ! me) \<noteq> 0 then r = Done (- 1) \<and> ptable s' = ptable s
     else r = Blocked \<and> woken (Pipe_nread p) s s' \<and> pstate (ptable s' ! me) = SLEEPING \<and> chan (ptable s' ! me) = Some (Pipe_nwrite p))"
  using assms
proof (induction bs arbitrary: i q s)
  case Nil
  then have "nat (sint n) - i = 0" using uloads_length by fastforce
  then have "\<not> int i < sint n" by linarith
  then have "pipewrite_loop p addr n i c me s = Inr (Done n, i + 0, wakeup (Pipe_nread p) s)"
    by (subst pipewrite_loop.simps) simp
  then show ?case using Nil by (intro exI conjI) (auto simp: woken_wakeup)
next
  case (Cons b bs)
  obtain m where m: "nat (sint n) - i = Suc m" "uload me (addr + of_nat i) s = Inr b"
    "uloads me (addr + of_nat i + 1) m s = Inr bs" using uloads_Cons[OF Cons.prems(5)] by blast
  have i: "int i < sint n" using m(1) by linarith
  show ?case
  proof (cases "length (pipe_items q) = 512")
    case True
    then have full: "nwrite q = nread q + 512" using pipe_full_iff[OF Cons.prems(4)] by simp
    show ?thesis
    proof (cases "readopen q = 0 \<or> killed (ptable s ! me) \<noteq> 0")
      case True
      then have "pipewrite_loop p addr n i c me s = Inr (Done (- 1), i + 0, s)"
        using i full Cons.prems by (subst pipewrite_loop.simps) (simp add: the_pipe_def)
      then show ?thesis using Cons.prems True \<open>length (pipe_items q) = 512\<close> by (intro exI conjI) auto
    next
      case False
      let ?w = "wakeup (Pipe_nread p) s"
      obtain s' where s': "sleep c me (Pipe_nwrite p) ?w = Inr s'"
        "ptable s' = (ptable ?w)[me := (ptable ?w ! me)\<lparr>chan := Some (Pipe_nwrite p), pstate := SLEEPING\<rparr>]"
        using sleep_goes[of me ?w c] Cons.prems by auto
      then have "pipewrite_loop p addr n i c me s = Inr (Blocked, i + 0, s')"
        using i full False Cons.prems by (subst pipewrite_loop.simps) (simp add: the_pipe_def)
      moreover have "woken (Pipe_nread p) s s'"
        using s'(2) Cons.prems(2) woken_wakeup[of "Pipe_nread p" s] by (auto simp: woken_def nth_upd)
      ultimately show ?thesis
        using Cons.prems False s' pipe_at_sleep[OF s'(1)] \<open>length (pipe_items q) = 512\<close>
        by (intro exI conjI) auto
    qed
  next
    case False
    then have lt: "length (pipe_items q) < 512" using pfifo.bound[OF Cons.prems(4)] by simp
    let ?q = "pipe_put b q" and ?s = "set_pipe p (pipe_put b q) s"
    have nf: "nwrite q \<noteq> nread q + 512" using pipe_full_iff[OF Cons.prems(4)] False by simp
    have eq: "pipewrite_loop p addr n i c me s = pipewrite_loop p addr n (i + 1) c me ?s"
      using i nf m Cons.prems by (subst pipewrite_loop.simps) (simp add: the_pipe_def)
    note put = pipe_put_items[OF Cons.prems(4) lt, of b]
    have m1: "nat (sint n) - (i + 1) = m" using m(1) by linarith
    have ul: "uloads me (addr + of_nat (i + 1)) (nat (sint n) - (i + 1)) ?s = Inr bs"
      unfolding m1 using m(3) by (simp add: algebra_simps)
    have pre: "me < length (ptable ?s)" "pstate (ptable ?s ! me) = RUNNING" "pipe_at ?s p = Some ?q"
      using Cons.prems by simp_all
    obtain r k s' q' where r: "pipewrite_loop p addr n (i + 1) c me ?s = Inr (r, i + 1 + k, s')"
      "pipe_at s' = (pipe_at ?s)(p \<mapsto> q')" "pipe_ok q'" "readopen q' = readopen ?q" "writeopen q' = writeopen ?q"
      "k = min (length bs) (512 - length (pipe_items ?q))" "pipe_items q' = pipe_items ?q @ take k bs"
      "if k = length bs then r = Done n \<and> woken (Pipe_nread p) ?s s'
       else if readopen ?q = 0 \<or> killed (ptable ?s ! me) \<noteq> 0 then r = Done (- 1) \<and> ptable s' = ptable ?s
       else r = Blocked \<and> woken (Pipe_nread p) ?s s' \<and> pstate (ptable s' ! me) = SLEEPING \<and> chan (ptable s' ! me) = Some (Pipe_nwrite p)"
      using Cons.IH[OF pre put(1) ul] by blast
    have q: "readopen ?q = readopen q" "writeopen ?q = writeopen q" by (simp_all add: pipe_put_def)
    have w: "woken (Pipe_nread p) ?s s' = woken (Pipe_nread p) s s'" by (simp add: woken_def)
    show ?thesis
      using r put lt unfolding eq q w by (intro exI[of _ r] exI[of _ "Suc k"] exI[of _ s'] exI[of _ q']) auto
  qed
qed

lemma piperead_copy_spec:
  assumes "pipe_at s p = Some q" "pipe_ok q" "k = min (nat (sint n) - i) (length (pipe_items q))"
    and "ustores me (addr + of_nat i) (take k (pipe_items q)) s = Inr t"
  shows "\<exists>q'. piperead_copy p addr n i me s = Inr (i + k, set_pipe p q' t) \<and> pipe_ok q' \<and>
    pipe_items q' = drop k (pipe_items q) \<and> readopen q' = readopen q \<and> writeopen q' = writeopen q"
  using assms
proof (induction k arbitrary: i q s t)
  case 0
  then have "\<not> int i < sint n \<or> nread q = nwrite q" by (auto simp: pipe_empty_iff min_def split: if_splits)
  then have "piperead_copy p addr n i me s = Inr (i, s)"
    using 0 by (subst piperead_copy.simps) (auto simp: the_pipe_def)
  moreover have "set_pipe p q s = s" using 0(1) by (simp add: set_pipe_def fun_upd_idem)
  ultimately show ?case using 0 by (intro exI[of _ q]) auto
next
  case (Suc k)
  have i: "int i < sint n" "pipe_items q \<noteq> []" using Suc.prems(3) by auto
  obtain x q1 where g: "pipe_get q = (x, q1)" by (cases "pipe_get q")
  have it: "pipe_items q = x # pipe_items q1" "pipe_ok q1" using pipe_get_items[OF Suc.prems(2) i(2)] g by auto
  obtain u where u: "ustore me (addr + of_nat i) x s = Inr u"
    "ustores me (addr + of_nat i + 1) (take k (pipe_items q1)) u = Inr t"
    using Suc.prems(4) it(1) by (auto simp: bind_res_Inr_iff)
  obtain m where m: "u = s\<lparr>memory := m\<rparr>" using u(1) by (auto simp: ustore_def split: option.splits)
  have u': "ustore me (addr + of_nat i) x (set_pipe p q1 s) = Inr (set_pipe p q1 u)"
    using u(1) by (auto simp: ustore_def set_pipe_def split: option.splits)
  have us: "ustores me a bs (set_pipe p q1 v) = Inr (set_pipe p q1 w)" if "ustores me a bs v = Inr w" for a bs v w
    using that
  proof (induction bs arbitrary: a v)
    case (Cons b bs)
    then obtain x where "ustore me a b v = Inr x" "ustores me (a + 1) bs x = Inr w" by (auto simp: bind_res_Inr_iff)
    moreover from this have "ustore me a b (set_pipe p q1 v) = Inr (set_pipe p q1 x)"
      by (auto simp: ustore_def set_pipe_def split: option.splits)
    ultimately show ?case using Cons.IH by simp
  qed simp
  have st: "piperead_copy p addr n i me s = piperead_copy p addr n (i + 1) me (set_pipe p q1 u)"
    using i u' Suc.prems g by (subst piperead_copy.simps) (simp add: the_pipe_def pipe_empty_iff)
  obtain q' where q': "piperead_copy p addr n (i + 1) me (set_pipe p q1 u) = Inr (i + 1 + k, set_pipe p q' (set_pipe p q1 t))"
    "pipe_ok q'" "pipe_items q' = drop k (pipe_items q1)" "readopen q' = readopen q1" "writeopen q' = writeopen q1"
  proof -
    have "k = min (nat (sint n) - (i + 1)) (length (pipe_items q1))" using Suc.prems(3) it(1) by auto
    moreover have "ustores me (addr + of_nat (i + 1)) (take k (pipe_items q1)) (set_pipe p q1 u) = Inr (set_pipe p q1 t)"
      using us[OF u(2)] by (simp add: algebra_simps)
    moreover have "pipe_at (set_pipe p q1 u) p = Some q1" by simp
    ultimately show ?thesis using Suc.IH[OF _ it(2)] that by blast
  qed
  moreover have "set_pipe p q' (set_pipe p q1 t) = set_pipe p q' t" by (simp add: set_pipe_def)
  moreover have "readopen q1 = readopen q" "writeopen q1 = writeopen q" using g by (auto simp: pipe_get_def)
  ultimately show ?case using st it(1) by (intro exI[of _ q']) simp
qed

section \<open>Properties\<close>

text \<open>
  C26. Writing to a pipe appends to its queue of bytes. A running process that writes \<open>n\<close> readable bytes
  appends as many of them, in order, as the 512-byte queue can take, whatever the values of the 32-bit
  counters. If all fit, the call returns \<open>n\<close> and wakes every sleeping reader. Otherwise it fails when no
  reader is left or the writer was killed, and else sleeps with the queue full and the readers woken.
\<close>

theorem pipewrite_appends:
  assumes "me < length (ptable s)" "pstate (ptable s ! me) = RUNNING" "pipe_at s p = Some q" "pipe_ok q"
    and "uloads me addr (nat (sint n)) s = Inr bs"
  shows "\<exists>r k s' q'. pipewrite p addr n c me s = Inr (r, k, s') \<and> pipe_at s' = (pipe_at s)(p \<mapsto> q') \<and> pipe_ok q' \<and>
    k = min (length bs) (512 - length (pipe_items q)) \<and> pipe_items q' = pipe_items q @ take k bs \<and>
    (if k = length bs then r = Done n \<and> woken (Pipe_nread p) s s'
     else if readopen q = 0 \<or> killed (ptable s ! me) \<noteq> 0 then r = Done (- 1)
     else r = Blocked \<and> woken (Pipe_nread p) s s' \<and> pstate (ptable s' ! me) = SLEEPING)"
proof -
  have ul: "uloads me (addr + of_nat 0) (nat (sint n) - 0) s = Inr bs" using assms(5) by simp
  show ?thesis
    using pipewrite_loop_spec[OF assms(1-4) ul, of c] unfolding pipewrite_def by (auto split: if_splits)
qed

text \<open>A pipe holding one byte whose counters are about to wrap around.\<close>

definition demo_pipe :: pipe where
  "demo_pipe = \<lparr>pdata = replicate 512 7, nread = - 2, nwrite = - 1, readopen = 1, writeopen = 1\<rparr>"

definition demo_pipes :: pipes where
  "demo_pipes = msgs.extend demo_msgs \<lparr>pipe_at = [0x80408000 \<mapsto> demo_pipe]\<rparr>"

lemma demo_pipe_items: "pipe_ok demo_pipe" "pipe_items demo_pipe = [7]"
  by (simp_all add: pipe_ok_def pipe_items_def ring_items_def demo_pipe_def)

lemma demo_pipes_simps [simp]:
  "ptable demo_pipes = ptable demo_user" "memory demo_pipes = demo_umem" "pipe_at demo_pipes 0x80408000 = Some demo_pipe"
  by (simp_all add: demo_pipes_def msgs.extend_def)

lemma demo_pipes_user: "Suc 0 < length (ptable demo_user)" "pstate (ptable demo_user ! Suc 0) = RUNNING"
  by (simp_all add: demo_user_def demo_family_def)

theorem pipewrite_appends_witness:
  "\<exists>s' q'. pipewrite 0x80408000 4 2 0 1 demo_pipes = Inr (Done 2, 2, s') \<and> pipe_at s' 0x80408000 = Some q' \<and>
     pipe_items q' = [7, 16, 0]"
proof -
  have ul: "uload (Suc 0) a demo_pipes = Inr (demo_umem (0x80402000 + a))" if "a < 4096" for a
    using that by (simp add: uload_def demo_mmu demo_entries_def demo_umem_read)
  have "uloads 1 4 2 demo_pipes = Inr [16, 0]"
    by (simp add: eval_nat_numeral, simp add: ul, simp add: demo_umem_def write32_def)
  then have l: "uloads 1 4 (nat (sint (2 :: u32))) demo_pipes = Inr [16, 0]" by simp
  show ?thesis
    using pipewrite_appends[OF _ _ _ demo_pipe_items(1) l, of "0x80408000" 0] demo_pipes_user demo_pipe_items(2)
    by auto
qed

text \<open>
  C27. Reading from a pipe takes from the front of its queue. On an empty pipe whose write end is open
  the call fails for a killed process and sleeps otherwise. In every other case the first \<open>n\<close> bytes of
  the queue, or all if there are fewer, are stored in order at the address and removed, their number
  is returned (0 at end of file), and sleeping writers are woken.
\<close>

theorem piperead_takes:
  assumes "me < length (ptable s)" "pipe_at s p = Some q" "pipe_ok q"
    and "k = min (nat (sint n)) (length (pipe_items q))" "ustores me addr (take k (pipe_items q)) s = Inr t"
  shows "if pipe_items q = [] \<and> writeopen q \<noteq> 0
    then \<exists>r s'. piperead p addr n c me s = Inr (r, s') \<and> pipe_at s' = pipe_at s \<and>
      (if killed (ptable s ! me) \<noteq> 0 then r = Done (- 1) else r = Blocked \<and> chan (ptable s' ! me) = Some (Pipe_nread p))
    else \<exists>s' q'. piperead p addr n c me s = Inr (Done (of_nat k), s') \<and> pipe_at s' = (pipe_at t)(p \<mapsto> q') \<and> pipe_ok q' \<and>
      pipe_items q' = drop k (pipe_items q) \<and> memory s' = memory t \<and> woken (Pipe_nwrite p) t s'"
proof (cases "pipe_items q = [] \<and> writeopen q \<noteq> 0")
  case True
  obtain s' where s': "sleep c me (Pipe_nread p) s = Inr s'"
    "ptable s' = (ptable s)[me := (ptable s ! me)\<lparr>chan := Some (Pipe_nread p), pstate := SLEEPING\<rparr>]"
    using sleep_goes[OF assms(1)] by blast
  then show ?thesis
    using True assms pipe_at_sleep[OF s'(1)] by (auto simp: piperead_def the_pipe_def pipe_empty_iff)
next
  case False
  have "ustores me (addr + of_nat 0) (take k (pipe_items q)) s = Inr t" "k = min (nat (sint n) - 0) (length (pipe_items q))"
    using assms by simp_all
  from piperead_copy_spec[OF assms(2,3) this(2,1)] obtain q' where
    q': "piperead_copy p addr n 0 me s = Inr (k, set_pipe p q' t)" "pipe_ok q'" "pipe_items q' = drop k (pipe_items q)"
    by auto
  let ?w = "wakeup (Pipe_nwrite p) (set_pipe p q' t)"
  have "piperead p addr n c me s = Inr (Done (of_nat k), ?w)"
    using q'(1) False assms(2) by (auto simp: piperead_def the_pipe_def pipe_empty_iff)
  moreover have "woken (Pipe_nwrite p) t ?w"
    using woken_wakeup[of "Pipe_nwrite p" "set_pipe p q' t"] by (simp add: woken_def)
  moreover have "memory ?w = memory t" by (simp add: wakeup_def wakeup1_def set_pipe_def)
  ultimately show ?thesis
    unfolding if_not_P[OF False] using q' by (intro exI[of _ ?w] exI[of _ q'] conjI) simp_all
qed

theorem piperead_takes_witness:
  "\<exists>s' q'. piperead 0x80408000 4 100 0 1 demo_pipes = Inr (Done 1, s') \<and> pipe_at s' 0x80408000 = Some q' \<and>
     pipe_items q' = []"
proof -
  obtain t where t: "ustores 1 4 [7] demo_pipes = Inr t"
    by (simp add: ustore_def demo_mmu demo_entries_def demo_umem_read)
  then have "ustores 1 4 (take (min (nat (sint (100 :: u32))) (length (pipe_items demo_pipe))) (pipe_items demo_pipe)) demo_pipes = Inr t"
    by (simp add: demo_pipe_items)
  from piperead_takes[OF _ _ demo_pipe_items(1) refl this, of "0x80408000" 0] show ?thesis
    using demo_pipes_user by (auto simp: demo_pipe_items)
qed

end
