(* ===== verification/Console.thy ===== *)
theory Console
  imports Pipe
begin

text \<open>
  The console (\<open>console.c\<close>): the CGA screen with its cursor, the output of a character to the screen
  and the serial line, the line editor run by the keyboard interrupt, and the loops of \<open>consoleread\<close>
  and \<open>consolewrite\<close> under \<open>cons.lock\<close>. The bytes sent to the serial line are collected in \<open>cons_out\<close>.
  The input buffer refines a queue of committed bytes together with the line being edited.
\<close>

section \<open>Structures\<close>

text \<open>\<open>INPUT_BUF\<close> is 128.\<close>

record input_buf =
  ibuf :: "u8 list"
  in_r :: u32
  in_w :: u32
  in_e :: u32

text \<open>\<open>crt\<close> is the video memory, \<open>crt_pos\<close> the cursor position held by the CRT controller.\<close>

record console = pipes +
  panicked :: bool
  uart :: bool
  crt :: "u16 list"
  crt_pos :: u16
  input :: input_buf

section \<open>Output\<close>

definition uartputc :: "u32 \<Rightarrow> 'a console_scheme \<Rightarrow> 'a console_scheme" where
  "uartputc c s = (if uart s then s\<lparr>cons_out := cons_out s @ [ucast c]\<rparr> else s)"

text \<open>The screen after its contents moved up by one row, with the last row cleared from \<open>pos\<close> on.\<close>

definition scroll_up :: "nat \<Rightarrow> u16 list \<Rightarrow> u16 list" where
  "scroll_up pos scr =
     (let scr = take (23 * 80) (drop 80 scr) @ drop (23 * 80) scr
      in take pos scr @ replicate (24 * 80 - pos) 0 @ drop (pos + (24 * 80 - pos)) scr)"

definition cga_finish :: "nat \<Rightarrow> 'a console_scheme \<Rightarrow> fault + 'a console_scheme" where
  "cga_finish pos s =
     (if pos > 25 * 80 then Inl (Panic ''pos under/overflow'')
      else let (pos, scr) = (if pos div 80 \<ge> 24 then (pos - 80, scroll_up (pos - 80) (crt s)) else (pos, crt s))
        in Inr (s\<lparr>crt_pos := of_nat pos, crt := scr[pos := 0x720]\<rparr>))"

definition cgaputc :: "u32 \<Rightarrow> 'a console_scheme \<Rightarrow> fault + 'a console_scheme" where
  "cgaputc c s =
     (let pos = unat (crt_pos s)
      in if c = 10 then cga_finish (pos + (80 - pos mod 80)) s
      else if c = 0x100 then cga_finish (if pos > 0 then pos - 1 else pos) s
      else if pos \<ge> length (crt s) then Inl (Bad_Access ''crt'')
      else cga_finish (pos + 1) (s\<lparr>crt := (crt s)[pos := ucast (c AND 0xFF) OR 0x700]\<rparr>))"

definition consputc :: "u32 \<Rightarrow> 'a console_scheme \<Rightarrow> fault + 'a console_scheme" where
  "consputc c s =
     (if panicked s then Inl Diverge
      else cgaputc c (if c = 0x100 then uartputc 8 (uartputc 32 (uartputc 8 s)) else uartputc c s))"

section \<open>Input\<close>

definition set_input :: "(input_buf \<Rightarrow> input_buf) \<Rightarrow> 'a console_scheme \<Rightarrow> 'a console_scheme" where
  "set_input f s = s\<lparr>input := f (input s)\<rparr>"

function kill_line :: "nat \<Rightarrow> 'a console_scheme \<Rightarrow> fault + 'a console_scheme" where
  "kill_line k s =
     (let b = input s
      in if in_e b \<noteq> in_w b \<and> ibuf b ! (unat (in_e b - 1) mod 128) \<noteq> 10
         then case k of 0 \<Rightarrow> Inl Diverge
           | Suc k \<Rightarrow> bind_res (consputc 0x100 (set_input (\<lambda>b. b\<lparr>in_e := in_e b - 1\<rparr>) s)) (kill_line k)
         else Inr s)"
  by pat_completeness auto
termination by (relation "measure fst") auto

declare kill_line.simps [simp del]

text \<open>One round of the interrupt loop on the code \<open>c\<close>; the flag asks for a process listing.\<close>

definition consoleintr_char :: "u32 \<Rightarrow> bool \<times> 'a console_scheme \<Rightarrow> fault + bool \<times> 'a console_scheme" where
  "consoleintr_char c = (\<lambda>(doprocdump, s).
     let b = input s
     in if c = 16 then Inr (True, s)
     else if c = 21 then bind_res (kill_line (unat (in_e b - in_w b)) s) (\<lambda>s. Inr (doprocdump, s))
     else if c = 8 \<or> c = 0x7F then
       if in_e b \<noteq> in_w b
       then bind_res (consputc 0x100 (set_input (\<lambda>b. b\<lparr>in_e := in_e b - 1\<rparr>) s)) (\<lambda>s. Inr (doprocdump, s))
       else Inr (doprocdump, s)
     else if c \<noteq> 0 \<and> in_e b - in_r b < 128 then
       let c = (if c = 13 then 10 else c);
           s = set_input (\<lambda>b. b\<lparr>ibuf := (ibuf b)[unat (in_e b) mod 128 := ucast c], in_e := in_e b + 1\<rparr>) s
       in bind_res (consputc c s) (\<lambda>s.
          if c = 10 \<or> c = 4 \<or> in_e (input s) = in_r (input s) + 128
          then Inr (doprocdump, wakeup Input_chan (set_input (\<lambda>b. b\<lparr>in_w := in_e b\<rparr>) s))
          else Inr (doprocdump, s))
     else Inr (doprocdump, s))"

text \<open>The codes \<open>getc\<close> returns before it has no more; the result tells whether \<open>procdump\<close> is called.\<close>

primrec consoleintr :: "u32 list \<Rightarrow> bool \<times> 'a console_scheme \<Rightarrow> fault + bool \<times> 'a console_scheme" where
  "consoleintr [] x = Inr x"
| "consoleintr (c # cs) x = bind_res (consoleintr_char c x) (consoleintr cs)"

text \<open>
  The loop of \<open>consoleread\<close> with \<open>k\<close> bytes still wanted of \<open>target\<close>. A blocked read reports how many
  are left, where it goes on.
\<close>

fun consoleread_loop ::
  "nat \<Rightarrow> u32 \<Rightarrow> nat \<Rightarrow> nat \<Rightarrow> nat \<Rightarrow> 'a console_scheme \<Rightarrow> fault + u32 outcome \<times> nat \<times> 'a console_scheme" where
  "consoleread_loop target dst 0 c me s = Inr (Done (of_nat target), 0, s)"
| "consoleread_loop target dst (Suc k) c me s =
     (let b = input s
      in if in_r b = in_w b then
        if killed (ptable s ! me) \<noteq> 0 then Inr (Done (- 1), Suc k, s)
        else bind_res (sleep c me Input_chan s) (\<lambda>s. Inr (Blocked, Suc k, s))
      else let x = ibuf b ! (unat (in_r b) mod 128);
               s = set_input (\<lambda>b. b\<lparr>in_r := in_r b + 1\<rparr>) s
        in if x = 4 then
          Inr (Done (of_nat (target - Suc k)), Suc k, if Suc k < target then set_input (\<lambda>b. b\<lparr>in_r := in_r b - 1\<rparr>) s else s)
        else bind_res (ustore me dst x s) (\<lambda>s.
          if x = 10 then Inr (Done (of_nat (target - k)), k, s)
          else consoleread_loop target (dst + 1) k c me s))"

definition consoleread :: "u32 \<Rightarrow> u32 \<Rightarrow> nat \<Rightarrow> nat \<Rightarrow> 'a console_scheme \<Rightarrow> fault + u32 outcome \<times> nat \<times> 'a console_scheme" where
  "consoleread dst n c me s = consoleread_loop (nat (sint n)) dst (nat (sint n)) c me s"

primrec consolewrite_loop :: "nat \<Rightarrow> u32 \<Rightarrow> nat \<Rightarrow> 'a console_scheme \<Rightarrow> fault + 'a console_scheme" where
  "consolewrite_loop me buf 0 s = Inr s"
| "consolewrite_loop me buf (Suc k) s =
     bind_res (uload me buf s) (\<lambda>x. bind_res (consputc (ucast x) s) (consolewrite_loop me (buf + 1) k))"

definition consolewrite :: "nat \<Rightarrow> u32 \<Rightarrow> u32 \<Rightarrow> 'a console_scheme \<Rightarrow> fault + u32 \<times> 'a console_scheme" where
  "consolewrite me buf n s = bind_res (consolewrite_loop me buf (nat (sint n)) s) (\<lambda>s. Inr (n, s))"

section \<open>The screen\<close>

definition cga_ok :: "'a console_scheme \<Rightarrow> bool" where
  "cga_ok s \<longleftrightarrow> length (crt s) = 16384 \<and> unat (crt_pos s) < 24 * 80"

lemma scroll_up_length: "length scr = 16384 \<Longrightarrow> pos \<le> 1920 \<Longrightarrow> length (scroll_up pos scr) = 16384"
  by (simp add: scroll_up_def)

lemma scroll_up_nth:
  assumes "length scr = 16384" "pos \<le> 1920" "i < 1920"
  shows "scroll_up pos scr ! i = (if i < pos then if i < 1840 then scr ! (i + 80) else scr ! i else 0)"
  using assms by (auto simp: scroll_up_def nth_append min_def add.commute)

lemma cga_finish_ok:
  assumes "length (crt s) = 16384" "pos \<le> 1920"
  shows "\<exists>p k. cga_finish pos s = Inr (s\<lparr>crt_pos := p, crt := k\<rparr>) \<and> length k = 16384 \<and> unat p < 1920"
proof -
  have "unat (of_nat p :: u16) = p" if "p < 1920" for p
    using that by (simp add: unsigned_of_nat take_bit_nat_eq_self)
  note small = this
  show ?thesis
  proof (cases "pos div 80 \<ge> 24")
    case True
    then have "pos = 1920" using assms(2) by linarith
    then show ?thesis using assms True
      by (intro exI[of _ "of_nat (pos - 80)"] exI[of _ "(scroll_up (pos - 80) (crt s))[pos - 80 := 0x720]"])
        (simp add: cga_finish_def scroll_up_length)
  next
    case False
    then have "pos < 1920" by linarith
    then show ?thesis using assms False small[of pos]
      by (intro exI[of _ "of_nat pos"] exI[of _ "(crt s)[pos := 0x720]"]) (simp add: cga_finish_def)
  qed
qed

lemma cgaputc_ok:
  assumes "cga_ok s"
  shows "\<exists>p k. cgaputc c s = Inr (s\<lparr>crt_pos := p, crt := k\<rparr>) \<and> length k = 16384 \<and> unat p < 1920"
proof -
  have s: "length (crt s) = 16384" "unat (crt_pos s) < 1920" using assms by (simp_all add: cga_ok_def)
  have line: "unat (crt_pos s) + (80 - unat (crt_pos s) mod 80) \<le> 1920"
  proof -
    have "p + (80 - p mod 80) \<le> 1920" if "p < 1920" for p :: nat
    proof -
      have "p div 80 < 24" using that by (simp add: div_less_iff_less_mult)
      moreover have "p div 80 * 80 + p mod 80 = p" "p mod 80 < 80" by simp_all
      ultimately show ?thesis by linarith
    qed
    then show ?thesis using s(2) .
  qed
  let ?t = "s\<lparr>crt := (crt s)[unat (crt_pos s) := ucast (c AND 0xFF) OR 0x700]\<rparr>"
  consider "c = 10" | "c = 0x100" | "c \<noteq> 10" "c \<noteq> 0x100" by blast
  then show ?thesis
  proof cases
    case 1
    then have "cgaputc c s = cga_finish (unat (crt_pos s) + (80 - unat (crt_pos s) mod 80)) s"
      by (simp add: cgaputc_def Let_def)
    then show ?thesis using cga_finish_ok[OF s(1) line] by metis
  next
    case 2
    let ?p = "if unat (crt_pos s) > 0 then unat (crt_pos s) - 1 else unat (crt_pos s)"
    have "cgaputc c s = cga_finish ?p s" using 2 by (simp add: cgaputc_def Let_def)
    moreover have "?p \<le> 1920" using s(2) by auto
    ultimately show ?thesis using cga_finish_ok[OF s(1)] by metis
  next
    case 3
    then have "cgaputc c s = cga_finish (unat (crt_pos s) + 1) ?t" using s by (simp add: cgaputc_def Let_def)
    moreover have "\<exists>p k. cga_finish (unat (crt_pos s) + 1) ?t = Inr (?t\<lparr>crt_pos := p, crt := k\<rparr>) \<and> length k = 16384 \<and> unat p < 1920"
      using s by (intro cga_finish_ok) simp_all
    ultimately show ?thesis by auto
  qed
qed

definition cons_ok :: "'a console_scheme \<Rightarrow> bool" where
  "cons_ok s \<longleftrightarrow> cga_ok s \<and> \<not> panicked s"

lemma consputc_ok:
  assumes "cons_ok s"
  shows "\<exists>s'. consputc c s = Inr s' \<and> cons_ok s' \<and> input s' = input s \<and> ptable s' = ptable s"
proof -
  define t where "t = (if c = 0x100 then uartputc 8 (uartputc 32 (uartputc 8 s)) else uartputc c s)"
  have t: "cga_ok t" "\<not> panicked s" "panicked t = panicked s" "input t = input s" "ptable t = ptable s"
    using assms by (simp_all add: t_def uartputc_def cons_ok_def cga_ok_def)
  have e: "consputc c s = cgaputc c t" using t(2) by (simp add: consputc_def t_def)
  show ?thesis using cgaputc_ok[OF t(1), of c] t(2-5) unfolding e by (auto simp: cons_ok_def cga_ok_def)
qed

lemma cons_ok_frame [simp]:
  "cons_ok (set_input f s) = cons_ok s" "cons_ok (wakeup ch s) = cons_ok s"
  "input (set_input f s) = f (input s)" "input (wakeup ch s) = input s"
  by (simp_all add: cons_ok_def cga_ok_def set_input_def wakeup_def wakeup1_def)

section \<open>The line editor\<close>

definition committed :: "input_buf \<Rightarrow> u8 list" where
  "committed b = ring_items 128 (ibuf b) (in_r b) (in_w b)"

definition pending :: "input_buf \<Rightarrow> u8 list" where
  "pending b = ring_items 128 (ibuf b) (in_w b) (in_e b)"

text \<open>The line being edited never contains a newline: a newline commits it.\<close>

definition input_ok :: "input_buf \<Rightarrow> bool" where
  "input_ok b \<longleftrightarrow> length (ibuf b) = 128 \<and> unat (in_e b - in_r b) \<le> 128 \<and>
     unat (in_w b - in_r b) \<le> unat (in_e b - in_r b) \<and> 10 \<notin> set (pending b)"

text \<open>What a key does to the committed bytes and the line.\<close>

definition edit :: "u32 \<Rightarrow> u8 list \<times> u8 list \<Rightarrow> u8 list \<times> u8 list" where
  "edit c = (\<lambda>(q, l).
     if c = 16 then (q, l)
     else if c = 21 then (q, [])
     else if c = 8 \<or> c = 0x7F then (q, butlast l)
     else if c \<noteq> 0 \<and> length q + length l < 128 then
       let x = (if c = 13 then 10 else ucast c); l = l @ [x]
       in if x = 10 \<or> x = 4 \<or> length q + length l = 128 then (q @ l, []) else (q, l)
     else (q, l))"

interpretation cring: ring_size 128
  by unfold_locales auto

lemma input_split:
  "input_ok b \<Longrightarrow> ring_items 128 (ibuf b) (in_r b) (in_e b) = committed b @ pending b"
  by (simp add: input_ok_def committed_def pending_def ring_items_split)

lemma input_lengths:
  assumes "input_ok b"
  shows "unat (in_e b - in_r b) = length (committed b) + length (pending b)" "length (committed b) = unat (in_w b - in_r b)"
    "length (pending b) = unat (in_e b - in_w b)"
  using arg_cong[OF input_split[OF assms], of length] by (simp_all add: committed_def pending_def)

lemma input_unput:
  assumes "input_ok b" "in_e b \<noteq> in_w b"
  defines "b' \<equiv> b\<lparr>in_e := in_e b - 1\<rparr>"
  shows "input_ok b'" "committed b' = committed b" "pending b = pending b' @ [ibuf b ! (unat (in_e b - 1) mod 128)]"
proof -
  show p: "pending b = pending b' @ [ibuf b ! (unat (in_e b - 1) mod 128)]"
    using ring_items_unput[of "in_w b" "in_e b" 128 "ibuf b"] assms by (simp add: pending_def b'_def)
  show "committed b' = committed b" by (simp add: committed_def b'_def)
  have "unat (in_e b - in_r b) \<noteq> 0" using input_lengths(1)[OF assms(1)] p by simp
  then have "in_e b - in_r b \<noteq> 0" by (metis unat_0)
  then have "unat (in_e b - in_r b) = Suc (unat (in_e b' - in_r b))"
    using unat_pred[of "in_e b - in_r b"] by (simp add: b'_def diff_right_commute)
  moreover have "unat (in_w b - in_r b) < unat (in_e b - in_r b)"
    using input_lengths[OF assms(1)] p by simp
  ultimately show "input_ok b'" using assms(1) p by (auto simp: input_ok_def b'_def)
qed

lemma kill_line_ok:
  assumes "cons_ok s" "input_ok (input s)" "unat (in_e (input s) - in_w (input s)) = k"
  shows "\<exists>s'. kill_line k s = Inr s' \<and> cons_ok s' \<and> input_ok (input s') \<and>
    committed (input s') = committed (input s) \<and> pending (input s') = []"
  using assms
proof (induction k arbitrary: s)
  case 0
  then have "in_e (input s) = in_w (input s)" by (simp add: unat_eq_0)
  then have "kill_line 0 s = Inr s" by (subst kill_line.simps) simp
  then show ?case using 0 \<open>in_e (input s) = in_w (input s)\<close> by (auto simp: pending_def)
next
  case (Suc k)
  let ?b = "input s" and ?t = "set_input (\<lambda>b. b\<lparr>in_e := in_e b - 1\<rparr>) s"
  have ne: "in_e ?b \<noteq> in_w ?b" using Suc.prems(3) by auto
  note u = input_unput[OF Suc.prems(2) ne]
  have "ibuf ?b ! (unat (in_e ?b - 1) mod 128) \<noteq> 10" using Suc.prems(2) u(3) by (auto simp: input_ok_def)
  obtain t where t: "consputc 0x100 ?t = Inr t" "cons_ok t" "input t = ?b\<lparr>in_e := in_e ?b - 1\<rparr>"
    using consputc_ok[of ?t "0x100"] Suc.prems(1) by auto
  have st: "kill_line (Suc k) s = kill_line k t"
    using ne \<open>ibuf ?b ! _ \<noteq> 10\<close> t(1) by (subst kill_line.simps) simp
  have "unat (in_e (input t) - in_w (input t)) = k"
    using Suc.prems(3) unat_pred[of "in_e ?b - in_w ?b"] ne t(3) by (simp add: algebra_simps)
  then obtain s' where "kill_line k t = Inr s'" "cons_ok s'" "input_ok (input s')"
    "committed (input s') = committed (input t)" "pending (input s') = []"
    using Suc.IH[of t] t u(1) by auto
  then show ?case unfolding st using u(2) t(3) by auto
qed

lemma input_store:
  assumes "input_ok b" "in_e b - in_r b < 128"
  shows "ring_items 128 ((ibuf b)[unat (in_e b) mod 128 := x]) (in_r b) (in_e b + 1) = committed b @ pending b @ [x]"
    "unat (in_e b + 1 - in_r b) = unat (in_e b - in_r b) + 1" "unat (in_e b - in_r b) < 128"
proof -
  show lt: "unat (in_e b - in_r b) < 128" using assms(2) by (simp add: word_less_nat_alt)
  show i: "ring_items 128 ((ibuf b)[unat (in_e b) mod 128 := x]) (in_r b) (in_e b + 1) = committed b @ pending b @ [x]"
    using cring.ring_items_put[of "ibuf b" "in_e b" "in_r b" x] lt assms(1) input_split[OF assms(1)]
    by (simp add: input_ok_def)
  show "unat (in_e b + 1 - in_r b) = unat (in_e b - in_r b) + 1"
    using arg_cong[OF i, of length] input_lengths(1)[OF assms(1)] by simp
qed

lemma input_put:
  assumes "input_ok b" "in_e b - in_r b < 128" "x \<noteq> 10"
  defines "b' \<equiv> b\<lparr>ibuf := (ibuf b)[unat (in_e b) mod 128 := x], in_e := in_e b + 1\<rparr>"
  shows "input_ok b'" "committed b' = committed b" "pending b' = pending b @ [x]"
proof -
  note s = input_store(1)[OF assms(1,2), of x] input_store(2,3)[OF assms(1,2)]
  have w: "unat (in_w b' - in_r b') \<le> unat (in_e b' - in_r b')"
    using assms(1) s(2) by (simp add: input_ok_def b'_def)
  have "committed b' @ pending b' = committed b @ pending b @ [x]"
    using ring_items_split[OF w, where N = 128 and d = "ibuf b'"] s(1) by (simp add: committed_def pending_def b'_def)
  moreover have "length (committed b') = length (committed b)" by (simp add: committed_def b'_def)
  ultimately show c: "committed b' = committed b" and p: "pending b' = pending b @ [x]" by auto
  show "input_ok b'"
    using assms(1,3) w p s(2,3) by (auto simp: input_ok_def b'_def)
qed

lemma input_commit:
  assumes "input_ok b" "in_e b - in_r b < 128"
    and "b' = b\<lparr>ibuf := (ibuf b)[unat (in_e b) mod 128 := x], in_e := in_e b + 1, in_w := in_e b + 1\<rparr>"
  shows "input_ok b'" "committed b' = committed b @ pending b @ [x]" "pending b' = []"
  using input_store(1)[OF assms(1,2), of x] input_store(2,3)[OF assms(1,2)] assms(1,3) by (auto simp: input_ok_def committed_def pending_def)

lemma ucast_byte_eq: "x < 256 \<Longrightarrow> y < 256 \<Longrightarrow> (ucast (x :: u32) :: u8) = ucast y \<longleftrightarrow> x = y"
proof -
  assume "x < 256" "y < 256"
  then have "unat (ucast x :: u8) = unat x" "unat (ucast y :: u8) = unat y"
    by (simp_all add: unsigned_ucast_eq take_bit_nat_eq_self word_less_nat_alt)
  then show ?thesis by (metis unsigned_word_eqI)
qed

lemma diff_127_iff: "(e :: u32) + 1 = r + 128 \<longleftrightarrow> Suc (unat (e - r)) = 128"
proof -
  have "e + 1 = r + 128 \<longleftrightarrow> e - r = 127" by (auto simp: algebra_simps)
  also have "\<dots> \<longleftrightarrow> unat (e - r) = unat (127 :: u32)" by (metis unsigned_word_eqI)
  finally show ?thesis by simp
qed

lemma consoleintr_char_ok:
  assumes "cons_ok s" "input_ok (input s)" "c < 256"
  shows "\<exists>s'. consoleintr_char c (d, s) = Inr (d \<or> c = 16, s') \<and> cons_ok s' \<and> input_ok (input s') \<and>
    (committed (input s'), pending (input s')) = edit c (committed (input s), pending (input s))"
proof -
  let ?b = "input s"
  consider (dump) "c = 16" | (kill) "c = 21" | (erase) "c = 8 \<or> c = 0x7F"
    | (store) "c \<noteq> 16" "c \<noteq> 21" "c \<noteq> 8" "c \<noteq> 0x7F" "c \<noteq> 0" "in_e ?b - in_r ?b < 128"
    | (skip) "c \<noteq> 16" "c \<noteq> 21" "c \<noteq> 8" "c \<noteq> 0x7F" "\<not> (c \<noteq> 0 \<and> in_e ?b - in_r ?b < 128)" by blast
  then show ?thesis
  proof cases
    case dump
    then show ?thesis using assms by (auto simp: consoleintr_char_def edit_def)
  next
    case kill
    then show ?thesis using kill_line_ok[OF assms(1,2) refl] by (auto simp: consoleintr_char_def edit_def)
  next
    case erase
    show ?thesis
    proof (cases "in_e ?b = in_w ?b")
      case True
      then have "pending ?b = []" by (simp add: pending_def)
      then show ?thesis using erase True assms by (auto simp: consoleintr_char_def edit_def)
    next
      case False
      note u = input_unput[OF assms(2) False]
      let ?t = "set_input (\<lambda>b. b\<lparr>in_e := in_e b - 1\<rparr>) s"
      obtain t where "consputc 0x100 ?t = Inr t" "cons_ok t" "input t = ?b\<lparr>in_e := in_e ?b - 1\<rparr>"
        using consputc_ok[of ?t "0x100"] assms(1) by auto
      then show ?thesis using erase False u by (auto simp: consoleintr_char_def edit_def)
    qed
  next
    case skip
    have "\<not> (c \<noteq> 0 \<and> length (committed ?b) + length (pending ?b) < 128)"
      using skip input_lengths(1)[OF assms(2)] by (simp add: word_less_nat_alt)
    then show ?thesis using skip assms by (auto simp: consoleintr_char_def edit_def)
  next
    case store
    have lt: "length (committed ?b) + length (pending ?b) < 128"
      using store input_lengths(1)[OF assms(2)] by (simp add: word_less_nat_alt)
    define x where "x = (if c = 13 then 10 else c)"
    let ?x = "ucast x :: u8"
    let ?t = "set_input (\<lambda>b. b\<lparr>ibuf := (ibuf b)[unat (in_e b) mod 128 := ?x], in_e := in_e b + 1\<rparr>) s"
    have x: "(?x = 10) = (x = 10)" "(?x = 4) = (x = 4)" "(if c = 13 then 10 else ucast c :: u8) = ?x"
      using assms(3) ucast_byte_eq[of x 10] ucast_byte_eq[of x 4] by (auto simp: x_def)
    obtain t where t: "consputc x ?t = Inr t" "cons_ok t" "input t = input ?t"
      using consputc_ok[of ?t x] assms(1) by auto
    have full: "in_e ?b + 1 = in_r ?b + 128 \<longleftrightarrow> Suc (length (committed ?b) + length (pending ?b)) = 128"
      using input_lengths(1)[OF assms(2)] diff_127_iff[of "in_e ?b" "in_r ?b"] by simp
    show ?thesis
    proof (cases "x = 10 \<or> x = 4 \<or> Suc (length (committed ?b) + length (pending ?b)) = 128")
      case True
      let ?u = "wakeup Input_chan (set_input (\<lambda>b. b\<lparr>in_w := in_e b\<rparr>) t)"
      have "consoleintr_char c (d, s) = Inr (d, ?u)"
        using store t(1,3) True full by (auto simp: consoleintr_char_def Let_def x_def[symmetric])
      moreover have "input ?u = ?b\<lparr>ibuf := (ibuf ?b)[unat (in_e ?b) mod 128 := ?x], in_e := in_e ?b + 1, in_w := in_e ?b + 1\<rparr>"
        using t(3) by simp
      note input_commit[OF assms(2) store(6) this]
      moreover have "edit c (committed ?b, pending ?b) = (committed ?b @ pending ?b @ [?x], [])"
        using store lt True x by (auto simp: edit_def Let_def)
      ultimately show ?thesis using t(2) store(1) by (intro exI[of _ ?u]) auto
    next
      case False
      have "consoleintr_char c (d, s) = Inr (d, t)"
        using store t(1,3) False full by (auto simp: consoleintr_char_def Let_def x_def[symmetric])
      moreover have "?x \<noteq> 10" using False x by simp
      note input_put[OF assms(2) store(6) this]
      moreover have "edit c (committed ?b, pending ?b) = (committed ?b, pending ?b @ [?x])"
        using store lt False x by (auto simp: edit_def Let_def)
      ultimately show ?thesis using t(2,3) store(1) by (intro exI[of _ t]) auto
    qed
  qed
qed

section \<open>Reading\<close>

text \<open>
  What a read of \<open>k\<close> more bytes takes from the queue: the bytes delivered, the bytes left, and whether
  the read is complete. An end-of-file mark is left for the next read if bytes were delivered before.
\<close>

fun deliver :: "bool \<Rightarrow> nat \<Rightarrow> u8 list \<Rightarrow> u8 list \<times> u8 list \<times> bool" where
  "deliver started 0 q = ([], q, True)"
| "deliver started (Suc k) [] = ([], [], False)"
| "deliver started (Suc k) (x # q) =
     (if x = 4 then ([], if started then x # q else q, True)
      else if x = 10 then ([x], q, True)
      else case deliver True k q of (d, r, e) \<Rightarrow> (x # d, r, e))"

lemma input_get:
  assumes "input_ok b" "in_r b \<noteq> in_w b"
  defines "b' \<equiv> b\<lparr>in_r := in_r b + 1\<rparr>"
  shows "input_ok b'" "pending b' = pending b" "committed b = ibuf b ! (unat (in_r b) mod 128) # committed b'"
proof -
  show c: "committed b = ibuf b ! (unat (in_r b) mod 128) # committed b'"
    using ring_items_take[OF assms(2), of 128 "ibuf b"] by (simp add: committed_def b'_def)
  show p: "pending b' = pending b" by (simp add: pending_def b'_def)
  have "unat (in_w b - in_r b) = Suc (unat (in_w b - (in_r b + 1)))"
    using arg_cong[OF c, of length] by (simp add: committed_def b'_def)
  moreover have "in_e b - in_r b \<noteq> 0" using input_lengths(1)[OF assms(1)] c by (auto simp: unat_eq_0)
  then have "unat (in_e b - in_r b) = Suc (unat (in_e b - (in_r b + 1)))"
    using unat_pred[of "in_e b - in_r b"] by (simp add: algebra_simps)
  ultimately show "input_ok b'" using assms(1) p by (auto simp: input_ok_def b'_def)
qed

lemma ustores_set_input:
  "ustores me a bs s = Inr t \<Longrightarrow> ustores me a bs (set_input f s) = Inr (set_input f t)"
proof (induction bs arbitrary: a s)
  case (Cons b bs)
  then obtain x where "ustore me a b s = Inr x" "ustores me (a + 1) bs x = Inr t" by (auto simp: bind_res_Inr_iff)
  moreover from this have "ustore me a b (set_input f s) = Inr (set_input f x)"
    by (auto simp: ustore_def set_input_def split: option.splits)
  ultimately show ?case using Cons.IH by simp
qed simp

lemma input_sleep:
  assumes "sleep c me ch s = Inr s'"
  shows "input s' = input s" "memory s' = memory s"
  using assms by (auto simp: sleep_def sched_def scheduler_back_def switchkvm_def upd_proc_def split: if_splits)

lemma consoleread_loop_spec:
  assumes "me < length (ptable s)" "input_ok (input s)" "k \<le> target"
    and "deliver (k < target) k (committed (input s)) = (d, q, complete)" "ustores me dst d s = Inr t"
  shows "\<exists>r k' s'. consoleread_loop target dst k c me s = Inr (r, k', s') \<and> input_ok (input s') \<and>
    committed (input s') = q \<and> pending (input s') = pending (input s) \<and> memory s' = memory t \<and> k' + length d = k \<and>
    (if complete then r = Done (of_nat (target - k')) else if killed (ptable s ! me) \<noteq> 0 then r = Done (- 1) else r = Blocked)"
  using assms
proof (induction k arbitrary: s dst d t)
  case 0
  then show ?case by auto
next
  case (Suc k)
  let ?b = "input s" and ?r = "set_input (\<lambda>b. b\<lparr>in_r := in_r b + 1\<rparr>) s"
  show ?case
  proof (cases "in_r ?b = in_w ?b")
    case True
    then have "committed ?b = []" by (simp add: committed_def)
    then have d: "d = []" "q = []" "\<not> complete" "t = s" using Suc.prems(4,5) by auto
    obtain s' where s': "sleep c me Input_chan s = Inr s'" using sleep_goes[OF Suc.prems(1)] by blast
    show ?thesis
      using True d s' input_sleep[OF s'] Suc.prems(2) \<open>committed ?b = []\<close>
      by (cases "killed (ptable s ! me) = 0") auto
  next
    case False
    let ?x = "ibuf ?b ! (unat (in_r ?b) mod 128)"
    note g = input_get[OF Suc.prems(2) False]
    have i: "input ?r = ?b\<lparr>in_r := in_r ?b + 1\<rparr>" "ptable ?r = ptable s" by (simp_all add: set_input_def)
    show ?thesis
    proof (cases "?x = 4")
      case True
      have d: "d = []" "complete" "t = s" "q = (if Suc k < target then committed ?b else committed (input ?r))"
        using Suc.prems(4,5) g(3) True i by auto
      let ?s' = "if Suc k < target then set_input (\<lambda>b. b\<lparr>in_r := in_r b - 1\<rparr>) ?r else ?r"
      have "consoleread_loop target dst (Suc k) c me s = Inr (Done (of_nat (target - Suc k)), Suc k, ?s')"
        using False True by simp
      moreover have "input ?s' = (if Suc k < target then ?b else ?b\<lparr>in_r := in_r ?b + 1\<rparr>)" "memory ?s' = memory s"
        by (simp_all add: set_input_def)
      ultimately show ?thesis using d g i Suc.prems(2)
        by (intro exI[of _ "Done (of_nat (target - Suc k))"] exI[of _ "Suc k"] exI[of _ ?s']) auto
    next
      case n4: False
      obtain ds e where ds: "d = ?x # ds" and
        de: "if ?x = 10 then ds = [] \<and> q = committed (input ?r) \<and> complete
             else deliver True k (committed (input ?r)) = (ds, q, complete)"
        using Suc.prems(4) g(3) n4 i by (auto split: if_splits prod.splits)
      obtain u where u: "ustore me dst ?x s = Inr u" "ustores me (dst + 1) ds u = Inr t"
        using Suc.prems(5) ds by (auto simp: bind_res_Inr_iff)
      let ?u = "set_input (\<lambda>b. b\<lparr>in_r := in_r b + 1\<rparr>) u"
      have u': "ustore me dst ?x ?r = Inr ?u"
        using u(1) by (auto simp: ustore_def set_input_def split: option.splits)
      have iu: "input ?u = input ?r" "ptable ?u = ptable s"
        using u(1) by (auto simp: ustore_def set_input_def split: option.splits)
      show ?thesis
      proof (cases "?x = 10")
        case True
        then have "consoleread_loop target dst (Suc k) c me s = Inr (Done (of_nat (target - k)), k, ?u)"
          using False u' by simp
        moreover have "memory ?u = memory t" using de True u(2) by (simp add: set_input_def)
        ultimately show ?thesis using de True ds iu g i
          by (intro exI[of _ "Done (of_nat (target - k))"] exI[of _ k] exI[of _ ?u]) auto
      next
        case n10: False
        have eq: "consoleread_loop target dst (Suc k) c me s = consoleread_loop target (dst + 1) k c me ?u"
          using False n4 n10 u' by simp
        have "deliver (k < target) k (committed (input ?u)) = (ds, q, complete)"
          using de n10 Suc.prems(3) iu by simp
        moreover have "ustores me (dst + 1) ds ?u = Inr (set_input (\<lambda>b. b\<lparr>in_r := in_r b + 1\<rparr>) t)"
          using ustores_set_input[OF u(2)] .
        moreover have pre: "me < length (ptable ?u)" "input_ok (input ?u)" "k \<le> target"
          using Suc.prems(1,3) g(1) iu i by simp_all
        ultimately obtain r k' s' where r: "consoleread_loop target (dst + 1) k c me ?u = Inr (r, k', s')"
          "input_ok (input s')" "committed (input s') = q" "pending (input s') = pending (input ?u)"
          "memory s' = memory (set_input (\<lambda>b. b\<lparr>in_r := in_r b + 1\<rparr>) t)" "k' + length ds = k"
          "if complete then r = Done (of_nat (target - k')) else if killed (ptable ?u ! me) \<noteq> 0 then r = Done (- 1) else r = Blocked"
          using Suc.IH[OF pre] by blast
        have "memory s' = memory t" using r(5) by (simp add: set_input_def)
        then show ?thesis unfolding eq using r iu g(2) i ds
          by (intro exI[of _ r] exI[of _ k'] exI[of _ s']) auto
      qed
    qed
  qed
qed

section \<open>Properties\<close>

text \<open>
  C28. The keyboard interrupt refines a line editor. For every sequence of byte codes the handler returns
  without a panic, leaves the screen cursor inside the screen, and has on the committed bytes and the
  line being edited the effect of editing: a key appends to the line, backspace drops its last byte,
  control-U drops the line, a newline, an end-of-file mark or the 128th byte commits it, and keys beyond
  128 buffered bytes are dropped. A process listing is asked for iff control-P was among the codes.
\<close>

theorem console_editing:
  assumes "cons_ok s" "input_ok (input s)" "list_all (\<lambda>c. c < 256) cs"
  shows "\<exists>s'. consoleintr cs (d, s) = Inr (d \<or> 16 \<in> set cs, s') \<and> cons_ok s' \<and> input_ok (input s') \<and>
    (committed (input s'), pending (input s')) = fold edit cs (committed (input s), pending (input s))"
  using assms
proof (induction cs arbitrary: d s)
  case (Cons c cs)
  obtain s1 where s1: "consoleintr_char c (d, s) = Inr (d \<or> c = 16, s1)" "cons_ok s1" "input_ok (input s1)"
    "(committed (input s1), pending (input s1)) = edit c (committed (input s), pending (input s))"
    using consoleintr_char_ok[OF Cons.prems(1,2), of c d] Cons.prems(3) by auto
  then show ?case using Cons.IH[OF s1(2,3), of "d \<or> c = 16"] Cons.prems(3) by auto
qed simp

text \<open>A console whose queue holds \<open>ab\<close> and an end-of-file mark.\<close>

definition demo_input :: input_buf where
  "demo_input = \<lparr>ibuf = [97, 98, 4] @ replicate 125 0, in_r = 0, in_w = 3, in_e = 3\<rparr>"

definition demo_console :: console where
  "demo_console = pipes.extend demo_pipes
     \<lparr>panicked = False, uart = True, crt = replicate 16384 0x720, crt_pos = 0, input = demo_input\<rparr>"

lemma demo_input_ok: "input_ok demo_input" "committed demo_input = [97, 98, 4]" "pending demo_input = []"
  by (simp_all add: input_ok_def committed_def pending_def ring_items_def demo_input_def upt_rec)

lemma demo_console_simps [simp]:
  "input demo_console = demo_input" "ptable demo_console = ptable demo_user" "memory demo_console = demo_umem"
  by (simp_all add: demo_console_def pipes.extend_def)

lemma demo_console_ok: "cons_ok demo_console"
  by (simp add: cons_ok_def cga_ok_def demo_console_def pipes.extend_def)

theorem console_editing_witness:
  "\<exists>s'. consoleintr [120, 8, 121, 13, 122] (False, demo_console) = Inr (False, s') \<and>
     committed (input s') = [97, 98, 4, 121, 10] \<and> pending (input s') = [122]"
  using console_editing[OF demo_console_ok, of "[120, 8, 121, 13, 122]" False]
  by (auto simp add: demo_input_ok edit_def simp del: consoleintr.simps)

text \<open>
  C29. Reading from the console delivers the committed bytes in order, up to the first newline, to the
  first end-of-file mark or to the number asked for. The result is the number delivered when the read
  is complete; otherwise the process sleeps, or fails if it was killed. An end-of-file mark after
  delivered bytes stays for the next read, which then returns 0.
\<close>

theorem consoleread_delivers:
  assumes "me < length (ptable s)" "input_ok (input s)"
    and "deliver False (nat (sint n)) (committed (input s)) = (d, q, complete)" "ustores me dst d s = Inr t"
  shows "\<exists>r k s'. consoleread dst n c me s = Inr (r, k, s') \<and> input_ok (input s') \<and>
    committed (input s') = q \<and> pending (input s') = pending (input s) \<and> memory s' = memory t \<and>
    k + length d = nat (sint n) \<and>
    (if complete then r = Done (of_nat (length d)) else if killed (ptable s ! me) \<noteq> 0 then r = Done (- 1) else r = Blocked)"
proof -
  have "deliver (nat (sint n) < nat (sint n)) (nat (sint n)) (committed (input s)) = (d, q, complete)"
    using assms(3) by simp
  from consoleread_loop_spec[OF assms(1,2) order_refl this assms(4), of c] obtain r k s' where
    r: "consoleread dst n c me s = Inr (r, k, s')" "input_ok (input s')" "committed (input s') = q"
    "pending (input s') = pending (input s)" "memory s' = memory t" "k + length d = nat (sint n)"
    "if complete then r = Done (of_nat (nat (sint n) - k)) else if killed (ptable s ! me) \<noteq> 0 then r = Done (- 1) else r = Blocked"
    unfolding consoleread_def by blast
  have "nat (sint n) - k = length d" using r(6) by simp
  then show ?thesis using r by (intro exI[of _ r] exI[of _ k] exI[of _ s']) (simp only: simp_thms)
qed

theorem consoleread_delivers_witness:
  "\<exists>k s'. consoleread 4 3 0 1 demo_console = Inr (Done 2, k, s') \<and> committed (input s') = [4]"
proof -
  have e: "demo_entries demo_umem" by (simp add: demo_entries_def demo_umem_read)
  then have "demo_entries (demo_umem(0x80402004 := 97))" by (intro demo_entries_upd) simp_all
  with e obtain t where t: "ustores 1 4 [97, 98] demo_console = Inr t"
    by (simp add: ustore_def demo_mmu)
  have d: "deliver False (nat (sint (3 :: u32))) (committed (input demo_console)) = ([97, 98], [4], True)"
    by (simp add: demo_input_ok numeral_3_eq_3)
  from consoleread_delivers[OF _ _ d t, of 0] show ?thesis
    using demo_pipes_user by (auto simp: demo_input_ok)
qed

end
