(* ===== verification/Sh.thy ===== *)
theory Sh
  imports Printf
begin

text \<open>
  The xv6 shell (\<open>sh.c\<close>): its tokenizer, the recursive-descent parser, the pass that terminates the
  words of a command in place, and the system calls \<open>runcmd\<close> makes. Pointers into the line buffer are
  offsets. The mutually recursive parser takes an amount of fuel that every call and every round of a
  loop spends; \<open>parse_fuel\<close> is enough for the whole line.
\<close>

section \<open>Commands\<close>

text \<open>A word is a pair of offsets, its first byte and the byte after its last one.\<close>

type_synonym word_span = "nat \<times> nat"

datatype cmd =
    EXEC "word_span list"
  | REDIR cmd word_span u32 u32
  | PIPE cmd cmd
  | LIST cmd cmd
  | BACK cmd

abbreviation (input) O_RDONLY :: u32 where "O_RDONLY \<equiv> 0"
abbreviation (input) O_WRONLY :: u32 where "O_WRONLY \<equiv> 1"
abbreviation (input) O_CREATE :: u32 where "O_CREATE \<equiv> 0x200"

text \<open>The arguments of the innermost \<open>execcmd\<close>, which \<open>parseexec\<close> fills in through its pointer.\<close>

primrec set_argv :: "word_span list \<Rightarrow> cmd \<Rightarrow> cmd" where
  "set_argv args (EXEC _) = EXEC args"
| "set_argv args (REDIR c w m fd) = REDIR (set_argv args c) w m fd"
| "set_argv args (PIPE c d) = PIPE c d"
| "set_argv args (LIST c d) = LIST c d"
| "set_argv args (BACK c) = BACK c"

section \<open>Tokens\<close>

definition whitespace :: "u8 list" where "whitespace = [32, 9, 13, 10, 11]"
definition symbols :: "u8 list" where "symbols = ascii ''<|>&;()''"

abbreviation is_ws :: "u8 \<Rightarrow> bool" where "is_ws c \<equiv> c \<in> set whitespace"
abbreviation is_sym :: "u8 \<Rightarrow> bool" where "is_sym c \<equiv> c \<in> set symbols"

function skip_while :: "(u8 \<Rightarrow> bool) \<Rightarrow> u8 list \<Rightarrow> nat \<Rightarrow> nat \<Rightarrow> nat" where
  "skip_while P b es s = (if s < es \<and> P (b ! s) then skip_while P b es (s + 1) else s)"
  by pat_completeness auto
termination by (relation "measure (\<lambda>(P, b, es, s). es - s)") auto

declare skip_while.simps [simp del]

text \<open>The kind of the token, its first byte, the byte after it, and the new position.\<close>

definition gettoken :: "u8 list \<Rightarrow> nat \<Rightarrow> nat \<Rightarrow> u8 \<times> word_span \<times> nat" where
  "gettoken b es ps =
     (let q = skip_while is_ws b es ps; c = b ! q;
          (ret, s) =
            (if c = 0 then (0, q)
             else if c \<in> set (ascii ''|();&<'') then (c, q + 1)
             else if c = chr CHR ''>'' then
               (if b ! (q + 1) = chr CHR ''>'' then (chr CHR ''+'', q + 2) else (c, q + 1))
             else (chr CHR ''a'', skip_while (\<lambda>c. \<not> is_ws c \<and> \<not> is_sym c) b es q))
      in (ret, (q, s), skip_while is_ws b es s))"

definition peek :: "u8 list \<Rightarrow> nat \<Rightarrow> string \<Rightarrow> nat \<Rightarrow> bool \<times> nat" where
  "peek b es toks ps =
     (let s = skip_while is_ws b es ps in (b ! s \<noteq> 0 \<and> b ! s \<in> set (ascii toks), s))"

section \<open>The parser\<close>

text \<open>The loop of \<open>parseline\<close> over trailing ampersands.\<close>

fun back_loop :: "nat \<Rightarrow> u8 list \<Rightarrow> nat \<Rightarrow> cmd \<Rightarrow> nat \<Rightarrow> fault + cmd \<times> nat" where
  "back_loop 0 b es c ps = Inl Diverge"
| "back_loop (Suc f) b es c ps =
     (case peek b es ''&'' ps of (yes, ps) \<Rightarrow>
      if yes then (case gettoken b es ps of (_, _, ps) \<Rightarrow> back_loop f b es (BACK c) ps)
      else Inr (c, ps))"

fun parseredirs :: "nat \<Rightarrow> u8 list \<Rightarrow> nat \<Rightarrow> cmd \<Rightarrow> nat \<Rightarrow> fault + cmd \<times> nat" where
  "parseredirs 0 b es c ps = Inl Diverge"
| "parseredirs (Suc f) b es c ps =
     (case peek b es ''<>'' ps of (yes, ps) \<Rightarrow>
      if yes then
        (case gettoken b es ps of (tok, _, ps) \<Rightarrow>
         case gettoken b es ps of (kind, w, ps) \<Rightarrow>
         if kind \<noteq> chr CHR ''a'' then Inl (Panic ''missing file for redirection'')
         else parseredirs f b es
           (if tok = chr CHR ''<'' then REDIR c w O_RDONLY 0
            else if tok = chr CHR ''>'' then REDIR c w (O_WRONLY OR O_CREATE) 1
            else if tok = chr CHR ''+'' then REDIR c w (O_WRONLY OR O_CREATE) 1
            else c) ps)
      else Inr (c, ps))"

text \<open>The loop of \<open>parseexec\<close>; \<open>MAXARGS\<close> is 10.\<close>

fun exec_loop :: "nat \<Rightarrow> u8 list \<Rightarrow> nat \<Rightarrow> word_span list \<Rightarrow> cmd \<Rightarrow> nat \<Rightarrow> fault + cmd \<times> nat" where
  "exec_loop 0 b es args ret ps = Inl Diverge"
| "exec_loop (Suc f) b es args ret ps =
     (case peek b es ''|)&;'' ps of (yes, ps) \<Rightarrow>
      if yes then Inr (set_argv args ret, ps)
      else case gettoken b es ps of (tok, w, ps) \<Rightarrow>
        if tok = 0 then Inr (set_argv args ret, ps)
        else if tok \<noteq> chr CHR ''a'' then Inl (Panic ''syntax'')
        else if length args + 1 \<ge> 10 then Inl (Panic ''too many args'')
        else bind_res (parseredirs f b es ret ps) (\<lambda>(ret, ps). exec_loop f b es (args @ [w]) ret ps))"

function (sequential) parseline :: "nat \<Rightarrow> u8 list \<Rightarrow> nat \<Rightarrow> nat \<Rightarrow> fault + cmd \<times> nat"
  and parsepipe :: "nat \<Rightarrow> u8 list \<Rightarrow> nat \<Rightarrow> nat \<Rightarrow> fault + cmd \<times> nat"
  and parseexec :: "nat \<Rightarrow> u8 list \<Rightarrow> nat \<Rightarrow> nat \<Rightarrow> fault + cmd \<times> nat"
  and parseblock :: "nat \<Rightarrow> u8 list \<Rightarrow> nat \<Rightarrow> nat \<Rightarrow> fault + cmd \<times> nat" where
  "parseline 0 b es ps = Inl Diverge"
| "parseline (Suc f) b es ps =
     bind_res (parsepipe f b es ps) (\<lambda>(c, ps).
     bind_res (back_loop f b es c ps) (\<lambda>(c, ps).
     case peek b es '';'' ps of (yes, ps) \<Rightarrow>
     if yes then
       (case gettoken b es ps of (_, _, ps) \<Rightarrow>
        bind_res (parseline f b es ps) (\<lambda>(d, ps). Inr (LIST c d, ps)))
     else Inr (c, ps)))"
| "parsepipe 0 b es ps = Inl Diverge"
| "parsepipe (Suc f) b es ps =
     bind_res (parseexec f b es ps) (\<lambda>(c, ps).
     case peek b es ''|'' ps of (yes, ps) \<Rightarrow>
     if yes then
       (case gettoken b es ps of (_, _, ps) \<Rightarrow>
        bind_res (parsepipe f b es ps) (\<lambda>(d, ps). Inr (PIPE c d, ps)))
     else Inr (c, ps))"
| "parseexec 0 b es ps = Inl Diverge"
| "parseexec (Suc f) b es ps =
     (case peek b es ''('' ps of (yes, ps) \<Rightarrow>
      if yes then parseblock f b es ps
      else bind_res (parseredirs f b es (EXEC []) ps) (\<lambda>(ret, ps). exec_loop f b es [] ret ps))"
| "parseblock 0 b es ps = Inl Diverge"
| "parseblock (Suc f) b es ps =
     (case peek b es ''('' ps of (yes, ps) \<Rightarrow>
      if \<not> yes then Inl (Panic ''parseblock'')
      else case gettoken b es ps of (_, _, ps) \<Rightarrow>
        bind_res (parseline f b es ps) (\<lambda>(c, ps).
        case peek b es '')'' ps of (yes, ps) \<Rightarrow>
        if \<not> yes then Inl (Panic ''syntax - missing )'')
        else case gettoken b es ps of (_, _, ps) \<Rightarrow> parseredirs f b es c ps))"
  by pat_completeness auto
termination
  by (relation "measure (\<lambda>x. case x of Inl (Inl (f, _)) \<Rightarrow> f | Inl (Inr (f, _)) \<Rightarrow> f
    | Inr (Inl (f, _)) \<Rightarrow> f | Inr (Inr (f, _)) \<Rightarrow> f)") auto

definition parse_fuel :: "nat \<Rightarrow> nat" where
  "parse_fuel n = 5 * n + 5"

text \<open>The buffer with a NUL at the end of every word of the command.\<close>

primrec nulterminate :: "cmd \<Rightarrow> u8 list \<Rightarrow> u8 list" where
  "nulterminate (EXEC args) b = fold (\<lambda>w b. b[snd w := 0]) args b"
| "nulterminate (REDIR c w m fd) b = (nulterminate c b)[snd w := 0]"
| "nulterminate (PIPE c d) b = nulterminate d (nulterminate c b)"
| "nulterminate (LIST c d) b = nulterminate d (nulterminate c b)"
| "nulterminate (BACK c) b = nulterminate c b"

text \<open>A line with its terminating NUL; the result is the command and the buffer it points into.\<close>

definition parsecmd :: "u8 list \<Rightarrow> fault + cmd \<times> u8 list" where
  "parsecmd b =
     (let es = length (takeWhile (\<lambda>c. c \<noteq> 0) b)
      in bind_res (parseline (parse_fuel es) b es 0) (\<lambda>(c, ps).
         case peek b es '''' ps of (_, ps) \<Rightarrow>
         if ps \<noteq> es then Inl (Panic ''syntax'')
         else Inr (c, nulterminate c b)))"

section \<open>Running\<close>

text \<open>
  The system calls of the process that runs a command, in order. \<open>Fork1 p\<close> creates a child that runs
  \<open>p\<close>; the two ends of the pipe just created are \<open>0\<close> and \<open>1\<close> of \<open>Pipe_end\<close>; every program ends in \<open>exit\<close>.
\<close>

datatype fd_arg = Fd u32 | Pipe_end nat

datatype sh_act =
    Exec_call "u8 list" "u8 list list"
  | Close fd_arg
  | Open_or_exit "u8 list" u32
  | Fork1 "sh_act list"
  | Wait_call
  | Pipe_call
  | Dup fd_arg
  | Exit_call

definition c_string :: "u8 list \<Rightarrow> nat \<Rightarrow> u8 list" where
  "c_string b q = takeWhile (\<lambda>c. c \<noteq> 0) (drop q b)"

primrec runcmd :: "u8 list \<Rightarrow> cmd \<Rightarrow> sh_act list" where
  "runcmd b (EXEC args) =
     (case args of [] \<Rightarrow> [Exit_call]
      | w # ws \<Rightarrow> [Exec_call (c_string b (fst w)) (map (\<lambda>w. c_string b (fst w)) args), Exit_call])"
| "runcmd b (REDIR c w m fd) = [Close (Fd fd), Open_or_exit (c_string b (fst w)) m] @ runcmd b c"
| "runcmd b (LIST c d) = [Fork1 (runcmd b c), Wait_call] @ runcmd b d"
| "runcmd b (PIPE c d) =
     [Pipe_call,
      Fork1 ([Close (Fd 1), Dup (Pipe_end 1), Close (Pipe_end 0), Close (Pipe_end 1)] @ runcmd b c),
      Fork1 ([Close (Fd 0), Dup (Pipe_end 0), Close (Pipe_end 0), Close (Pipe_end 1)] @ runcmd b d),
      Close (Pipe_end 0), Close (Pipe_end 1), Wait_call, Wait_call, Exit_call]"
| "runcmd b (BACK c) = [Fork1 (runcmd b c), Exit_call]"

text \<open>One round of the main loop on the line \<open>getcmd\<close> read into the 100-byte buffer.\<close>

datatype sh_round = Eof | Chdir "u8 list" | Run "fault + sh_act list"

definition sh_main_round :: "u8 list \<Rightarrow> sh_round" where
  "sh_main_round buf =
     (if buf ! 0 = 0 then Eof
      else if take 3 buf = ascii ''cd '' then
        Chdir (c_string (buf[length (c_string buf 0) - 1 := 0]) 3)
      else Run (bind_res (parsecmd buf) (\<lambda>(c, b). Inr (runcmd b c))))"

section \<open>The parser stops\<close>

lemma skip_while_bounds: "s \<le> es \<Longrightarrow> s \<le> skip_while P b es s \<and> skip_while P b es s \<le> es"
proof (induction P b es s rule: skip_while.induct)
  case (1 P b es s)
  then show ?case by (subst (1 2) skip_while.simps) auto
qed

lemma skip_while_stops:
  assumes "s \<le> es" "skip_while P b es s < es"
  shows "\<not> P (b ! skip_while P b es s)"
  using assms
proof (induction P b es s rule: skip_while.induct)
  case (1 P b es s)
  show ?case
  proof (cases "s < es \<and> P (b ! s)")
    case True
    then have "skip_while P b es s = skip_while P b es (s + 1)" by (subst skip_while.simps) simp
    then show ?thesis using 1 True by auto
  next
    case False
    then have "skip_while P b es s = s" by (subst skip_while.simps) auto
    then show ?thesis using 1(3) False by auto
  qed
qed

lemma skip_while_all:
  "s \<le> es \<Longrightarrow> s \<le> i \<Longrightarrow> i < skip_while P b es s \<Longrightarrow> P (b ! i)"
proof (induction P b es s rule: skip_while.induct)
  case (1 P b es s)
  show ?case
  proof (cases "s < es \<and> P (b ! s)")
    case True
    then have "skip_while P b es s = skip_while P b es (s + 1)" by (subst skip_while.simps) simp
    then show ?thesis using 1 True by (cases "i = s") auto
  next
    case False
    then have "skip_while P b es s = s" by (subst skip_while.simps) auto
    then show ?thesis using 1 by auto
  qed
qed

text \<open>A line: no NUL before \<open>es\<close>, and one there.\<close>

definition is_line :: "u8 list \<Rightarrow> nat \<Rightarrow> bool" where
  "is_line b es \<longleftrightarrow> es < length b \<and> b ! es = 0 \<and> (\<forall>i < es. b ! i \<noteq> 0)"

definition word_char :: "u8 \<Rightarrow> bool" where
  "word_char c \<longleftrightarrow> c \<noteq> 0 \<and> \<not> is_ws c \<and> \<not> is_sym c"

text \<open>A word of the line: its bytes are word characters and the byte after it is none.\<close>

definition span_ok :: "u8 list \<Rightarrow> nat \<Rightarrow> word_span \<Rightarrow> bool" where
  "span_ok b es w \<longleftrightarrow> fst w < snd w \<and> snd w \<le> es \<and> (\<forall>i. fst w \<le> i \<and> i < snd w \<longrightarrow> word_char (b ! i)) \<and>
     \<not> word_char (b ! snd w)"

primrec spans :: "cmd \<Rightarrow> word_span set" where
  "spans (EXEC args) = set args"
| "spans (REDIR c w m fd) = insert w (spans c)"
| "spans (PIPE c d) = spans c \<union> spans d"
| "spans (LIST c d) = spans c \<union> spans d"
| "spans (BACK c) = spans c"


lemma is_line_end: "is_line b es \<Longrightarrow> s \<le> es \<Longrightarrow> b ! s = 0 \<longleftrightarrow> s = es"
  by (auto simp: is_line_def le_less)

lemma word_char_alt:
  "word_char c \<longleftrightarrow> c \<noteq> 0 \<and> \<not> is_ws c \<and> c \<notin> set (ascii ''|();&<'') \<and> c \<noteq> chr CHR ''>''"
  by (auto simp: word_char_def symbols_def ascii_def)

lemma gettoken_spec:
  assumes "is_line b es" "ps \<le> es" "gettoken b es ps = (ret, w, ps')"
  shows "ps \<le> ps'" "ps' \<le> es" "ps < es \<or> ret \<noteq> 0 \<Longrightarrow> ps < ps'" "ret = chr CHR ''a'' \<Longrightarrow> span_ok b es w"
proof -
  define q where "q = skip_while is_ws b es ps"
  define r where "r = skip_while (\<lambda>c. \<not> is_ws c \<and> \<not> is_sym c) b es q"
  have q: "ps \<le> q" "q \<le> es" using skip_while_bounds[OF assms(2)] by (auto simp: q_def)
  have r: "q \<le> r" "r \<le> es" using skip_while_bounds[OF q(2)] by (auto simp: r_def)
  have nws: "\<not> is_ws (b ! q)" if "b ! q \<noteq> 0"
    using skip_while_stops[OF assms(2), of is_ws b] that is_line_end[OF assms(1) q(2)] q(2)
    by (auto simp: q_def[symmetric])
  have word: "word_char (b ! i)" if "q \<le> i" "i < r" for i
    using skip_while_all[OF q(2) that(1), of "\<lambda>c. \<not> is_ws c \<and> \<not> is_sym c" b] that r is_line_end[OF assms(1), of i]
    by (auto simp: r_def[symmetric] word_char_def)
  have stop: "\<not> word_char (b ! r)"
    using skip_while_stops[OF q(2), of "\<lambda>c. \<not> is_ws c \<and> \<not> is_sym c" b] is_line_end[OF assms(1) r(2)] r(2)
    by (auto simp: r_def[symmetric] word_char_def)
  define s where "s = snd w"
  have fin: "ps' = skip_while is_ws b es s" "w = (q, s)"
    using assms(3) by (auto simp: gettoken_def Let_def q_def s_def split: if_splits prod.splits)
  have cases: "(b ! q = 0 \<and> s = q \<and> ret = 0) \<or> (b ! q \<noteq> 0 \<and> q < s \<and> s \<le> q + 2 \<and> ret \<noteq> chr CHR ''a'' \<and> (s = q + 2 \<longrightarrow> b ! (q + 1) \<noteq> 0))
     \<or> (word_char (b ! q) \<and> s = r)"
    using assms(3) nws
    by (auto simp: gettoken_def Let_def q_def[symmetric] r_def[symmetric] s_def word_char_alt ascii_def split: if_splits)
  have s: "q \<le> s" "s \<le> es" "q < es \<Longrightarrow> q < s"
  proof -
    have "q < r" if "word_char (b ! q)" using stop r that by (cases "q = r") auto
    then show "q \<le> s" "q < es \<Longrightarrow> q < s" using cases r is_line_end[OF assms(1) q(2)] by auto
    have "q < es" if "b ! q \<noteq> 0" using that is_line_end[OF assms(1) q(2)] q(2) by simp
    then show "s \<le> es" using cases r q(2) is_line_end[OF assms(1), of "q + 1"] by auto
  qed
  have ps': "s \<le> ps'" "ps' \<le> es" using skip_while_bounds[OF s(2)] fin by auto
  show "ps \<le> ps'" "ps' \<le> es" using q s ps' by auto
  have "q < es" if "ret \<noteq> 0" using that cases is_line_end[OF assms(1) q(2)] q(2) by (auto simp: word_char_def)
  then show "ps < ps'" if "ps < es \<or> ret \<noteq> 0" using q s ps' that by (cases "q = es") auto
  show "span_ok b es w" if "ret = chr CHR ''a''"
  proof -
    have "word_char (b ! q)" "s = r" using cases that by auto
    moreover have "q < r" using calculation stop r by (cases "q = r") auto
    ultimately show ?thesis using fin word stop r by (auto simp: span_ok_def)
  qed
qed

lemma peek_spec:
  assumes "is_line b es" "ps \<le> es" "peek b es toks ps = (yes, ps')"
  shows "ps \<le> ps'" "ps' \<le> es" "yes \<Longrightarrow> ps' < es"
  using assms skip_while_bounds[OF assms(2), of is_ws b] is_line_end[OF assms(1), of ps']
  by (auto simp: peek_def Let_def le_less)

text \<open>What a parsing function returns: a new position in the line and words of the line, or a syntax error.\<close>

definition parsed :: "u8 list \<Rightarrow> nat \<Rightarrow> nat \<Rightarrow> fault + cmd \<times> nat \<Rightarrow> bool" where
  "parsed b es ps r \<longleftrightarrow>
     (case r of Inl e \<Rightarrow> (\<exists>msg. e = Panic msg) | Inr (c, ps') \<Rightarrow> ps \<le> ps' \<and> ps' \<le> es \<and> (\<forall>w \<in> spans c. span_ok b es w))"

lemma parsed_Inr [simp]:
  "parsed b es ps (Inr (c, ps')) \<longleftrightarrow> ps \<le> ps' \<and> ps' \<le> es \<and> (\<forall>w \<in> spans c. span_ok b es w)"
  by (simp add: parsed_def)

lemma parsed_Inl [simp]: "parsed b es ps (Inl e) \<longleftrightarrow> (\<exists>msg. e = Panic msg)"
  by (simp add: parsed_def)

lemma parsed_mono: "parsed b es ps' r \<Longrightarrow> ps \<le> ps' \<Longrightarrow> parsed b es ps r"
  by (auto simp: parsed_def split: sum.splits)

lemma parsed_if:
  "(c \<Longrightarrow> parsed b es ps x) \<Longrightarrow> (\<not> c \<Longrightarrow> parsed b es ps y) \<Longrightarrow> parsed b es ps (if c then x else y)"
  by simp

lemma parsed_bind:
  assumes "parsed b es ps r" "ps0 \<le> ps"
    and "\<And>c ps'. ps \<le> ps' \<Longrightarrow> ps' \<le> es \<Longrightarrow> \<forall>w \<in> spans c. span_ok b es w \<Longrightarrow> parsed b es ps0 (k c ps')"
  shows "parsed b es ps0 (bind_res r (\<lambda>(c, ps'). k c ps'))"
  using assms by (cases r) (auto simp: parsed_def[of _ _ _ "Inr _"])

lemma parsed_peek:
  assumes "is_line b es" "ps \<le> es"
    and "\<And>yes ps'. ps \<le> ps' \<Longrightarrow> ps' \<le> es \<Longrightarrow> (yes \<longrightarrow> ps' < es) \<Longrightarrow> parsed b es ps0 (k yes ps')"
  shows "parsed b es ps0 (case peek b es toks ps of (yes, ps') \<Rightarrow> k yes ps')"
proof -
  obtain yes p where p: "peek b es toks ps = (yes, p)" by (cases "peek b es toks ps")
  then show ?thesis using assms(3)[of p yes] peek_spec[OF assms(1,2) p] by simp
qed

lemma parsed_gettoken:
  assumes "is_line b es" "ps \<le> es"
    and "\<And>ret w ps'. ps \<le> ps' \<Longrightarrow> ps' \<le> es \<Longrightarrow> (ps < es \<or> ret \<noteq> 0 \<longrightarrow> ps < ps') \<Longrightarrow> (ret = chr CHR ''a'' \<longrightarrow> span_ok b es w)
           \<Longrightarrow> parsed b es ps0 (k ret w ps')"
  shows "parsed b es ps0 (case gettoken b es ps of (ret, w, ps') \<Rightarrow> k ret w ps')"
proof -
  obtain ret w p where p: "gettoken b es ps = (ret, w, p)" by (cases "gettoken b es ps")
  then show ?thesis using assms(3)[of p ret w] gettoken_spec[OF assms(1,2) p] by simp
qed

lemma spans_set_argv: "spans (set_argv args c) \<subseteq> spans c \<union> set args"
  by (induction c) auto

lemmas parsed_intros = parsed_if parsed_peek parsed_gettoken

lemma back_loop_parsed:
  assumes "is_line b es"
  shows "ps \<le> es \<Longrightarrow> es - ps < f \<Longrightarrow> \<forall>w \<in> spans c. span_ok b es w \<Longrightarrow> parsed b es ps (back_loop f b es c ps)"
proof (induction f arbitrary: c ps)
  case (Suc f)
  show ?case unfolding back_loop.simps
    by (intro parsed_intros parsed_mono[OF Suc.IH] assms) (use Suc.prems in auto)
qed simp

lemma parseredirs_parsed:
  assumes "is_line b es"
  shows "ps \<le> es \<Longrightarrow> es - ps < f \<Longrightarrow> \<forall>w \<in> spans c. span_ok b es w \<Longrightarrow> parsed b es ps (parseredirs f b es c ps)"
proof (induction f arbitrary: c ps)
  case (Suc f)
  show ?case unfolding parseredirs.simps
    by (intro parsed_intros parsed_mono[OF Suc.IH] assms) (use Suc.prems in auto)
qed simp

lemma exec_loop_parsed:
  assumes "is_line b es"
  shows "ps \<le> es \<Longrightarrow> es - ps + 1 < f \<Longrightarrow> \<forall>w \<in> spans c. span_ok b es w \<Longrightarrow> \<forall>w \<in> set args. span_ok b es w
    \<Longrightarrow> parsed b es ps (exec_loop f b es args c ps)"
proof (induction f arbitrary: c ps args)
  case (Suc f)
  show ?case unfolding exec_loop.simps
    by (intro parsed_intros parsed_mono[OF Suc.IH] parsed_bind[OF parseredirs_parsed] assms)
      (use Suc.prems spans_set_argv[of args c] in auto)
qed simp

lemma parse_parsed:
  assumes "is_line b es"
  shows "ps \<le> es \<longrightarrow>
    (5 * (es - ps) + 4 < f \<longrightarrow> parsed b es ps (parseline f b es ps)) \<and>
    (5 * (es - ps) + 3 < f \<longrightarrow> parsed b es ps (parsepipe f b es ps)) \<and>
    (5 * (es - ps) + 2 < f \<longrightarrow> parsed b es ps (parseexec f b es ps)) \<and>
    (5 * (es - ps) + 1 < f \<longrightarrow> parsed b es ps (parseblock f b es ps))"
proof (induction f arbitrary: ps)
  case (Suc f)
  note binds = back_loop_parsed[OF assms, THEN parsed_bind] parseredirs_parsed[OF assms, THEN parsed_bind]
  have IH: "p \<le> es \<Longrightarrow> 5 * (es - p) + 4 < f \<Longrightarrow> parsed b es p (parseline f b es p)"
    "p \<le> es \<Longrightarrow> 5 * (es - p) + 3 < f \<Longrightarrow> parsed b es p (parsepipe f b es p)"
    "p \<le> es \<Longrightarrow> 5 * (es - p) + 2 < f \<Longrightarrow> parsed b es p (parseexec f b es p)"
    "p \<le> es \<Longrightarrow> 5 * (es - p) + 1 < f \<Longrightarrow> parsed b es p (parseblock f b es p)" for p
    using Suc.IH[of p] by auto
  have "parsed b es ps (parseline (Suc f) b es ps)" if "ps \<le> es" "5 * (es - ps) + 4 < Suc f"
    unfolding parseline.simps by (intro parsed_intros IH(1)[THEN parsed_bind] IH(2)[THEN parsed_bind] binds assms) (use that in auto)
  moreover have "parsed b es ps (parsepipe (Suc f) b es ps)" if "ps \<le> es" "5 * (es - ps) + 3 < Suc f"
    unfolding parsepipe.simps by (intro parsed_intros IH(2)[THEN parsed_bind] IH(3)[THEN parsed_bind] binds assms) (use that in auto)
  moreover have "parsed b es ps (parseexec (Suc f) b es ps)" if "ps \<le> es" "5 * (es - ps) + 2 < Suc f"
    unfolding parseexec.simps by (intro parsed_intros parsed_mono[OF IH(4)] parsed_mono[OF exec_loop_parsed] binds assms) (use that in auto)
  moreover have "parsed b es ps (parseblock (Suc f) b es ps)" if "ps \<le> es" "5 * (es - ps) + 1 < Suc f"
    unfolding parseblock.simps by (intro parsed_intros IH(1)[THEN parsed_bind] parsed_mono[OF parseredirs_parsed] binds assms) (use that in auto)
  ultimately show ?case by blast
qed simp

section \<open>Words\<close>

lemma nulterminate_length [simp]: "length (nulterminate c b) = length b"
proof -
  have "length (fold (\<lambda>w b. b[snd w := 0]) args b) = length b" for args :: "word_span list" and b :: "u8 list"
    by (induction args arbitrary: b) auto
  then show ?thesis by (induction c arbitrary: b) auto
qed

lemma nth_update_at: "j < length xs \<Longrightarrow> xs[i := x] ! j = (if i = j then x else xs ! j)"
  by auto

lemma nulterminate_nth:
  "i < length b \<Longrightarrow> nulterminate c b ! i = (if i \<in> snd ` spans c then 0 else b ! i)"
proof -
  have args: "i < length b \<Longrightarrow> fold (\<lambda>w b. b[snd w := 0]) args b ! i = (if i \<in> snd ` set args then 0 else b ! i)"
    for args :: "word_span list" and b :: "u8 list"
    by (induction args arbitrary: b) (auto simp: nth_update_at)
  show "i < length b \<Longrightarrow> ?thesis"
    by (induction c arbitrary: b) (auto simp: args nth_update_at)
qed

lemma c_string_eqI:
  assumes "q \<le> e" "e < length b" "b ! e = 0" "\<And>i. q \<le> i \<Longrightarrow> i < e \<Longrightarrow> b ! i \<noteq> 0"
  shows "c_string b q = take (e - q) (drop q b)"
proof -
  define xs where "xs = take (e - q) (drop q b)"
  have "drop q b = xs @ 0 # drop (Suc e) b"
    using assms(1-3) unfolding xs_def
    by (metis append_take_drop_id Cons_nth_drop_Suc drop_drop le_add_diff_inverse2)
  moreover have "x \<noteq> 0" if "x \<in> set xs" for x
    using assms that by (auto simp: xs_def in_set_conv_nth)
  ultimately have "c_string b q = xs" by (simp add: c_string_def takeWhile_append2)
  then show ?thesis by (simp only: xs_def)
qed

lemma c_string_nulterminate:
  assumes "is_line b es" "\<forall>w \<in> spans c. span_ok b es w" "w \<in> spans c"
  shows "c_string (nulterminate c b) (fst w) = take (snd w - fst w) (drop (fst w) b)"
proof -
  have w: "span_ok b es w" and len: "es < length b" using assms by (auto simp: is_line_def)
  have keep: "nulterminate c b ! i = b ! i \<and> word_char (b ! i)" if "fst w \<le> i" "i < snd w" for i
    using that w len assms(2) by (auto simp: nulterminate_nth span_ok_def)
  have "c_string (nulterminate c b) (fst w) = take (snd w - fst w) (drop (fst w) (nulterminate c b))"
  proof (rule c_string_eqI)
    show "nulterminate c b ! snd w = 0"
      using w len assms(3) by (auto simp: nulterminate_nth span_ok_def)
  qed (use w len keep in \<open>auto simp: span_ok_def word_char_def\<close>)
  also have "\<dots> = take (snd w - fst w) (drop (fst w) b)"
    using w len keep by (auto intro!: nth_equalityI simp: span_ok_def)
  finally show ?thesis .
qed

lemma is_line_takeWhile: "0 \<in> set b \<Longrightarrow> is_line b (length (takeWhile (\<lambda>c. c \<noteq> 0) b))"
  by (induction b) (auto simp: is_line_def nth_Cons split: nat.splits)

text \<open>
  C30. On every line the parser stops, with a command or with a syntax error. Every word of the command
  is a nonempty run of word characters of the line that ends at a separator, and after the words have
  been terminated in place each is still read back as exactly those characters: no terminator falls
  inside another word.
\<close>

theorem parsecmd_words:
  assumes "0 \<in> set b"
  shows "case parsecmd b of
           Inl e \<Rightarrow> \<exists>msg. e = Panic msg
         | Inr (c, b') \<Rightarrow> length b' = length b \<and>
             (\<forall>w \<in> spans c. fst w < snd w \<and> snd w < length b \<and> \<not> word_char (b ! snd w) \<and>
               (let s = take (snd w - fst w) (drop (fst w) b)
                in c_string b' (fst w) = s \<and> list_all word_char s))"
proof -
  define es where "es = length (takeWhile (\<lambda>c. c \<noteq> 0) b)"
  have line: "is_line b es" using is_line_takeWhile[OF assms] by (simp add: es_def)
  have p: "parsed b es 0 (parseline (parse_fuel es) b es 0)"
    using parse_parsed[OF line, of 0 "parse_fuel es"] by (simp add: parse_fuel_def)
  have ok: "fst w < snd w \<and> snd w < length b \<and> \<not> word_char (b ! snd w) \<and>
      list_all word_char (take (snd w - fst w) (drop (fst w) b))" if "span_ok b es w" for w
    using that line by (auto simp: span_ok_def is_line_def list_all_length)
  show ?thesis
    using p ok c_string_nulterminate[OF line]
    by (auto simp: parsecmd_def es_def[symmetric] parsed_def Let_def split: sum.splits prod.splits)
qed

definition demo_line :: "u8 list" where
  "demo_line = ascii ''grep a<in|wc;(ls)&'' @ [10, 0]"

theorem parsecmd_words_witness:
  "\<exists>c b'. parsecmd demo_line = Inr (c, b') \<and> (0, 4) \<in> spans c \<and> c_string b' 0 = ascii ''grep''"
proof -
  have "case parsecmd demo_line of Inl _ \<Rightarrow> False | Inr (c, b') \<Rightarrow> (0, 4) \<in> spans c" by code_simp
  then obtain c b' where p: "parsecmd demo_line = Inr (c, b')" "(0, 4) \<in> spans c"
    by (auto split: sum.splits prod.splits)
  have "0 \<in> set demo_line" by (simp add: demo_line_def)
  from parsecmd_words[OF this] have "c_string b' 0 = take 4 demo_line"
    using p by (force simp: Let_def)
  then show ?thesis using p by (auto simp: demo_line_def ascii_def)
qed

end
