(* ===== verification/Posix.thy ===== *)
theory Posix
  imports Printf "HOL-Library.Monad_Syntax"
begin

text \<open>
  The system interface the utilities under \<open>G19_Project2_1\<close> are written against. The kernel and the C
  library's streams are not part of the sources: they are a record of functions over an abstract world,
  an argument of every utility. \<open>io_ok\<close> collects what the utilities rely on about \<open>read\<close> and \<open>write\<close>.
  A loop that may not end is a partial function whose value is \<open>None\<close> when it does not.
\<close>

type_synonym bytes = "u8 list"

datatype rename_result = Renamed | Cross_device | Rename_failed

text \<open>
  A failing call returns \<open>None\<close> (or \<open>False\<close>). \<open>px_warn\<close> prints a message on standard error with the
  reason of the last failure, \<open>px_eprint\<close> one without it, \<open>px_print\<close> prints to the standard output
  stream. \<open>px_fopen\<close> returns the bytes the stream delivers before the end of the file or an error.
\<close>

record 'w posix =
  px_open :: "bytes \<Rightarrow> u32 \<Rightarrow> u32 \<Rightarrow> 'w \<Rightarrow> nat option \<times> 'w"
  px_read :: "nat \<Rightarrow> nat \<Rightarrow> 'w \<Rightarrow> bytes option \<times> 'w"
  px_write :: "nat \<Rightarrow> bytes \<Rightarrow> 'w \<Rightarrow> nat option \<times> 'w"
  px_close :: "nat \<Rightarrow> 'w \<Rightarrow> 'w"
  px_fstat :: "nat \<Rightarrow> 'w \<Rightarrow> u32 option"
  px_warn :: "bytes \<Rightarrow> 'w \<Rightarrow> 'w"
  px_eprint :: "bytes \<Rightarrow> 'w \<Rightarrow> 'w"
  px_print :: "bytes \<Rightarrow> 'w \<Rightarrow> 'w"
  px_fopen :: "bytes \<Rightarrow> 'w \<Rightarrow> bytes option \<times> 'w"
  px_fclose :: "bytes \<Rightarrow> 'w \<Rightarrow> 'w"
  px_unlink :: "bytes \<Rightarrow> 'w \<Rightarrow> bool \<times> 'w"
  px_rename :: "bytes \<Rightarrow> bytes \<Rightarrow> 'w \<Rightarrow> rename_result \<times> 'w"
  px_chmod :: "bytes \<Rightarrow> u32 \<Rightarrow> 'w \<Rightarrow> bool \<times> 'w"
  px_utime :: "bytes \<Rightarrow> 'w \<Rightarrow> bool \<times> 'w"
  px_stat :: "bytes \<Rightarrow> 'w \<Rightarrow> (u32 \<times> int) option"
  px_lstat :: "bytes \<Rightarrow> 'w \<Rightarrow> u32 option"
  px_opendir :: "bytes \<Rightarrow> 'w \<Rightarrow> nat option \<times> 'w"
  px_readdir :: "nat \<Rightarrow> 'w \<Rightarrow> bytes option \<times> 'w"
  px_closedir :: "nat \<Rightarrow> 'w \<Rightarrow> 'w"
  px_rmdir :: "bytes \<Rightarrow> 'w \<Rightarrow> bool \<times> 'w"

abbreviation (input) O_RDONLY :: u32 where "O_RDONLY \<equiv> 0"
abbreviation (input) O_WRONLY :: u32 where "O_WRONLY \<equiv> 1"
abbreviation (input) O_CREAT :: u32 where "O_CREAT \<equiv> 0x40"
abbreviation (input) O_TRUNC :: u32 where "O_TRUNC \<equiv> 0x200"
abbreviation (input) O_APPEND :: u32 where "O_APPEND \<equiv> 0x400"

section \<open>The loops around read and write\<close>

text \<open>The inner loop \<open>while (off < n)\<close>: the rest of the buffer is written until all of it is.\<close>

partial_function (option) write_all :: "'w posix \<Rightarrow> nat \<Rightarrow> bytes \<Rightarrow> 'w \<Rightarrow> (bool \<times> 'w) option" where
  "write_all P fd bs w =
     (if bs = [] then Some (True, w)
      else case px_write P fd bs w of
        (None, w) \<Rightarrow> Some (False, w)
      | (Some k, w) \<Rightarrow> write_all P fd (drop k bs) w)"

datatype copy_result = Copied | Read_error | Write_error

text \<open>The outer loop \<open>while ((n = read(src, buf, BUF_SIZE)) > 0)\<close>; \<open>BUF_SIZE\<close> is 4096.\<close>

partial_function (option) copy_loop :: "'w posix \<Rightarrow> nat \<Rightarrow> nat \<Rightarrow> 'w \<Rightarrow> (copy_result \<times> 'w) option" where
  "copy_loop P src dst w =
     (case px_read P src 4096 w of
        (None, w) \<Rightarrow> Some (Read_error, w)
      | (Some bs, w) \<Rightarrow>
        if bs = [] then Some (Copied, w)
        else do { (ok, w) \<leftarrow> write_all P dst bs w;
                  if ok then copy_loop P src dst w else Some (Write_error, w) })"

section \<open>What read and write promise\<close>

text \<open>
  \<open>rest w fd\<close> are the bytes still to be read from \<open>fd\<close>, \<open>out w fd\<close> the bytes written to it so far. A
  read returns the next bytes, none only at the end; a write takes some of the bytes it is given.
\<close>

definition io_ok :: "'w posix \<Rightarrow> ('w \<Rightarrow> nat \<Rightarrow> bytes) \<Rightarrow> ('w \<Rightarrow> nat \<Rightarrow> bytes) \<Rightarrow> bool" where
  "io_ok P rest out \<longleftrightarrow>
     (\<forall>fd n w. case px_read P fd n w of
        (None, w') \<Rightarrow> rest w' = rest w \<and> out w' = out w
      | (Some bs, w') \<Rightarrow> rest w fd = bs @ rest w' fd \<and> rest w' = (rest w)(fd := rest w' fd) \<and> out w' = out w \<and>
          length bs \<le> n \<and> (0 < n \<longrightarrow> bs = [] \<longrightarrow> rest w fd = [])) \<and>
     (\<forall>fd bs w. case px_write P fd bs w of
        (None, w') \<Rightarrow> rest w' = rest w \<and> out w' = out w
      | (Some k, w') \<Rightarrow> k \<le> length bs \<and> (bs \<noteq> [] \<longrightarrow> 0 < k) \<and> rest w' = rest w \<and>
          out w' = (out w)(fd := out w fd @ take k bs))"

lemma io_ok_read:
  "io_ok P rest out \<Longrightarrow> case px_read P fd n w of
        (None, w') \<Rightarrow> rest w' = rest w \<and> out w' = out w
      | (Some bs, w') \<Rightarrow> rest w fd = bs @ rest w' fd \<and> rest w' = (rest w)(fd := rest w' fd) \<and> out w' = out w \<and>
          length bs \<le> n \<and> (0 < n \<longrightarrow> bs = [] \<longrightarrow> rest w fd = [])"
  unfolding io_ok_def by (drule conjunct1, drule spec[of _ fd], drule spec[of _ n], drule spec[of _ w])

lemma io_ok_write:
  "io_ok P rest out \<Longrightarrow> case px_write P fd bs w of
        (None, w') \<Rightarrow> rest w' = rest w \<and> out w' = out w
      | (Some k, w') \<Rightarrow> k \<le> length bs \<and> (bs \<noteq> [] \<longrightarrow> 0 < k) \<and> rest w' = rest w \<and>
          out w' = (out w)(fd := out w fd @ take k bs)"
  unfolding io_ok_def by (drule conjunct2, drule spec[of _ fd], drule spec[of _ bs], drule spec[of _ w])

lemma io_ok_readD:
  assumes "io_ok P rest out" "px_read P fd n w = (Some bs, w')"
  shows "rest w fd = bs @ rest w' fd" "rest w' = (rest w)(fd := rest w' fd)" "out w' = out w" "length bs \<le> n"
    "0 < n \<Longrightarrow> bs = [] \<Longrightarrow> rest w fd = []"
  using io_ok_read[OF assms(1), where fd = fd and n = n and w = w] unfolding assms(2) prod.case option.case by blast+

lemma io_ok_read_errorD:
  assumes "io_ok P rest out" "px_read P fd n w = (None, w')"
  shows "rest w' = rest w" "out w' = out w"
  using io_ok_read[OF assms(1), where fd = fd and n = n and w = w] unfolding assms(2) prod.case option.case by blast+

lemma io_ok_writeD:
  assumes "io_ok P rest out" "px_write P fd bs w = (Some k, w')"
  shows "k \<le> length bs" "bs \<noteq> [] \<Longrightarrow> 0 < k" "rest w' = rest w" "out w' = (out w)(fd := out w fd @ take k bs)"
  using io_ok_write[OF assms(1), where fd = fd and bs = bs and w = w] unfolding assms(2) prod.case option.case by blast+

lemma io_ok_write_errorD:
  assumes "io_ok P rest out" "px_write P fd bs w = (None, w')"
  shows "rest w' = rest w" "out w' = out w"
  using io_ok_write[OF assms(1), where fd = fd and bs = bs and w = w] unfolding assms(2) prod.case option.case by blast+

text \<open>Writing a buffer ends; without an error all of it has been written, else a prefix.\<close>

lemma write_all_spec:
  assumes "io_ok P rest out"
  shows "\<exists>ok w' k. write_all P fd bs w = Some (ok, w') \<and> rest w' = rest w \<and>
    out w' = (out w)(fd := out w fd @ take k bs) \<and> (ok \<longrightarrow> take k bs = bs)"
proof (induction "length bs" arbitrary: bs w rule: less_induct)
  case less
  show ?case
  proof (cases "bs = []")
    case True
    then show ?thesis by (subst write_all.simps) auto
  next
    case False
    obtain r w1 where r: "px_write P fd bs w = (r, w1)" by (cases "px_write P fd bs w")
    show ?thesis
    proof (cases r)
      case None
      have "write_all P fd bs w = Some (False, w1)" using None r False by (subst write_all.simps) simp
      then show ?thesis using io_ok_write_errorD[OF assms r[unfolded None]]
        by (intro exI[of _ False] exI[of _ w1] exI[of _ 0]) simp
    next
      case (Some k)
      note d = io_ok_writeD[OF assms r[unfolded Some]]
      have "length (drop k bs) < length bs" using d(1,2) False by auto
      from less[OF this, of w1] obtain ok w' j where j: "write_all P fd (drop k bs) w1 = Some (ok, w')"
        "rest w' = rest w1" "out w' = (out w1)(fd := out w1 fd @ take j (drop k bs))" "ok \<longrightarrow> take j (drop k bs) = drop k bs"
        by blast
      have "take (k + j) bs = take k bs @ take j (drop k bs)" using d(1) by (simp add: take_add)
      moreover from this have "ok \<longrightarrow> take (k + j) bs = bs" using j(4) by simp
      moreover have "write_all P fd bs w = Some (ok, w')" using r Some False j(1) by (subst write_all.simps) simp
      moreover have "out w' = (out w)(fd := out w fd @ take (k + j) bs)" using j(3) d(4) calculation(1) by simp
      moreover have "rest w' = rest w" using j(2) d(3) by simp
      ultimately show ?thesis by blast
    qed
  qed
qed

text \<open>
  Copying ends. What arrives is a prefix of what could be read, and all of it unless a read or a write
  failed.
\<close>

lemma copy_loop_spec:
  assumes "io_ok P rest out" "src \<noteq> dst"
  shows "\<exists>r w' k. copy_loop P src dst w = Some (r, w') \<and> out w' = (out w)(dst := out w dst @ take k (rest w src)) \<and>
    (r = Copied \<longrightarrow> take k (rest w src) = rest w src)"
proof (induction "length (rest w src)" arbitrary: w rule: less_induct)
  case less
  obtain b w1 where b: "px_read P src 4096 w = (b, w1)" by (cases "px_read P src 4096 w")
  show ?case
  proof (cases b)
    case None
    have "copy_loop P src dst w = Some (Read_error, w1)" using None b by (subst copy_loop.simps) simp
    then show ?thesis using io_ok_read_errorD[OF assms(1) b[unfolded None]]
      by (intro exI[of _ Read_error] exI[of _ w1] exI[of _ 0]) simp
  next
    case (Some bs)
    note d = io_ok_readD[OF assms(1) b[unfolded Some]]
    show ?thesis
    proof (cases "bs = []")
      case True
      then have "copy_loop P src dst w = Some (Copied, w1)" using Some b by (subst copy_loop.simps) simp
      then show ?thesis using d(3,5) True by (intro exI[of _ Copied] exI[of _ w1] exI[of _ 0]) simp
    next
      case False
      obtain ok w2 k where k: "write_all P dst bs w1 = Some (ok, w2)" "rest w2 = rest w1"
        "out w2 = (out w1)(dst := out w1 dst @ take k bs)" "ok \<longrightarrow> take k bs = bs"
        using write_all_spec[OF assms(1), of dst bs w1] by blast
      have rest: "rest w src = bs @ rest w2 src" using d(1) k(2) by simp
      show ?thesis
      proof (cases ok)
        case False
        have "take (min k (length bs)) (rest w src) = take k bs" using rest by (simp add: min_def)
        moreover have "copy_loop P src dst w = Some (Write_error, w2)"
          using b Some \<open>bs \<noteq> []\<close> k(1) False by (subst copy_loop.simps) simp
        ultimately show ?thesis using k(3) d(3)
          by (intro exI[of _ Write_error] exI[of _ w2] exI[of _ "min k (length bs)"]) simp
      next
        case True
        have "length (rest w2 src) < length (rest w src)" using rest False by simp
        from less[OF this] obtain r w' j where j: "copy_loop P src dst w2 = Some (r, w')"
          "out w' = (out w2)(dst := out w2 dst @ take j (rest w2 src))" "r = Copied \<longrightarrow> take j (rest w2 src) = rest w2 src"
          by blast
        have "take (length bs + j) (rest w src) = bs @ take j (rest w2 src)" using rest by simp
        moreover have "copy_loop P src dst w = Some (r, w')"
          using b Some \<open>bs \<noteq> []\<close> k(1) True j(1) by (subst copy_loop.simps) simp
        moreover have "out w2 dst = out w dst @ bs" "out w' = (out w)(dst := out w2 dst @ take j (rest w2 src))"
          using k(3,4) True d(3) j(2) by simp_all
        ultimately show ?thesis using j(3) rest
          by (intro exI[of _ r] exI[of _ w'] exI[of _ "length bs + j"]) simp
      qed
    qed
  qed
qed

section \<open>Systems without errors\<close>

text \<open>Every write takes all its bytes; no read, no write fails.\<close>

definition full_writes :: "'w posix \<Rightarrow> bool" where
  "full_writes P \<longleftrightarrow> (\<forall>fd bs w. fst (px_write P fd bs w) = Some (length bs))"

lemma full_write:
  assumes "io_ok P rest out" "full_writes P"
  shows "rest (snd (px_write P fd bs w)) = rest w" "out (snd (px_write P fd bs w)) = (out w)(fd := out w fd @ bs)"
proof -
  have "px_write P fd bs w = (Some (length bs), snd (px_write P fd bs w))"
    using assms(2) by (metis full_writes_def prod.collapse)
  from io_ok_writeD(3,4)[OF assms(1) this]
  show "rest (snd (px_write P fd bs w)) = rest w" "out (snd (px_write P fd bs w)) = (out w)(fd := out w fd @ bs)" by auto
qed

definition reads_ok :: "'w posix \<Rightarrow> nat \<Rightarrow> bool" where
  "reads_ok P fd \<longleftrightarrow> (\<forall>n w. fst (px_read P fd n w) \<noteq> None)"

lemma reads_okD: "reads_ok P fd \<Longrightarrow> \<exists>bs w'. px_read P fd n w = (Some bs, w')"
  unfolding reads_ok_def by (metis not_None_eq prod.collapse)

definition writes_ok :: "'w posix \<Rightarrow> bool" where
  "writes_ok P \<longleftrightarrow> (\<forall>fd bs w. fst (px_write P fd bs w) \<noteq> None)"

lemma write_all_ok:
  assumes "io_ok P rest out" "writes_ok P"
  shows "\<exists>w'. write_all P fd bs w = Some (True, w') \<and> out w' = (out w)(fd := out w fd @ bs)"
proof -
  have "\<exists>w'. write_all P fd bs w = Some (True, w')"
  proof (induction "length bs" arbitrary: bs w rule: less_induct)
    case less
    show ?case
    proof (cases "bs = []")
      case False
      obtain k w1 where k: "px_write P fd bs w = (Some k, w1)"
        using assms(2) by (metis writes_ok_def not_None_eq prod.collapse)
      have "length (drop k bs) < length bs" using io_ok_writeD(1,2)[OF assms(1) k] False by auto
      then show ?thesis using less[of "drop k bs" w1] k False by (subst write_all.simps) simp
    qed (subst write_all.simps, simp)
  qed
  then show ?thesis using write_all_spec[OF assms(1), of fd bs w] by auto
qed

section \<open>A small system\<close>

text \<open>
  An instance of the interface: descriptors 3 and 4 are the files \<open>a\<close> and \<open>b\<close>, a read returns at most
  three bytes and a write takes at most two. \<open>dw_fail\<close> makes reads fail; names that were unlinked are
  recorded.
\<close>

record demo_world =
  dw_in :: "nat \<Rightarrow> bytes"
  dw_out :: "nat \<Rightarrow> bytes"
  dw_gone :: "bytes list"
  dw_stdout :: bytes
  dw_fail :: bool

definition demo_posix :: "demo_world posix" where
  "demo_posix = \<lparr>
     px_open = (\<lambda>p fl m w. (if p = ascii ''a'' then Some 3 else if p = ascii ''b'' then Some 4 else None, w)),
     px_read = (\<lambda>fd n w. if dw_fail w then (None, w)
        else (Some (take (min n 3) (dw_in w fd)), w\<lparr>dw_in := (dw_in w)(fd := drop (min n 3) (dw_in w fd))\<rparr>)),
     px_write = (\<lambda>fd bs w. (Some (length (take 2 bs)), w\<lparr>dw_out := (dw_out w)(fd := dw_out w fd @ take 2 bs)\<rparr>)),
     px_close = (\<lambda>fd w. w), px_fstat = (\<lambda>fd w. Some 0x1A4),
     px_warn = (\<lambda>m w. w), px_eprint = (\<lambda>m w. w), px_print = (\<lambda>m w. w\<lparr>dw_stdout := dw_stdout w @ m\<rparr>),
     px_fopen = (\<lambda>p w. (if p = ascii ''a'' then Some (dw_in w 3) else None, w)), px_fclose = (\<lambda>p w. w),
     px_unlink = (\<lambda>p w. (True, w\<lparr>dw_gone := p # dw_gone w\<rparr>)), px_rename = (\<lambda>p q w. (Cross_device, w)),
     px_chmod = (\<lambda>p m w. (True, w)), px_utime = (\<lambda>p w. (True, w)), px_stat = (\<lambda>p w. None), px_lstat = (\<lambda>p w. None),
     px_opendir = (\<lambda>p w. (None, w)), px_readdir = (\<lambda>d w. (None, w)), px_closedir = (\<lambda>d w. w), px_rmdir = (\<lambda>p w. (True, w))\<rparr>"

definition demo_world :: demo_world where
  "demo_world = \<lparr>dw_in = (\<lambda>_. [])(3 := [1, 2, 3, 4, 5]), dw_out = (\<lambda>_. []), dw_gone = [], dw_stdout = [], dw_fail = False\<rparr>"

lemma demo_io_ok: "io_ok demo_posix dw_in dw_out"
  by (auto simp: io_ok_def demo_posix_def min_def split: if_splits)

lemma demo_write_all: "\<exists>w'. write_all demo_posix fd bs w = Some (True, w')"
proof (induction "length bs" arbitrary: bs w rule: less_induct)
  case less
  show ?case
  proof (cases "bs = []")
    case False
    then have "length (drop (length (take 2 bs)) bs) < length bs" by (cases bs) auto
    from less[OF this] obtain w' where
      "write_all demo_posix fd (drop (length (take 2 bs)) bs) (snd (px_write demo_posix fd bs w)) = Some (True, w')"
      by blast
    then show ?thesis using False by (subst write_all.simps) (simp add: demo_posix_def)
  qed (subst write_all.simps, simp)
qed

lemma demo_copy_loop: "copy_loop demo_posix src dst w = Some r \<Longrightarrow> fst r \<noteq> Write_error"
proof (induction "length (dw_in w src)" arbitrary: w rule: less_induct)
  case less
  obtain b w1 where b: "px_read demo_posix src 4096 w = (b, w1)" by (cases "px_read demo_posix src 4096 w")
  show ?case
  proof (cases "b = None \<or> b = Some []")
    case True
    then show ?thesis using less.prems b by (subst (asm) copy_loop.simps) auto
  next
    case False
    then obtain bs where bs: "b = Some bs" "bs \<noteq> []" by auto
    obtain ok w2 k where w2: "write_all demo_posix dst bs w1 = Some (ok, w2)" "dw_in w2 = dw_in w1"
      using write_all_spec[OF demo_io_ok, of dst bs w1] by blast
    moreover have ok using demo_write_all[of dst bs w1] w2 by simp
    ultimately have "copy_loop demo_posix src dst w2 = Some r"
      using less.prems b bs by (subst (asm) copy_loop.simps) simp
    moreover have "length (dw_in w2 src) < length (dw_in w src)"
      using io_ok_readD(1)[OF demo_io_ok b[unfolded bs(1)]] bs(2) w2(2) by simp
    ultimately show ?thesis using less.hyps by blast
  qed
qed

text \<open>The same system with complete writes and no errors.\<close>

definition full_posix :: "demo_world posix" where
  "full_posix = demo_posix\<lparr>
     px_read := (\<lambda>fd n w. (Some (take (min n 3) (dw_in w fd)), w\<lparr>dw_in := (dw_in w)(fd := drop (min n 3) (dw_in w fd))\<rparr>)),
     px_write := (\<lambda>fd bs w. (Some (length bs), w\<lparr>dw_out := (dw_out w)(fd := dw_out w fd @ bs)\<rparr>))\<rparr>"

lemma full_posix_ok: "io_ok full_posix dw_in dw_out" "full_writes full_posix" "writes_ok full_posix" "reads_ok full_posix fd"
  by (auto simp: io_ok_def full_writes_def writes_ok_def reads_ok_def full_posix_def demo_posix_def min_def split: if_splits)

end
