(* ===== verification/Copy_Tools.thy ===== *)
theory Copy_Tools
  imports Posix
begin

text \<open>
  The utilities that copy files (\<open>custom_cat.c\<close>, \<open>custom_cp.c\<close>, \<open>custom_mv.c\<close>): exit status and effect on
  the world. \<open>None\<close> stands for a run that does not end.
\<close>

section \<open>Programs\<close>

definition cat_dump :: "'w posix \<Rightarrow> bytes \<Rightarrow> 'w \<Rightarrow> (nat \<times> 'w) option" where
  "cat_dump P path w =
     (case px_open P path O_RDONLY 0 w of
        (None, w) \<Rightarrow> Some (1, px_warn P (ascii ''custom_cat: '' @ path) w)
      | (Some fd, w) \<Rightarrow> do {
          (r, w) \<leftarrow> copy_loop P fd 1 w;
          case r of
            Write_error \<Rightarrow> Some (1, px_close P fd (px_warn P (ascii ''custom_cat: write'') w))
          | Read_error \<Rightarrow> Some (0, px_close P fd (px_warn P (ascii ''custom_cat: read'') w))
          | Copied \<Rightarrow> Some (0, px_close P fd w) })"

primrec cat_files :: "'w posix \<Rightarrow> bytes list \<Rightarrow> nat \<Rightarrow> 'w \<Rightarrow> (nat \<times> 'w) option" where
  "cat_files P [] rc w = Some (rc, w)"
| "cat_files P (f # fs) rc w = do { (r, w) \<leftarrow> cat_dump P f w; cat_files P fs (rc OR r) w }"

definition custom_cat :: "'w posix \<Rightarrow> bytes list \<Rightarrow> 'w \<Rightarrow> (nat \<times> 'w) option" where
  "custom_cat P argv w =
     (if length argv < 2 then Some (1, px_eprint P (ascii ''Usage: custom_cat <file> [file ...]'' @ [10]) w)
      else cat_files P (tl argv) 0 w)"

text \<open>The permission bits of the source, \<open>0644\<close> when they cannot be read.\<close>

definition source_mode :: "'w posix \<Rightarrow> nat \<Rightarrow> 'w \<Rightarrow> u32" where
  "source_mode P src w = (case px_fstat P src w of None \<Rightarrow> 0x1A4 | Some m \<Rightarrow> m AND 0x1FF)"

definition quoted :: "string \<Rightarrow> bytes \<Rightarrow> bytes \<Rightarrow> bytes" where
  "quoted verb a b = ascii verb @ ascii '' '' @ [39] @ a @ [39] @ ascii '' -> '' @ [39] @ b @ [39, 10]"

definition custom_cp :: "'w posix \<Rightarrow> bytes list \<Rightarrow> 'w \<Rightarrow> (nat \<times> 'w) option" where
  "custom_cp P argv w =
     (if length argv \<noteq> 3 then Some (1, px_eprint P (ascii ''Usage: custom_cp <source> <destination>'' @ [10]) w)
      else case px_open P (argv ! 1) O_RDONLY 0 w of
        (None, w) \<Rightarrow> Some (1, px_warn P (ascii ''custom_cp: '' @ argv ! 1) w)
      | (Some src, w) \<Rightarrow>
        case px_open P (argv ! 2) (O_WRONLY OR O_CREAT OR O_TRUNC) (source_mode P src w) w of
          (None, w) \<Rightarrow> Some (1, px_close P src (px_warn P (ascii ''custom_cp: '' @ argv ! 2) w))
        | (Some dst, w) \<Rightarrow> do {
            (r, w) \<leftarrow> copy_loop P src dst w;
            if r = Write_error
            then Some (1, px_close P dst (px_close P src (px_warn P (ascii ''custom_cp: write'') w)))
            else let w = (if r = Read_error then px_warn P (ascii ''custom_cp: read'') w else w);
                     w = px_close P dst (px_close P src w)
              in Some (0, px_print P (quoted ''Copied'' (argv ! 1) (argv ! 2)) w) })"

definition copy_then_unlink :: "'w posix \<Rightarrow> bytes \<Rightarrow> bytes \<Rightarrow> 'w \<Rightarrow> (nat \<times> 'w) option" where
  "copy_then_unlink P src_path dst_path w =
     (case px_open P src_path O_RDONLY 0 w of
        (None, w) \<Rightarrow> Some (1, px_warn P src_path w)
      | (Some src, w) \<Rightarrow>
        case px_open P dst_path (O_WRONLY OR O_CREAT OR O_TRUNC) (source_mode P src w) w of
          (None, w) \<Rightarrow> Some (1, px_close P src (px_warn P dst_path w))
        | (Some dst, w) \<Rightarrow> do {
            (r, w) \<leftarrow> copy_loop P src dst w;
            if r = Write_error then Some (1, px_close P dst (px_close P src (px_warn P (ascii ''write'') w)))
            else case px_unlink P src_path (px_close P dst (px_close P src w)) of
                (False, w) \<Rightarrow> Some (1, px_warn P (ascii ''unlink'') w)
              | (True, w) \<Rightarrow> Some (0, w) })"

definition custom_mv :: "'w posix \<Rightarrow> bytes list \<Rightarrow> 'w \<Rightarrow> (nat \<times> 'w) option" where
  "custom_mv P argv w =
     (if length argv \<noteq> 3 then Some (1, px_eprint P (ascii ''Usage: custom_mv <source> <destination>'' @ [10]) w)
      else case px_rename P (argv ! 1) (argv ! 2) w of
        (Renamed, w) \<Rightarrow> Some (0, px_print P (quoted ''Moved'' (argv ! 1) (argv ! 2)) w)
      | (Cross_device, w) \<Rightarrow> do {
          (r, w) \<leftarrow> copy_then_unlink P (argv ! 1) (argv ! 2) w;
          if r = 0 then Some (0, px_print P (quoted ''Moved (cross-device)'' (argv ! 1) (argv ! 2)) w)
          else Some (1, w) }
      | (Rename_failed, w) \<Rightarrow> Some (1, px_warn P (ascii ''custom_mv'') w))"

section \<open>Properties\<close>



text \<open>
  C32. A failed read loses data in \<open>custom_mv\<close>. When the files are on different file systems and the
  first read of the source fails, nothing has been copied, yet the source is removed and the program
  reports success.
\<close>

theorem custom_mv_read_error:
  assumes io: "io_ok P rest out" and args: "length argv = 3"
    and x: "px_rename P (argv ! 1) (argv ! 2) w = (Cross_device, w0)"
    and s: "px_open P (argv ! 1) O_RDONLY 0 w0 = (Some src, w1)"
    and d: "px_open P (argv ! 2) (O_WRONLY OR O_CREAT OR O_TRUNC) (source_mode P src w1) w1 = (Some dst, w2)"
    and e: "px_read P src 4096 w2 = (None, w3)"
    and u: "px_unlink P (argv ! 1) (px_close P dst (px_close P src w3)) = (True, w4)"
  shows "out w3 dst = out w2 dst \<and>
    custom_mv P argv w = Some (0, px_print P (quoted ''Moved (cross-device)'' (argv ! 1) (argv ! 2)) w4)"
proof -
  have "copy_loop P src dst w2 = Some (Read_error, w3)" using e by (subst copy_loop.simps) simp
  then show ?thesis
    using args x s d u io_ok_read_errorD[OF io e] by (simp add: custom_mv_def copy_then_unlink_def)
qed

theorem custom_mv_read_error_witness:
  "\<exists>w'. custom_mv demo_posix [[], ascii ''a'', ascii ''b''] (demo_world\<lparr>dw_fail := True\<rparr>) = Some (0, w') \<and>
     dw_out w' 4 = [] \<and> dw_gone w' = [ascii ''a'']"
proof -
  let ?argv = "[[], ascii ''a'', ascii ''b'']" and ?w = "demo_world\<lparr>dw_fail := True\<rparr>"
  have ab: "ascii ''a'' \<noteq> ascii ''b''" by (simp add: ascii_def)
  let ?w4 = "?w\<lparr>dw_gone := [ascii ''a'']\<rparr>"
  have "custom_mv demo_posix ?argv ?w = Some (0, px_print demo_posix (quoted ''Moved (cross-device)'' (?argv ! 1) (?argv ! 2)) ?w4)"
    by (rule conjunct2[OF custom_mv_read_error[OF demo_io_ok, where ?w0.0 = ?w and ?w1.0 = ?w and ?w2.0 = ?w and src = 3 and dst = 4 and ?w3.0 = ?w]])
      (use ab in \<open>simp_all add: demo_posix_def demo_world_def\<close>)
  then show ?thesis by (simp add: demo_posix_def demo_world_def)
qed

end
