(* ===== verification/Libc.thy ===== *)
theory Libc
  imports Posix
begin

text \<open>
  The functions of the C library the utilities call: character classes, string comparison and search,
  number conversion in both directions, and line input. Strings are byte lists without their
  terminating NUL; a buffer becomes a string by cutting it at the first NUL.
\<close>

definition isspace :: "u8 \<Rightarrow> bool" where
  "isspace c \<longleftrightarrow> c = 32 \<or> (9 \<le> c \<and> c \<le> 13)"

definition cut :: "bytes \<Rightarrow> bytes" where
  "cut b = takeWhile (\<lambda>c. c \<noteq> 0) b"

lemma cut_id: "0 \<notin> set b \<Longrightarrow> cut b = b"
  unfolding cut_def by (induction b) auto

text \<open>\<open>strcmp\<close> on unsigned characters; only the sign of the result is used.\<close>

fun strcmp :: "bytes \<Rightarrow> bytes \<Rightarrow> int" where
  "strcmp [] [] = 0"
| "strcmp [] (y # ys) = - 1"
| "strcmp (x # xs) [] = 1"
| "strcmp (x # xs) (y # ys) = (if x = y then strcmp xs ys else if x < y then - 1 else 1)"

lemma strcmp_antisym: "strcmp b a = - strcmp a b"
  by (induction a b rule: strcmp.induct) auto

lemma strcmp_eq_iff: "strcmp a b = 0 \<longleftrightarrow> a = b"
  by (induction a b rule: strcmp.induct) auto

lemma strcmp_trans: "strcmp a b \<le> 0 \<Longrightarrow> strcmp b c \<le> 0 \<Longrightarrow> strcmp a c \<le> 0"
proof (induction a b arbitrary: c rule: strcmp.induct)
  case (4 x xs y ys)
  then show ?case by (cases c) (auto split: if_splits)
qed (case_tac c; auto split: if_splits)+

text \<open>Whether the second string occurs in the first (\<open>strstr\<close> is not NULL).\<close>

fun strstr :: "bytes \<Rightarrow> bytes \<Rightarrow> bool" where
  "strstr hay pat = (take (length pat) hay = pat \<or> (case hay of [] \<Rightarrow> False | _ # hay \<Rightarrow> strstr hay pat))"

declare strstr.simps [simp del]

lemma strstr_iff: "strstr hay pat \<longleftrightarrow> (\<exists>pre post. hay = pre @ pat @ post)"
proof (induction hay)
  case Nil
  then show ?case by (subst strstr.simps) auto
next
  case (Cons c hay)
  have "take (length pat) (c # hay) = pat \<longleftrightarrow> (\<exists>post. c # hay = pat @ post)"
    by (metis append_eq_conv_conj)
  then show ?case
    using Cons by (subst strstr.simps) (auto simp: Cons_eq_append_conv)
qed

section \<open>Numbers\<close>

text \<open>
  \<open>strtol\<close> for the bases 8 and 10: the value, clamped to the range of \<open>long\<close>, whether it was out of
  range, and the rest of the string. Without digits the value is 0 and the rest is the whole string.
\<close>

definition digit_val :: "int \<Rightarrow> u8 \<Rightarrow> int option" where
  "digit_val base c = (if 48 \<le> c \<and> uint c < 48 + base \<and> c \<le> 57 then Some (uint c - 48) else None)"

fun digits_val :: "int \<Rightarrow> int \<Rightarrow> bytes \<Rightarrow> int \<times> bytes" where
  "digits_val base acc [] = (acc, [])"
| "digits_val base acc (c # s) =
     (case digit_val base c of None \<Rightarrow> (acc, c # s) | Some d \<Rightarrow> digits_val base (acc * base + d) s)"

definition strtol :: "int \<Rightarrow> bytes \<Rightarrow> int \<times> bool \<times> bytes" where
  "strtol base s =
     (let t = dropWhile isspace s;
          (neg, u) = (case t of [] \<Rightarrow> (False, t)
            | c # r \<Rightarrow> if c = chr CHR ''-'' then (True, r) else if c = chr CHR ''+'' then (False, r) else (False, t));
          (v, rest) = digits_val base 0 u;
          x = (if neg then - v else v)
      in if length rest = length u then (0, False, s)
         else if x > 2 ^ 63 - 1 then (2 ^ 63 - 1, True, rest)
         else if x < - (2 ^ 63) then (- (2 ^ 63), True, rest)
         else (x, False, rest))"

text \<open>\<open>atoi\<close> is \<open>(int) strtol(s, NULL, 10)\<close>.\<close>

definition libc_atoi :: "bytes \<Rightarrow> int" where
  "libc_atoi s = sint (word_of_int (fst (strtol 10 s)) :: u32)"

text \<open>The digits of a number, without leading zeros.\<close>

function numeral_bytes :: "nat \<Rightarrow> nat \<Rightarrow> bytes" where
  "numeral_bytes base n =
     (if base < 2 then [] else (if n < base then [] else numeral_bytes base (n div base)) @ [of_nat (48 + n mod base)])"
  by pat_completeness auto
termination by (relation "measure snd") auto

declare numeral_bytes.simps [simp del]

abbreviation decimal :: "nat \<Rightarrow> bytes" where "decimal \<equiv> numeral_bytes 10"

section \<open>Lines\<close>

text \<open>The lines of a text, each with its newline; the last one may lack it.\<close>

fun lines_of :: "bytes \<Rightarrow> bytes list" where
  "lines_of [] = []"
| "lines_of (c # s) =
     (if c = 10 then [c] # lines_of s
      else case lines_of s of [] \<Rightarrow> [[c]] | l # ls \<Rightarrow> if s = [] then [c] # l # ls else (c # l) # ls)"

text \<open>Pieces of a text as \<open>fgets\<close> returns them: up to a newline or to \<open>k\<close> bytes.\<close>

fun pieces :: "nat \<Rightarrow> bytes \<Rightarrow> bytes \<Rightarrow> bytes list" where
  "pieces k acc [] = (if acc = [] then [] else [acc])"
| "pieces k acc (c # s) =
     (if c = 10 \<or> length acc + 1 = k then (acc @ [c]) # pieces k [] s else pieces k (acc @ [c]) s)"

lemma concat_lines_of: "concat (lines_of s) = s"
  by (induction s) (auto split: list.splits)

lemma concat_pieces: "concat (pieces k acc s) = acc @ s"
  by (induction k acc s rule: pieces.induct) auto

text \<open>If no line is too long, the pieces are the lines.\<close>

lemma lines_of_Nil_iff [simp]: "lines_of s = [] \<longleftrightarrow> s = []"
  by (cases s) (auto split: list.splits)

definition glue :: "bytes \<Rightarrow> bytes list \<Rightarrow> bytes list" where
  "glue acc ls = (case ls of [] \<Rightarrow> if acc = [] then [] else [acc] | l # ls \<Rightarrow> (acc @ l) # ls)"

lemma glue_Nil [simp]: "glue [] ls = ls"
  by (simp add: glue_def split: list.splits)

lemma lines_of_Cons: "lines_of (c # s) = (if c = 10 then [c] # lines_of s else glue [c] (lines_of s))"
  by (auto simp: glue_def split: list.splits)

lemma glue_glue: "glue a (glue b ls) = glue (a @ b) ls"
  by (simp add: glue_def split: list.splits)

lemma pieces_eq_lines:
  "\<forall>l \<in> set (glue acc (lines_of s)). length l < k \<Longrightarrow> pieces k acc s = glue acc (lines_of s)"
proof (induction k acc s rule: pieces.induct)
  case (1 k acc)
  then show ?case by (simp add: glue_def)
next
  case (2 k acc c s)
  have g: "glue acc (lines_of (c # s)) = (if c = 10 then (acc @ [c]) # lines_of s else glue (acc @ [c]) (lines_of s))"
    unfolding lines_of_Cons by (simp add: glue_glue) (simp add: glue_def)
  show ?case
  proof (cases "c = 10")
    case True
    then show ?thesis using 2(1) 2(3) unfolding g by simp
  next
    case False
    then have "length acc + 1 \<noteq> k" using 2(3) unfolding g by (auto simp: glue_def split: list.splits if_splits)
    then show ?thesis using 2(2) 2(3) False unfolding g by simp
  qed
qed

end
