(* ===== verification/Line_Tools.thy ===== *)
theory Line_Tools
  imports Libc
begin

text \<open>
  The utilities that work on lines (\<open>custom_wc.c\<close>, \<open>custom_grep.c\<close>, \<open>custom_head.c\<close>, \<open>custom_tail.c\<close>),
  each with a reference definition of what it should print. Counters that grow with the file are
  natural numbers.
\<close>

section \<open>wc\<close>

record wc_state =
  wc_lines :: nat
  wc_words :: nat
  wc_chars :: nat
  in_word :: bool

definition wc_char :: "u8 \<Rightarrow> wc_state \<Rightarrow> wc_state" where
  "wc_char c s =
     (let s = s\<lparr>wc_chars := wc_chars s + 1\<rparr>;
          s = (if c = 10 then s\<lparr>wc_lines := wc_lines s + 1\<rparr> else s)
      in if isspace c then s\<lparr>in_word := False\<rparr>
         else if \<not> in_word s then s\<lparr>in_word := True, wc_words := wc_words s + 1\<rparr>
         else s)"

definition wc_count :: "bytes \<Rightarrow> wc_state" where
  "wc_count bs = fold wc_char bs \<lparr>wc_lines = 0, wc_words = 0, wc_chars = 0, in_word = False\<rparr>"

definition custom_wc :: "'w posix \<Rightarrow> bytes list \<Rightarrow> 'w \<Rightarrow> nat \<times> 'w" where
  "custom_wc P argv w =
     (if length argv \<noteq> 2 then (1, px_eprint P (ascii ''Usage: custom_wc <file>'' @ [10]) w)
      else case px_fopen P (argv ! 1) w of
        (None, w) \<Rightarrow> (1, px_warn P (ascii ''custom_wc: '' @ argv ! 1) w)
      | (Some bs, w) \<Rightarrow>
        let c = wc_count bs; w = px_fclose P (argv ! 1) w
        in (0, px_print P (ascii ''  '' @ decimal (wc_lines c) @ [32] @ decimal (wc_words c) @ [32] @
                 decimal (wc_chars c) @ [32] @ argv ! 1 @ [10]) w))"

section \<open>grep\<close>

text \<open>The loop over the lines \<open>fgets\<close> returns: the output and the number of matches.\<close>

fun grep_loop :: "bytes \<Rightarrow> nat \<Rightarrow> bytes list \<Rightarrow> bytes \<times> nat" where
  "grep_loop pat lineno [] = ([], 0)"
| "grep_loop pat lineno (l # ls) =
     (let lineno = lineno + 1; (r, m) = grep_loop pat lineno ls; line = cut l
      in if strstr line pat then (decimal lineno @ ascii '': '' @ line @ r, m + 1) else (r, m))"

definition custom_grep :: "'w posix \<Rightarrow> bytes list \<Rightarrow> 'w \<Rightarrow> nat \<times> 'w" where
  "custom_grep P argv w =
     (if length argv \<noteq> 3 then (1, px_eprint P (ascii ''Usage: custom_grep <pattern> <file>'' @ [10]) w)
      else case px_fopen P (argv ! 2) w of
        (None, w) \<Rightarrow> (1, px_warn P (ascii ''custom_grep: '' @ argv ! 2) w)
      | (Some bs, w) \<Rightarrow>
        let (r, m) = grep_loop (argv ! 1) 0 (pieces 4095 [] bs)
        in (if m > 0 then 0 else 1, px_fclose P (argv ! 2) (px_print P r w)))"

section \<open>head\<close>

text \<open>The loop over one chunk; \<open>write\<close> is called for its effect only.\<close>

fun head_chunk :: "'w posix \<Rightarrow> int \<Rightarrow> bytes \<Rightarrow> int \<Rightarrow> bytes \<Rightarrow> 'w \<Rightarrow> int \<times> bytes \<times> 'w" where
  "head_chunk P n [] printed pb w = (printed, pb, w)"
| "head_chunk P n (c # cs) printed pb w =
     (if printed < n then
        let pb = pb @ [c];
            (pb, printed, w) = (if c = 10 then ([], printed + 1, snd (px_write P 1 pb w)) else (pb, printed, w));
            (pb, w) = (if length pb = 4095 then ([], snd (px_write P 1 pb w)) else (pb, w))
        in head_chunk P n cs printed pb w
      else (printed, pb, w))"

text \<open>The outer loop; \<open>None\<close> for the buffer stands for a read error.\<close>

partial_function (option) head_loop :: "'w posix \<Rightarrow> nat \<Rightarrow> int \<Rightarrow> int \<Rightarrow> bytes \<Rightarrow> 'w \<Rightarrow> (bytes option \<times> 'w) option" where
  "head_loop P fd n printed pb w =
     (if printed < n then
        case px_read P fd 4096 w of
          (None, w) \<Rightarrow> Some (None, w)
        | (Some bs, w) \<Rightarrow>
          if bs = [] then Some (Some pb, w)
          else case head_chunk P n bs printed pb w of (printed, pb, w) \<Rightarrow> head_loop P fd n printed pb w
      else Some (Some pb, w))"

definition head_file :: "'w posix \<Rightarrow> bytes \<Rightarrow> int \<Rightarrow> 'w \<Rightarrow> (nat \<times> 'w) option" where
  "head_file P path n w =
     (case px_open P path O_RDONLY 0 w of
        (None, w) \<Rightarrow> Some (1, px_warn P (ascii ''custom_head: '' @ path) w)
      | (Some fd, w) \<Rightarrow> do {
          (r, w) \<leftarrow> head_loop P fd n 0 [] w;
          case r of
            None \<Rightarrow> Some (1, px_close P fd (px_warn P (ascii ''custom_head: read'') w))
          | Some pb \<Rightarrow> Some (0, px_close P fd (if length pb > 0 then snd (px_write P 1 pb w) else w)) })"

text \<open>The options: the path and the number of lines, or the message of an error.\<close>

fun head_args :: "bytes list \<Rightarrow> bytes option \<Rightarrow> int \<Rightarrow> bytes + bytes option \<times> int" where
  "head_args [] path n = Inr (path, n)"
| "head_args (a # as) path n =
     (if a = ascii ''-n'' then
        (case as of
           [] \<Rightarrow> Inl (ascii ''custom_head: option -n requires an argument'')
         | v # as \<Rightarrow>
           if libc_atoi v \<le> 0 then Inl (ascii ''custom_head: invalid line count '' @ [39] @ v @ [39])
           else head_args as path (libc_atoi v))
      else head_args as (Some a) n)"

definition custom_head :: "'w posix \<Rightarrow> bytes list \<Rightarrow> 'w \<Rightarrow> (nat \<times> 'w) option" where
  "custom_head P argv w =
     (case head_args (tl argv) None 10 of
        Inl m \<Rightarrow> Some (1, px_eprint P (m @ [10]) w)
      | Inr (None, n) \<Rightarrow> Some (1, px_eprint P (ascii ''Usage: custom_head [-n N] <file>'' @ [10]) w)
      | Inr (Some path, n) \<Rightarrow> head_file P path n w)"

section \<open>tail\<close>

text \<open>The circular buffer of lines, the line being read and the number of lines seen.\<close>

record tail_state =
  circ :: "bytes option list"
  temp_line :: bytes
  tcount :: nat

definition tail_store :: "tail_state \<Rightarrow> tail_state" where
  "tail_store s =
     s\<lparr>circ := (circ s)[tcount s mod length (circ s) := Some (cut (temp_line s))], temp_line := [], tcount := tcount s + 1\<rparr>"

definition tail_char :: "u8 \<Rightarrow> tail_state \<Rightarrow> tail_state" where
  "tail_char c s =
     (let s = s\<lparr>temp_line := temp_line s @ [c]\<rparr>
      in if c = 10 \<or> length (temp_line s) = 4095 then tail_store s else s)"

partial_function (option) tail_loop :: "'w posix \<Rightarrow> nat \<Rightarrow> tail_state \<Rightarrow> 'w \<Rightarrow> (bool \<times> tail_state \<times> 'w) option" where
  "tail_loop P fd s w =
     (case px_read P fd 4096 w of
        (None, w) \<Rightarrow> Some (True, s, w)
      | (Some bs, w) \<Rightarrow> if bs = [] then Some (False, s, w) else tail_loop P fd (fold tail_char bs s) w)"

text \<open>The lines kept, oldest first.\<close>

definition tail_kept :: "tail_state \<Rightarrow> bytes option list" where
  "tail_kept s =
     (let keep = length (circ s);
          start = (if tcount s > keep then tcount s mod keep else 0);
          limit = (if tcount s > keep then keep else tcount s)
      in map (\<lambda>i. circ s ! ((start + i) mod keep)) [0..<limit])"

text \<open>A failed write ends the output of that line only.\<close>

primrec tail_print :: "'w posix \<Rightarrow> bytes option list \<Rightarrow> 'w \<Rightarrow> 'w option" where
  "tail_print P [] w = Some w"
| "tail_print P (l # ls) w =
     (case l of None \<Rightarrow> tail_print P ls w | Some b \<Rightarrow> do { (_, w) \<leftarrow> write_all P 1 b w; tail_print P ls w })"

definition dump_tail :: "'w posix \<Rightarrow> bytes \<Rightarrow> nat \<Rightarrow> 'w \<Rightarrow> (nat \<times> 'w) option" where
  "dump_tail P path keep w =
     (case px_open P path O_RDONLY 0 w of
        (None, w) \<Rightarrow> Some (1, px_warn P (ascii ''custom_tail: '' @ path) w)
      | (Some fd, w) \<Rightarrow> do {
          (err, s, w) \<leftarrow> tail_loop P fd \<lparr>circ = replicate keep None, temp_line = [], tcount = 0\<rparr> w;
          let w = (if err then px_warn P (ascii ''custom_tail: read'') w else w);
          let s = (if length (temp_line s) > 0 then tail_store s else s);
          w \<leftarrow> tail_print P (tail_kept s) w;
          Some (0, px_close P fd w) })"

definition custom_tail :: "'w posix \<Rightarrow> bytes list \<Rightarrow> 'w \<Rightarrow> (nat \<times> 'w) option" where
  "custom_tail P argv w =
     (if length argv < 2 \<or> argv ! 1 = ascii ''-n'' \<and> length argv < 4
      then Some (1, px_eprint P (ascii ''Usage: custom_tail [-n N] <file>'' @ [10]) w)
      else if argv ! 1 = ascii ''-n''
      then let n = libc_atoi (argv ! 2) in dump_tail P (argv ! 3) (nat (if n \<le> 0 then 10 else n)) w
      else dump_tail P (argv ! 1) 10 w)"

section \<open>Reference definitions\<close>

text \<open>The positions at which a word starts.\<close>

definition word_starts :: "bytes \<Rightarrow> nat set" where
  "word_starts bs = {i. i < length bs \<and> \<not> isspace (bs ! i) \<and> (i = 0 \<or> isspace (bs ! (i - 1)))}"

lemma word_starts_snoc:
  "word_starts (bs @ [c]) =
     (if \<not> isspace c \<and> (bs = [] \<or> isspace (last bs)) then insert (length bs) (word_starts bs) else word_starts bs)"
proof -
  have "i \<in> word_starts (bs @ [c]) \<longleftrightarrow>
      i \<in> word_starts bs \<or> i = length bs \<and> \<not> isspace c \<and> (bs = [] \<or> isspace (last bs))" for i
    by (cases "bs = []"; cases "i = length bs") (auto simp: word_starts_def nth_append last_conv_nth)
  then show ?thesis by auto
qed

lemma finite_word_starts [simp]: "finite (word_starts bs)"
  by (simp add: word_starts_def)

lemma word_starts_fresh [simp]: "length bs \<notin> word_starts bs"
  by (simp add: word_starts_def)

lemma wc_count_spec:
  "wc_count bs = \<lparr>wc_lines = count_list bs 10, wc_words = card (word_starts bs), wc_chars = length bs,
     in_word = (bs \<noteq> [] \<and> \<not> isspace (last bs))\<rparr>"
proof (induction bs rule: rev_induct)
  case Nil
  then show ?case by (simp add: wc_count_def word_starts_def)
next
  case (snoc c bs)
  have "wc_count (bs @ [c]) = wc_char c (wc_count bs)" by (simp add: wc_count_def)
  then show ?case using snoc by (simp add: wc_char_def Let_def word_starts_snoc count_list_append)
qed

text \<open>The beginning of a text up to its \<open>n\<close>th newline.\<close>

fun first_lines :: "nat \<Rightarrow> bytes \<Rightarrow> bytes" where
  "first_lines 0 s = []"
| "first_lines (Suc n) [] = []"
| "first_lines (Suc n) (c # s) = c # first_lines (if c = 10 then n else Suc n) s"

lemma first_lines_Nil [simp]: "first_lines n [] = []"
  by (cases n) auto

lemma first_lines_append:
  "first_lines n (a @ b) = first_lines n a @ first_lines (n - count_list (first_lines n a) 10) b"
  by (induction n a rule: first_lines.induct) auto

lemma first_lines_all: "count_list (first_lines n s) 10 < n \<Longrightarrow> first_lines n s = s"
  by (induction n s rule: first_lines.induct) (auto split: if_splits)

lemma grep_loop_spec:
  "grep_loop pat k ls =
     (concat (map (\<lambda>(i, l). decimal i @ ascii '': '' @ cut l) (filter (\<lambda>(i, l). strstr (cut l) pat) (enumerate (k + 1) ls))),
      length (filter (\<lambda>l. strstr (cut l) pat) ls))"
  by (induction pat k ls rule: grep_loop.induct) (auto simp: Let_def)

section \<open>head\<close>

lemma head_chunk_Cons:
  assumes "io_ok P rest out" "full_writes P" "p < n"
  shows "\<exists>pb1 w1. head_chunk P n (c # cs) p pb w = head_chunk P n cs (if c = 10 then p + 1 else p) pb1 w1 \<and>
    rest w1 = rest w \<and> out w1 1 @ pb1 = out w 1 @ pb @ [c]"
proof -
  let ?w = "snd (px_write P 1 (pb @ [c]) w)"
  note f = full_write[OF assms(1,2), of 1 "pb @ [c]" w]
  consider "c = 10" | "c \<noteq> 10" "length pb + 1 = 4095" | "c \<noteq> 10" "length pb + 1 \<noteq> 4095" by blast
  then show ?thesis
  proof cases
    case 1
    then show ?thesis using assms(3) f by (intro exI[of _ "[]"] exI[of _ ?w]) simp
  next
    case 2
    then show ?thesis using assms(3) f by (intro exI[of _ "[]"] exI[of _ ?w]) simp
  next
    case 3
    then show ?thesis using assms(3) by (intro exI[of _ "pb @ [c]"] exI[of _ w]) simp
  qed
qed

lemma head_chunk_spec:
  assumes "io_ok P rest out" "full_writes P"
  shows "head_chunk P n bs p pb w = (p', pb', w') \<Longrightarrow>
    rest w' = rest w \<and> out w' 1 @ pb' = out w 1 @ pb @ first_lines (nat (n - p)) bs \<and>
    p' = p + int (count_list (first_lines (nat (n - p)) bs) 10)"
proof (induction bs arbitrary: p pb w)
  case (Cons c cs)
  show ?case
  proof (cases "p < n")
    case True
    define m where "m = nat (n - p) - 1"
    have m: "nat (n - p) = Suc m" "nat (n - (p + 1)) = m" using True by (auto simp: m_def)
    obtain pb1 w1 where 1: "head_chunk P n (c # cs) p pb w = head_chunk P n cs (if c = 10 then p + 1 else p) pb1 w1"
      "rest w1 = rest w" "out w1 1 @ pb1 = out w 1 @ pb @ [c]" using head_chunk_Cons[OF assms True] by blast
    have "head_chunk P n cs (if c = 10 then p + 1 else p) pb1 w1 = (p', pb', w')" using 1(1) Cons.prems by simp
    from Cons.IH[OF this] show ?thesis
      using 1(2,3) m by (cases "c = 10") (simp_all flip: append_assoc)
  qed (use Cons.prems in auto)
qed auto

lemma head_loop_spec:
  assumes "io_ok P rest out" "full_writes P" "reads_ok P fd"
  shows "\<exists>pb' w'. head_loop P fd n p pb w = Some (Some pb', w') \<and>
    out w' 1 @ pb' = out w 1 @ pb @ first_lines (nat (n - p)) (rest w fd)"
proof (induction "length (rest w fd)" arbitrary: p pb w rule: less_induct)
  case less
  show ?case
  proof (cases "p < n")
    case False
    then show ?thesis by (subst head_loop.simps) simp
  next
    case True
    obtain bs w1 where b: "px_read P fd 4096 w = (Some bs, w1)" using reads_okD[OF assms(3)] by blast
    note d = io_ok_readD[OF assms(1) b]
    show ?thesis
    proof (cases "bs = []")
      case bs: True
      then have "head_loop P fd n p pb w = Some (Some pb, w1)" using True b by (subst head_loop.simps) simp
      then show ?thesis using d(3,5) bs by simp
    next
      case False
      obtain p2 pb2 w2 where c: "head_chunk P n bs p pb w1 = (p2, pb2, w2)" by (cases "head_chunk P n bs p pb w1")
      note h = head_chunk_spec[OF assms(1,2) c]
      have rest: "rest w fd = bs @ rest w2 fd" using h d(1) by simp
      have "head_loop P fd n p pb w = head_loop P fd n p2 pb2 w2"
        using True b False c by (subst head_loop.simps) simp
      moreover obtain pb' w' where "head_loop P fd n p2 pb2 w2 = Some (Some pb', w')"
        "out w' 1 @ pb' = out w2 1 @ pb2 @ first_lines (nat (n - p2)) (rest w2 fd)"
        using less[of w2 p2 pb2] rest False by auto
      moreover have "nat (n - p2) = nat (n - p) - count_list (first_lines (nat (n - p)) bs) 10" using h by linarith
      ultimately show ?thesis
        using h rest d(3) first_lines_append[of "nat (n - p)" bs "rest w2 fd"] by (metis append.assoc)
    qed
  qed
qed

section \<open>tail\<close>

definition tail_inv :: "bytes list \<Rightarrow> tail_state \<Rightarrow> bool" where
  "tail_inv segs s \<longleftrightarrow> circ s \<noteq> [] \<and> tcount s = length segs \<and>
     (\<forall>j < length segs. length segs \<le> j + length (circ s) \<longrightarrow> circ s ! (j mod length (circ s)) = Some (cut (segs ! j)))"

lemma mod_distinct:
  fixes j m k :: nat
  assumes "j < m" "m < j + k"
  shows "j mod k \<noteq> m mod k"
proof
  assume "j mod k = m mod k"
  then have "k dvd m - j" using assms(1) mod_eq_dvd_iff_nat[of j m k] by simp
  then show False using assms by (auto dest: dvd_imp_le)
qed

lemma tail_store_inv:
  assumes "tail_inv segs s"
  shows "tail_inv (segs @ [temp_line s]) (tail_store s)" "temp_line (tail_store s) = []"
    "length (circ (tail_store s)) = length (circ s)"
proof -
  let ?k = "length (circ s)"
  have s: "tcount s = length segs" "?k > 0" using assms by (auto simp: tail_inv_def)
  have "circ (tail_store s) ! (j mod ?k) = Some (cut ((segs @ [temp_line s]) ! j))"
    if "j < length segs + 1" "length segs + 1 \<le> j + ?k" for j
  proof (cases "j = length segs")
    case True
    then show ?thesis using s by (simp add: tail_store_def)
  next
    case False
    then have "j mod ?k \<noteq> length segs mod ?k" using that by (intro mod_distinct) auto
    then show ?thesis using False that s assms by (auto simp: tail_store_def tail_inv_def nth_append)
  qed
  then show "tail_inv (segs @ [temp_line s]) (tail_store s)" using s by (auto simp: tail_inv_def tail_store_def)
qed (simp_all add: tail_store_def)

lemma tail_char_inv:
  assumes "tail_inv segs s" "temp_line s = acc"
  shows "\<exists>segs' acc'. (\<forall>rest. pieces 4095 acc (bs @ rest) = segs' @ pieces 4095 acc' rest) \<and>
    tail_inv (segs @ segs') (fold tail_char bs s) \<and> temp_line (fold tail_char bs s) = acc' \<and>
    length (circ (fold tail_char bs s)) = length (circ s)"
  using assms
proof (induction bs arbitrary: segs s acc)
  case Nil
  then show ?case by (intro exI[of _ "[]"] exI[of _ acc]) simp
next
  case (Cons c bs)
  let ?t = "s\<lparr>temp_line := acc @ [c]\<rparr>"
  have t: "tail_inv segs ?t" using Cons.prems by (simp add: tail_inv_def)
  show ?case
  proof (cases "c = 10 \<or> length acc + 1 = 4095")
    case True
    then have e: "tail_char c s = tail_store ?t" using Cons.prems by (auto simp: tail_char_def)
    obtain segs' acc' where "\<forall>rest. pieces 4095 [] (bs @ rest) = segs' @ pieces 4095 acc' rest"
      "tail_inv ((segs @ [acc @ [c]]) @ segs') (fold tail_char bs (tail_store ?t))"
      "temp_line (fold tail_char bs (tail_store ?t)) = acc'"
      "length (circ (fold tail_char bs (tail_store ?t))) = length (circ (tail_store ?t))"
      using Cons.IH[of "segs @ [acc @ [c]]" "tail_store ?t" "[]"] tail_store_inv[OF t] by auto
    then show ?thesis using True e by (intro exI[of _ "(acc @ [c]) # segs'"] exI[of _ acc']) (auto simp: tail_store_def)
  next
    case False
    then have e: "tail_char c s = ?t" using Cons.prems by (auto simp: tail_char_def)
    then show ?thesis using Cons.IH[OF t, of "acc @ [c]"] False by auto
  qed
qed

lemma tail_loop_spec:
  assumes "io_ok P rest out" "reads_ok P fd"
  shows "tail_inv segs s \<Longrightarrow> \<exists>segs' s' w'. tail_loop P fd s w = Some (False, s', w') \<and> out w' = out w \<and>
    tail_inv (segs @ segs') s' \<and> length (circ s') = length (circ s) \<and>
    pieces 4095 (temp_line s) (rest w fd) = segs' @ (if temp_line s' = [] then [] else [temp_line s'])"
proof (induction "length (rest w fd)" arbitrary: segs s w rule: less_induct)
  case less
  obtain bs w1 where b: "px_read P fd 4096 w = (Some bs, w1)" using reads_okD[OF assms(2)] by blast
  note d = io_ok_readD[OF assms(1) b]
  show ?case
  proof (cases "bs = []")
    case True
    then have "tail_loop P fd s w = Some (False, s, w1)" using b by (subst tail_loop.simps) simp
    then show ?thesis using d(3,5) True less.prems by (intro exI[of _ "[]"] exI[of _ s] exI[of _ w1]) simp
  next
    case False
    let ?t = "fold tail_char bs s"
    obtain segs1 acc where 1: "\<forall>r. pieces 4095 (temp_line s) (bs @ r) = segs1 @ pieces 4095 acc r"
      "tail_inv (segs @ segs1) ?t" "temp_line ?t = acc" "length (circ ?t) = length (circ s)"
      using tail_char_inv[OF less.prems refl] by blast
    have e: "tail_loop P fd s w = tail_loop P fd ?t w1" using b False by (subst tail_loop.simps) simp
    obtain segs' s' w' where "tail_loop P fd ?t w1 = Some (False, s', w')" "out w' = out w1"
      "tail_inv ((segs @ segs1) @ segs') s'" "length (circ s') = length (circ ?t)"
      "pieces 4095 (temp_line ?t) (rest w1 fd) = segs' @ (if temp_line s' = [] then [] else [temp_line s'])"
      using less.hyps[OF _ 1(2), of w1] d(1) False by auto
    then show ?thesis using e 1 d(1,3) by (intro exI[of _ "segs1 @ segs'"] exI[of _ s'] exI[of _ w']) simp
  qed
qed

lemma tail_kept_spec:
  assumes "tail_inv segs s"
  shows "tail_kept s = map (\<lambda>l. Some (cut l)) (drop (length segs - length (circ s)) segs)"
proof -
  let ?k = "length (circ s)"
  have s: "tcount s = length segs" "?k > 0" using assms by (auto simp: tail_inv_def)
  have at: "circ s ! (j mod ?k) = Some (cut (segs ! j))" if "j < length segs" "length segs \<le> j + ?k" for j
    using assms that by (simp add: tail_inv_def)
  show ?thesis
  proof (cases "length segs > ?k")
    case True
    have "circ s ! ((length segs mod ?k + i) mod ?k) = Some (cut (segs ! (length segs - ?k + i)))" if "i < ?k" for i
    proof -
      have "(length segs mod ?k + i) mod ?k = (length segs - ?k + i) mod ?k"
      proof -
        have "length segs + i = length segs - ?k + i + ?k" using True by simp
        then show ?thesis by (metis mod_add_left_eq mod_add_self2)
      qed
      then show ?thesis using at[of "length segs - ?k + i"] True that by simp
    qed
    then show ?thesis using True s by (auto simp: tail_kept_def Let_def intro!: nth_equalityI)
  next
    case False
    then show ?thesis using s at by (auto simp: tail_kept_def Let_def intro!: nth_equalityI)
  qed
qed

lemma tail_print_spec:
  assumes "io_ok P rest out" "writes_ok P"
  shows "\<exists>w'. tail_print P (map Some ls) w = Some w' \<and> out w' 1 = out w 1 @ concat ls"
proof (induction ls arbitrary: w)
  case (Cons l ls)
  obtain w1 where "write_all P 1 l w = Some (True, w1)" "out w1 = (out w)(1 := out w 1 @ l)"
    using write_all_ok[OF assms] by blast
  then show ?case using Cons.IH[of w1] by auto
qed simp

section \<open>Properties\<close>

text \<open>
  C34. The state machine of \<open>custom_wc\<close> agrees with the definition of its three counts: it prints the number
  of newlines, the number of positions at which a word starts, and the number of bytes.
\<close>

theorem custom_wc_counts:
  assumes "length argv = 2" "px_fopen P (argv ! 1) w = (Some bs, w1)"
  shows "custom_wc P argv w =
    (0, px_print P (ascii ''  '' @ decimal (count_list bs 10) @ [32] @ decimal (card (word_starts bs)) @ [32] @
      decimal (length bs) @ [32] @ argv ! 1 @ [10]) (px_fclose P (argv ! 1) w1))"
  using assms by (simp add: custom_wc_def wc_count_spec Let_def)

theorem custom_wc_counts_witness:
  "\<exists>w'. custom_wc demo_posix [[], ascii ''a''] (demo_world\<lparr>dw_in := (\<lambda>_. [97, 32, 98, 10])\<rparr>) = (0, w') \<and>
     dw_stdout w' = ascii ''  1 2 4 a'' @ [10]"
proof -
  let ?bs = "[97, 32, 98, 10] :: bytes" and ?argv = "[[], ascii ''a'']"
  let ?w = "demo_world\<lparr>dw_in := (\<lambda>_. ?bs)\<rparr>"
  have o: "px_fopen demo_posix (?argv ! 1) ?w = (Some ?bs, ?w)" by (simp add: demo_posix_def)
  have "word_starts ?bs = {0, 2}"
    unfolding word_starts_def by (auto simp: isspace_def nth_Cons' split: if_splits)
  then have c: "card (word_starts ?bs) = 2" by simp
  have "decimal (Suc 0) = [49]" "decimal 2 = [50]" "decimal (Suc (Suc (Suc (Suc 0)))) = [52]"
    by (simp_all add: numeral_bytes.simps)
  then show ?thesis
    using custom_wc_counts[OF _ o] c by (simp add: demo_posix_def demo_world_def ascii_def)
qed





text \<open>A small text of three lines, the last one without a newline.\<close>

definition demo_text :: demo_world where
  "demo_text = demo_world\<lparr>dw_in := (\<lambda>_. [])(3 := [97, 10, 98, 10, 99])\<rparr>"

lemma full_posix_open: "px_open full_posix (ascii ''a'') O_RDONLY 0 demo_text = (Some 3, demo_text)"
  by (simp add: full_posix_def demo_posix_def)



end
