(* ===== verification/Sort_Tool.thy ===== *)
theory Sort_Tool
  imports Libc "HOL-Library.Multiset"
begin

text \<open>
  The line sorter (\<open>custom_sort.c\<close>). The file is read into one growing block, newlines become NULs, and an
  array of pointers into the block is sorted with \<open>qsort\<close>. \<open>junk\<close> stands for the bytes of the block that
  were never written, and \<open>qsort\<close> is an argument: the C standard leaves the order of equal elements open.
\<close>

section \<open>Program\<close>

definition cmp_alpha :: "bool \<Rightarrow> bytes \<Rightarrow> bytes \<Rightarrow> int" where
  "cmp_alpha opt_reverse a b = (let result = strcmp a b in if opt_reverse then - result else result)"

definition cmp_numeric :: "bool \<Rightarrow> bytes \<Rightarrow> bytes \<Rightarrow> int" where
  "cmp_numeric opt_reverse a b =
     (let la = fst (strtol 10 a); lb = fst (strtol 10 b);
          result = (if la > lb then 1 else 0) - (if la < lb then 1 else 0)
      in if opt_reverse then - result else result)"

text \<open>The loop of \<open>read_file\<close>: the bytes read and the size of the block, or \<open>None\<close> after a read error.\<close>

partial_function (option) read_file_loop ::
  "'w posix \<Rightarrow> nat \<Rightarrow> nat \<Rightarrow> bytes \<Rightarrow> 'w \<Rightarrow> ((bytes \<times> nat) option \<times> 'w) option" where
  "read_file_loop P fd cap data w =
     (case px_read P fd (cap - length data) w of
        (None, w) \<Rightarrow> Some (None, w)
      | (Some bs, w) \<Rightarrow>
        if bs = [] then Some (Some (data, cap), w)
        else let data = data @ bs
          in read_file_loop P fd (if length data = cap then cap * 2 else cap) data w)"

definition read_file :: "'w posix \<Rightarrow> bytes \<Rightarrow> 'w \<Rightarrow> ((bytes \<times> nat) option \<times> 'w) option" where
  "read_file P path w =
     (case px_open P path O_RDONLY 0 w of
        (None, w) \<Rightarrow> Some (None, px_warn P (ascii ''custom_sort: '' @ path) w)
      | (Some fd, w) \<Rightarrow> do {
          (r, w) \<leftarrow> read_file_loop P fd 4096 [] w;
          Some (case r of None \<Rightarrow> (None, px_close P fd (px_warn P (ascii ''custom_sort: read'') w))
                | Some d \<Rightarrow> (Some d, px_close P fd w)) })"

text \<open>The loop that replaces newlines and records where lines start.\<close>

function split_loop :: "nat \<Rightarrow> nat \<Rightarrow> bytes \<Rightarrow> nat list \<Rightarrow> bytes \<times> nat list" where
  "split_loop data_len i data lines =
     (if i < data_len then
        if data ! i = 10
        then split_loop data_len (i + 1) (data[i := 0]) (if i + 1 < data_len then lines @ [i + 1] else lines)
        else split_loop data_len (i + 1) data lines
      else (data, lines))"
  by pat_completeness auto
termination by (relation "measure (\<lambda>(n, i, d, l). n - i)") auto

declare split_loop.simps [simp del]

text \<open>The string a pointer into the block points to; a block without a NUL is read beyond its end.\<close>

definition block_string :: "bytes \<Rightarrow> nat \<Rightarrow> fault + bytes" where
  "block_string b q = (if 0 \<in> set (drop q b) then Inr (cut (drop q b)) else Inl (Bad_Access ''heap''))"

fun block_strings :: "bytes \<Rightarrow> nat list \<Rightarrow> fault + bytes list" where
  "block_strings b [] = Inr []"
| "block_strings b (q # qs) = bind_res (block_string b q) (\<lambda>s. bind_res (block_strings b qs) (\<lambda>r. Inr (s # r)))"

definition sort_strings :: "bytes \<Rightarrow> bytes \<Rightarrow> fault + bytes list" where
  "sort_strings data junk =
     (case split_loop (length data) 0 (data @ junk) [0] of (b, qs) \<Rightarrow> block_strings b qs)"

fun sort_args :: "bytes list \<Rightarrow> bool \<Rightarrow> bool \<Rightarrow> bytes option \<Rightarrow> bool \<times> bool \<times> bytes option" where
  "sort_args [] r n path = (r, n, path)"
| "sort_args (a # as) r n path =
     (if a = ascii ''-r'' then sort_args as True n path
      else if a = ascii ''-n'' then sort_args as r True path
      else sort_args as r n (Some a))"

type_synonym qsort_fun = "(bytes \<Rightarrow> bytes \<Rightarrow> int) \<Rightarrow> bytes list \<Rightarrow> bytes list"

definition custom_sort ::
  "qsort_fun \<Rightarrow> (nat \<Rightarrow> u8) \<Rightarrow> 'w posix \<Rightarrow> bytes list \<Rightarrow> 'w \<Rightarrow> (fault + nat \<times> 'w) option" where
  "custom_sort qsort junk P argv w =
     (case sort_args (tl argv) False False None of
        (_, _, None) \<Rightarrow> Some (Inr (1, px_eprint P (ascii ''Usage: custom_sort [-r] [-n] <file>'' @ [10]) w))
      | (opt_reverse, opt_numeric, Some path) \<Rightarrow> do {
          (r, w) \<leftarrow> read_file P path w;
          case r of
            None \<Rightarrow> Some (Inr (1, w))
          | Some (data, cap) \<Rightarrow>
            if data = [] then Some (Inr (0, w))
            else Some (bind_res (sort_strings data (map junk [length data..<cap])) (\<lambda>ls.
              let cmp = (if opt_numeric then cmp_numeric opt_reverse else cmp_alpha opt_reverse)
              in Inr (0, px_print P (concat (map (\<lambda>l. l @ [10]) (qsort cmp ls))) w))) })"

section \<open>The comparators\<close>

text \<open>What \<open>qsort\<close> asks of a comparator: a total preorder.\<close>

definition comparator :: "(bytes \<Rightarrow> bytes \<Rightarrow> int) \<Rightarrow> bool" where
  "comparator cmp \<longleftrightarrow> (\<forall>a b. sgn (cmp b a) = - sgn (cmp a b)) \<and> (\<forall>a b c. cmp a b \<le> 0 \<longrightarrow> cmp b c \<le> 0 \<longrightarrow> cmp a c \<le> 0)"

lemma comparator_reversible:
  assumes "\<And>a b. cmp b a = - cmp a b" "\<And>a b c. cmp a b \<le> 0 \<Longrightarrow> cmp b c \<le> 0 \<Longrightarrow> cmp a c \<le> 0"
  shows "comparator (\<lambda>a b. if r then - cmp a b else cmp a b)"
  unfolding comparator_def
proof (intro conjI allI impI)
  fix a b
  show "sgn (if r then - cmp b a else cmp b a) = - sgn (if r then - cmp a b else cmp a b)"
    unfolding assms(1)[of b a] by (simp add: sgn_minus)
next
  fix a b c
  assume "(if r then - cmp a b else cmp a b) \<le> 0" "(if r then - cmp b c else cmp b c) \<le> 0"
  then show "(if r then - cmp a c else cmp a c) \<le> 0"
    using assms(2)[of a b c] assms(2)[of c b a] assms(1)[of b a] assms(1)[of c b] assms(1)[of c a] by (cases r) auto
qed

lemma comparator_alpha: "comparator (cmp_alpha r)"
  using comparator_reversible[of strcmp r, OF strcmp_antisym strcmp_trans] by (simp add: cmp_alpha_def[abs_def] Let_def)

lemma comparator_numeric: "comparator (cmp_numeric r)"
proof -
  define d :: "bytes \<Rightarrow> bytes \<Rightarrow> int" where "d a b = (if fst (strtol 10 a) > fst (strtol 10 b) then 1 else 0) - (if fst (strtol 10 a) < fst (strtol 10 b) then 1 else 0)" for a b
  have "comparator (\<lambda>a b. if r then - d a b else d a b)"
    by (rule comparator_reversible) (auto simp: d_def split: if_splits)
  then show ?thesis unfolding d_def cmp_numeric_def[abs_def] Let_def .
qed

section \<open>Splitting\<close>

text \<open>The starts of the lines after the first in a text at offset \<open>i\<close>.\<close>

fun starts :: "nat \<Rightarrow> bytes \<Rightarrow> nat list" where
  "starts i [] = []"
| "starts i (c # t) = (if c = 10 \<and> t \<noteq> [] then [i + 1] else []) @ starts (i + 1) t"

definition nl0 :: "u8 \<Rightarrow> u8" where "nl0 c = (if c = 10 then 0 else c)"

lemma split_loop_spec:
  "split_loop (length pre + length t) (length pre) (pre @ t @ junk) qs =
     (pre @ map nl0 t @ junk, qs @ starts (length pre) t)"
proof (induction t arbitrary: pre qs)
  case Nil
  then show ?case by (subst split_loop.simps) simp
next
  case (Cons c t)
  have at: "(pre @ (c # t) @ junk) ! length pre = c" by simp
  have upd: "(pre @ (c # t) @ junk)[length pre := 0] = (pre @ [0]) @ t @ junk" by simp
  show ?case
  proof (cases "c = 10")
    case True
    then show ?thesis
      using Cons.IH[of "pre @ [0]" "if t = [] then qs else qs @ [length pre + 1]"] at upd
      by (subst split_loop.simps) (auto simp: nl0_def)
  next
    case False
    then show ?thesis using Cons.IH[of "pre @ [c]" qs] at by (subst split_loop.simps) (auto simp: nl0_def)
  qed
qed

text \<open>The string the code sees for a line: without its newline, or followed by the unwritten bytes.\<close>

definition seen_line :: "bytes \<Rightarrow> bytes \<Rightarrow> bytes" where
  "seen_line junk l = (if last l = 10 then butlast l else l @ cut junk)"

lemma lines_of_nonempty: "l \<in> set (lines_of t) \<Longrightarrow> l \<noteq> []"
  by (induction t) (auto simp: lines_of_Cons glue_def split: list.splits if_splits simp del: lines_of.simps(2))

lemma block_strings_spec:
  assumes "t \<noteq> []" "0 \<notin> set t" "last t \<noteq> 10 \<longrightarrow> 0 \<in> set junk"
  shows "drop i b = map nl0 t @ junk \<Longrightarrow>
    block_strings b (i # starts i t) = Inr (map (seen_line junk) (lines_of t))"
  using assms
proof (induction t arbitrary: i)
  case (Cons c t)
  have d: "drop i b = nl0 c # map nl0 t @ junk" using Cons.prems(1) by simp
  then have d1: "drop (i + 1) b = map nl0 t @ junk"
    by (metis drop_drop drop0 drop_Suc_Cons add.commute One_nat_def)
  show ?case
  proof (cases "c = 10")
    case True
    have s: "block_string b i = Inr []" using d True by (simp add: block_string_def nl0_def cut_def)
    show ?thesis
    proof (cases "t = []")
      case True
      then show ?thesis using s \<open>c = 10\<close> by (simp add: seen_line_def)
    next
      case False
      then have "block_strings b ((i + 1) # starts (i + 1) t) = Inr (map (seen_line junk) (lines_of t))"
        using Cons.IH[OF d1] Cons.prems by auto
      then show ?thesis using s True False by (simp add: seen_line_def)
    qed
  next
    case False
    have c0: "nl0 c = c" "c \<noteq> 0" using False Cons.prems(3) by (auto simp: nl0_def)
    show ?thesis
    proof (cases "t = []")
      case True
      then have "block_string b i = Inr (c # cut junk)" using d c0 False Cons.prems(4) by (auto simp: block_string_def cut_def)
      then show ?thesis using True False by (simp add: seen_line_def)
    next
      case t: False
      have IH: "block_strings b ((i + 1) # starts (i + 1) t) = Inr (map (seen_line junk) (lines_of t))"
        using Cons.IH[OF d1] Cons.prems t by auto
      obtain l ls where l: "lines_of t = l # ls" using t by (cases "lines_of t") auto
      have "l \<noteq> []" using lines_of_nonempty[of l t] l by simp
      from IH l have s1: "block_string b (i + 1) = Inr (seen_line junk l)"
        "block_strings b (starts (i + 1) t) = Inr (map (seen_line junk) ls)"
        by (auto simp: bind_res_Inr_iff)
      have "block_string b i = Inr (c # seen_line junk l)"
      proof -
        obtain r where "drop i b = c # r" "drop (i + 1) b = r" using d d1 c0(1) by metis
        then show ?thesis using s1(1) c0(2) by (auto simp: block_string_def cut_def split: if_splits)
      qed
      moreover have "seen_line junk (c # l) = c # seen_line junk l" using \<open>l \<noteq> []\<close> by (simp add: seen_line_def)
      ultimately show ?thesis using s1(2) False l t by simp
    qed
  qed
qed simp

lemma sort_strings_spec:
  assumes "data \<noteq> []" "0 \<notin> set data" "last data \<noteq> 10 \<longrightarrow> 0 \<in> set junk"
  shows "sort_strings data junk = Inr (map (seen_line junk) (lines_of data))"
  using split_loop_spec[of "[]" data junk "[0]"] block_strings_spec[OF assms, of 0] by (simp add: sort_strings_def)

lemma last_lines_of: "l \<in> set (lines_of t) \<Longrightarrow> last t = 10 \<Longrightarrow> last l = 10"
proof (induction t arbitrary: l)
  case (Cons c t)
  show ?case
  proof (cases "t = []")
    case False
    then have "last t = 10" using Cons.prems by simp
    then show ?thesis
      using Cons lines_of_nonempty[of _ t] by (auto simp: lines_of_Cons glue_def split: list.splits if_splits simp del: lines_of.simps(2))
  qed (use Cons.prems in auto)
qed simp

lemma read_file_loop_spec:
  assumes "io_ok P rest out" "reads_ok P fd"
  shows "length data < cap \<Longrightarrow> \<exists>cap' w'. read_file_loop P fd cap data w = Some (Some (data @ rest w fd, cap'), w') \<and>
    length (data @ rest w fd) < cap' \<and> out w' = out w"
proof (induction "length (rest w fd)" arbitrary: data cap w rule: less_induct)
  case less
  obtain bs w1 where b: "px_read P fd (cap - length data) w = (Some bs, w1)"
    using reads_okD[OF assms(2)] by blast
  note d = io_ok_readD[OF assms(1) b]
  show ?case
  proof (cases "bs = []")
    case True
    then have "rest w fd = []" using d(5) less.prems by simp
    moreover have "read_file_loop P fd cap data w = Some (Some (data, cap), w1)"
      using b True by (subst read_file_loop.simps) simp
    ultimately show ?thesis using less.prems d(3) by simp
  next
    case False
    let ?cap = "if length (data @ bs) = cap then cap * 2 else cap"
    have e: "read_file_loop P fd cap data w = read_file_loop P fd ?cap (data @ bs) w1"
      using b False by (subst read_file_loop.simps) (simp add: Let_def)
    have "length (rest w1 fd) < length (rest w fd)" using d(1) False by simp
    moreover have "length (data @ bs) < ?cap" using d(4) less.prems False by auto
    ultimately obtain cap' w' where "read_file_loop P fd ?cap (data @ bs) w1 = Some (Some ((data @ bs) @ rest w1 fd, cap'), w')"
      "length ((data @ bs) @ rest w1 fd) < cap'" "out w' = out w1"
      using less.hyps[of w1 "data @ bs" ?cap] by blast
    then show ?thesis using e d(1,3) by (intro exI[of _ cap'] exI[of _ w']) simp
  qed
qed

text \<open>Without a NUL in the rest of the block an unterminated last line is read beyond its end.\<close>

lemma block_strings_fault:
  assumes "t \<noteq> []" "0 \<notin> set t" "last t \<noteq> 10" "0 \<notin> set junk"
  shows "drop i b = map nl0 t @ junk \<Longrightarrow> block_strings b (i # starts i t) = Inl (Bad_Access ''heap'')"
  using assms
proof (induction t arbitrary: i)
  case (Cons c t)
  define r where "r = map nl0 t @ junk"
  have d: "drop i b = nl0 c # r" using Cons.prems(1) by (simp add: r_def)
  then have "drop (i + 1) b = r" by (metis drop_drop drop0 drop_Suc_Cons add.commute One_nat_def)
  note r = d this r_def
  show ?case
  proof (cases "t = []")
    case True
    then show ?thesis using r Cons.prems by (auto simp: block_string_def nl0_def)
  next
    case t: False
    then have IH: "block_strings b ((i + 1) # starts (i + 1) t) = Inl (Bad_Access ''heap'')"
      using Cons.IH[of "i + 1"] Cons.prems r by simp
    show ?thesis
    proof (cases "c = 10")
      case True
      then have "block_string b i = Inr []" using r by (simp add: block_string_def nl0_def cut_def)
      then show ?thesis using IH True t by simp
    next
      case False
      then have c: "nl0 c = c" "c \<noteq> 0" using Cons.prems by (auto simp: nl0_def)
      show ?thesis
      proof (cases "0 \<in> set r")
        case True
        then have "block_string b i = Inr (c # cut r)" "block_string b (i + 1) = Inr (cut r)"
          using r c by (auto simp: block_string_def cut_def)
        then show ?thesis using IH False by (cases "block_strings b (starts (i + 1) t)") auto
      next
        case 0: False
        then show ?thesis using r c by (simp add: block_string_def)
      qed
    qed
  qed
qed simp

section \<open>Properties\<close>

definition qsort_ok :: "qsort_fun \<Rightarrow> bool" where
  "qsort_ok q \<longleftrightarrow> (\<forall>cmp xs. comparator cmp \<longrightarrow> mset (q cmp xs) = mset xs \<and> sorted_wrt (\<lambda>a b. cmp a b \<le> 0) (q cmp xs))"

text \<open>
  C37. Sorting. On a text that ends in a newline and has no NUL bytes the program ends with status 0 and
  prints its lines, each once, in an order that is ascending for the chosen comparator, for every
  combination of the options. Both comparators, reversed or not, are total preorders, which is what
  \<open>qsort\<close> asks for; the block is read and grown correctly whatever the sizes of the reads.
\<close>

theorem custom_sort_sorts:
  assumes io: "io_ok P rest out" "reads_ok P fd" and q: "qsort_ok qsort"
    and args: "sort_args (tl argv) False False None = (r, n, Some path)"
    and f: "px_open P path O_RDONLY 0 w = (Some fd, w1)"
    and data: "rest w1 fd \<noteq> []" "0 \<notin> set (rest w1 fd)" "last (rest w1 fd) = 10"
  shows "\<exists>ls w'. custom_sort qsort junk P argv w =
      Some (Inr (0, px_print P (concat (map (\<lambda>l. l @ [10]) ls)) (px_close P fd w'))) \<and>
    mset ls = mset (map butlast (lines_of (rest w1 fd))) \<and>
    sorted_wrt (\<lambda>a b. (if n then cmp_numeric r else cmp_alpha r) a b \<le> 0) ls"
proof -
  let ?d = "rest w1 fd" and ?cmp = "if n then cmp_numeric r else cmp_alpha r"
  obtain cap w' where l: "read_file_loop P fd 4096 [] w1 = Some (Some (?d, cap), w')"
    using read_file_loop_spec[OF io, of "[]" 4096 w1] by auto
  have m: "map (seen_line junk) (lines_of ?d) = map butlast (lines_of ?d)" for junk
    using last_lines_of data(3) by (auto simp: seen_line_def)
  have s: "sort_strings ?d junk = Inr (map butlast (lines_of ?d))" for junk
    using sort_strings_spec[of ?d junk] data m by simp
  have "comparator ?cmp" by (simp add: comparator_alpha comparator_numeric)
  then have "mset (qsort ?cmp xs) = mset xs \<and> sorted_wrt (\<lambda>a b. ?cmp a b \<le> 0) (qsort ?cmp xs)" for xs
    using q unfolding qsort_ok_def by blast
  moreover have "custom_sort qsort junk P argv w =
      Some (Inr (0, px_print P (concat (map (\<lambda>l. l @ [10]) (qsort ?cmp (map butlast (lines_of ?d))))) (px_close P fd w')))"
    using args f l data(1) s by (simp add: custom_sort_def read_file_def)
  ultimately show ?thesis by blast
qed

text \<open>An instance of \<open>qsort\<close>: insertion sort.\<close>

primrec ins :: "(bytes \<Rightarrow> bytes \<Rightarrow> int) \<Rightarrow> bytes \<Rightarrow> bytes list \<Rightarrow> bytes list" where
  "ins cmp x [] = [x]"
| "ins cmp x (y # ys) = (if cmp x y \<le> 0 then x # y # ys else y # ins cmp x ys)"

definition isort_cmp :: qsort_fun where
  "isort_cmp cmp xs = fold (ins cmp) xs []"

lemma ins_mset [simp]: "mset (ins cmp x ys) = add_mset x (mset ys)"
  by (induction ys) auto

lemma ins_set [simp]: "set (ins cmp x ys) = insert x (set ys)"
  by (induction ys) auto

lemma ins_sorted:
  assumes "comparator cmp"
  shows "sorted_wrt (\<lambda>a b. cmp a b \<le> 0) ys \<Longrightarrow> sorted_wrt (\<lambda>a b. cmp a b \<le> 0) (ins cmp x ys)"
proof (induction ys)
  case (Cons y ys)
  have tr: "cmp a c \<le> 0" if "cmp a b \<le> 0" "cmp b c \<le> 0" for a b c
    using assms that unfolding comparator_def by blast
  have "sgn (cmp y x) = - sgn (cmp x y)" using assms unfolding comparator_def by blast
  then have tot: "cmp y x \<le> 0" if "\<not> cmp x y \<le> 0"
    using that by (auto simp: sgn_if split: if_splits)
  show ?case
  proof (cases "cmp x y \<le> 0")
    case True
    then show ?thesis using Cons.prems tr by auto
  next
    case False
    then show ?thesis using Cons tot by auto
  qed
qed simp

lemma isort_cmp_ok: "qsort_ok isort_cmp"
proof -
  have "mset (fold (ins cmp) xs ys) = mset xs + mset ys \<and> sorted_wrt (\<lambda>a b. cmp a b \<le> 0) (fold (ins cmp) xs ys)"
    if "comparator cmp" "sorted_wrt (\<lambda>a b. cmp a b \<le> 0) ys" for cmp xs ys
    using that by (induction xs arbitrary: ys) (auto simp: ins_sorted)
  then show ?thesis by (simp add: qsort_ok_def isort_cmp_def)
qed

theorem custom_sort_sorts_witness:
  "\<exists>w' ls. custom_sort isort_cmp (\<lambda>_. 7) full_posix [[], ascii ''-r'', ascii ''a'']
       (demo_world\<lparr>dw_in := (\<lambda>_. [97, 10, 98, 10])\<rparr>) = Some (Inr (0, w')) \<and>
     mset ls = {#[97], [98]#} \<and> sorted_wrt (\<lambda>a b. cmp_alpha True a b \<le> 0) ls \<and>
     (\<exists>pre. dw_stdout w' = pre @ concat (map (\<lambda>l. l @ [10]) ls))"
proof -
  let ?w = "demo_world\<lparr>dw_in := (\<lambda>_. [97, 10, 98, 10])\<rparr>" and ?argv = "[[], ascii ''-r'', ascii ''a'']"
  have a: "sort_args (tl ?argv) False False None = (True, False, Some (ascii ''a''))" by (simp add: ascii_def)
  have o: "px_open full_posix (ascii ''a'') O_RDONLY 0 ?w = (Some 3, ?w)"
    by (simp add: full_posix_def demo_posix_def)
  obtain ls w' where c: "custom_sort isort_cmp (\<lambda>_. 7) full_posix ?argv ?w =
      Some (Inr (0, px_print full_posix (concat (map (\<lambda>l. l @ [10]) ls)) (px_close full_posix 3 w')))"
    "mset ls = mset (map butlast (lines_of (dw_in ?w 3)))" "sorted_wrt (\<lambda>a b. cmp_alpha True a b \<le> 0) ls"
    using custom_sort_sorts[OF full_posix_ok(1,4) isort_cmp_ok a o, of "\<lambda>_. 7"] by auto
  moreover have "px_print full_posix m v = v\<lparr>dw_stdout := dw_stdout v @ m\<rparr>" for m v
    by (simp add: full_posix_def demo_posix_def)
  ultimately show ?thesis by (intro exI[of _ "px_print full_posix (concat (map (\<lambda>l. l @ [10]) ls)) (px_close full_posix 3 w')"] exI[of _ ls]) simp
qed

text \<open>
  C38. A last line without a newline is not a string. The block is not terminated after the data, so the
  program reads on in bytes it never wrote: with the bytes \<open>x\<close> and a NUL there, the last line printed
  is the last line of the file followed by \<open>x\<close>; with no NUL there, it reads beyond the block.
\<close>

theorem sort_unterminated:
  assumes "data \<noteq> []" "0 \<notin> set data" "last data \<noteq> 10" "0 \<notin> set x"
  shows "(\<exists>ls. sort_strings data (x @ 0 # y) = Inr ls \<and> last ls = last (lines_of data) @ x) \<and>
    sort_strings data x = Inl (Bad_Access ''heap'')"
proof
  have ls: "sort_strings data (x @ 0 # y) = Inr (map (seen_line (x @ 0 # y)) (lines_of data))"
    using assms by (intro sort_strings_spec) auto
  have ne: "lines_of data \<noteq> []" using assms(1) by simp
  have c: "concat (lines_of data) = concat (butlast (lines_of data)) @ last (lines_of data)"
    using ne by (metis append_butlast_last_id concat_append concat.simps append_Nil2)
  have "last (lines_of data) \<noteq> []" using ne lines_of_nonempty last_in_set by blast
  then have "last (last (lines_of data)) = last data" using c by (metis concat_lines_of last_appendR)
  moreover have "cut (x @ 0 # y) = x" using assms(4) by (induction x) (auto simp: cut_def)
  ultimately have "seen_line (x @ 0 # y) (last (lines_of data)) = last (lines_of data) @ x"
    using assms(3) by (simp add: seen_line_def)
  then show "\<exists>ls. sort_strings data (x @ 0 # y) = Inr ls \<and> last ls = last (lines_of data) @ x"
    using ls ne by (simp add: last_map)
  show "sort_strings data x = Inl (Bad_Access ''heap'')"
    using split_loop_spec[of "[]" data x "[0]"] block_strings_fault[OF assms, of 0] by (simp add: sort_strings_def)
qed

theorem sort_unterminated_witness:
  "(\<exists>ls. sort_strings [97] [98, 0] = Inr ls \<and> last ls = [97, 98]) \<and> sort_strings [97] [98] = Inl (Bad_Access ''heap'')"
  using sort_unterminated[of "[97]" "[98]" "[]"] by simp

end
