(* ===== verification/Spec2Isabelle.thy ===== *)
theory Spec2Isabelle
  imports Uvm Spinlock Msgqueue Console Sh Copy_Tools Line_Tools Sort_Tool
begin

text \<open>
  Verification of an xv6 kernel with added system calls (\<open>src/G19_Project1_xv6CustomizeSystemCalls\<close>) and
  of a set of POSIX command-line utilities (\<open>src/G19_Project2_1/src\<close>).

  \<^bold>\<open>The program.\<close> The kernel is a 32-bit multiprocessor teaching kernel. At the bottom is the page
  allocator (\<open>kalloc.c\<close>); page tables and address spaces (\<open>vm.c\<close>) take their pages from it; processes
  (\<open>proc.c\<close>) own an address space, a kernel stack, open files and a current directory; system calls
  (\<open>syscall.c\<close>, \<open>sysproc.c\<close>) read their arguments from user memory through the page table of the caller.
  The repository adds to the standard calls: \<open>getppid\<close>, \<open>getprocs\<close>, \<open>set_priority\<close>, \<open>cps\<close>, \<open>waitx\<close>,
  \<open>waitpid\<close>, \<open>fork2\<close>, \<open>sigkill\<close>, \<open>getncpu\<close>, user mutexes, shared memory regions and message queues.
  Pipes (\<open>pipe.c\<close>), the console (\<open>console.c\<close>) and the shell (\<open>sh.c\<close>) sit on top. The utilities of the
  second project are ordinary C programs that call the system interface of their host.

  \<^bold>\<open>How the kernel is modelled.\<close> Machine integers are words of their width (\<open>u32\<close>, \<open>u8\<close>), so that
  wrap-around is the machine's. Physical memory is a function from 32-bit addresses to bytes; the free
  list, page directories, page tables and user pages live in it, at the addresses the code computes. The
  state is one record that each component extends by its own tables: \<open>kmem\<close>, \<open>vm\<close>, \<open>files\<close>, \<open>kernel\<close>,
  \<open>kio\<close>, \<open>sysproc\<close>, \<open>shm\<close>, \<open>mutexes\<close>, \<open>msgs\<close>, \<open>pipes\<close>, \<open>console\<close>. An operation of a component takes any
  extension of its record, so that a caller passes its own state. A pointer into a fixed table is an
  index; a pointer to a structure in a page of its own is the address of the page, and freeing the page
  removes the structure. A routine that can panic, follow a bad pointer or loop for ever returns the
  corresponding \<open>fault\<close> as the left value of a sum. A call that sleeps returns \<open>Blocked\<close> with the state it
  leaves behind and goes on from the head of its loop when the process runs again. A critical section
  under a spin lock is one step; that spin locks do exclude each other is proved separately, with the
  CPUs interleaved at the atomic exchange.

  \<^bold>\<open>The theories.\<close>
  \<^item> \<open>Prelude\<close>: machine types, faults, byte memory, alignment, table scans, the locale
    \<open>transition_system\<close> for invariants of step relations.
  \<^item> \<open>CString\<close> (\<open>string.c\<close>, string instructions of \<open>x86.h\<close>): each routine equals its specification on
    memory or arrays, overlapping \<open>memmove\<close> included.
  \<^item> \<open>Layout\<close> (\<open>mmu.h\<close>, \<open>memlayout.h\<close>): meaning of the address macros.
  \<^item> \<open>Kalloc\<close> (\<open>kalloc.c\<close>): the free list threaded through the pages is a list of distinct pages; the
    contract is the locale \<open>page_allocator\<close>, interpreted on \<open>kalloc\<close> and \<open>kfree\<close>.
  \<^item> \<open>Vm\<close>, \<open>Pagetable\<close>, \<open>Uvm\<close>, \<open>Vm_Frame\<close> (\<open>vm.c\<close>): the routines on page tables in memory, page
    directories as functions from addresses to entries, growing, shrinking and freeing address spaces
    without losing or freeing a page twice, isolation of address spaces, and frame lemmas.
  \<^item> \<open>Spinlock\<close> (\<open>spinlock.c\<close>): mutual exclusion with all CPUs interleaved.
  \<^item> \<open>Filetab\<close> (table part of \<open>file.c\<close>): reference counts, locale \<open>ref_table\<close>.
  \<^item> \<open>Proc\<close>, \<open>Proc_Inv\<close>, \<open>Proc_Sys\<close> (\<open>proc.c\<close>): the process operations, the invariant of the process
    table and its preservation by every step on every CPU; branches of \<open>wait\<close>, wake-up by \<open>exit\<close>.
  \<^item> \<open>Syscall\<close>, \<open>Sysproc\<close> (\<open>syscall.c\<close>, \<open>sysproc.c\<close>): argument fetching is safe; the handlers keep the
    process invariant; \<open>waitpid\<close> and \<open>waitx\<close> on every branch.
  \<^item> \<open>Shm\<close>, \<open>Mutex\<close>, \<open>Msgqueue\<close> (\<open>vm.c\<close>, \<open>sysproc.c\<close>): regions are shared, mutexes exclude, queues are
    first-in first-out per message type; the defects found in them are theorems.
  \<^item> \<open>Printf\<close> (\<open>printf.c\<close>, output part of \<open>console.c\<close>, \<open>atoi\<close>): numbers printed are read back.
  \<^item> \<open>Ring\<close>, \<open>Pipe\<close>, \<open>Console\<close> (\<open>pipe.c\<close>, \<open>console.c\<close>): rings with free-running 32-bit counters refine
    bounded queues, across the wrap-around of the counters (locales \<open>ring_size\<close>, \<open>fifo\<close>); the line
    editor refines an editing function on lines.
  \<^item> \<open>Sh\<close> (\<open>sh.c\<close>): tokenizer, parser, in-place termination of words, system calls of \<open>runcmd\<close>.
  \<^item> \<open>Posix\<close>, \<open>Libc\<close>: the system interface of the utilities as a record of functions over an abstract
    world, with what the utilities rely on as the hypotheses \<open>io_ok\<close>, \<open>reads_ok\<close>, \<open>writes_ok\<close>; the C
    library functions they use.
  \<^item> \<open>Copy_Tools\<close>, \<open>Line_Tools\<close>, \<open>Sort_Tool\<close> (\<open>custom_cat.c\<close>, \<open>custom_cp.c\<close>, \<open>custom_mv.c\<close>,
    \<open>custom_wc.c\<close>, \<open>custom_grep.c\<close>, \<open>custom_head.c\<close>, \<open>custom_tail.c\<close>, \<open>custom_sort.c\<close>): each utility against a
    reference definition of what it should produce.

  \<^bold>\<open>Termination and fuel.\<close> Loops over tables and address ranges are total functions with a measure; a
  loop whose counter could wrap around returns \<open>Diverge\<close> there, and the theorems show that it does not
  under the stated hypotheses. The parser of the shell takes fuel; \<open>parse_fuel\<close> is linear in the line
  and \<open>parsecmd_words\<close> shows it is enough: every token consumes a byte and at most five calls separate
  two tokens. The loops of the utilities are partial functions; the theorems show that they return.

  \<^bold>\<open>Not modelled.\<close> The boot code and the hardware drivers (\<open>bootasm.S\<close>, \<open>entry.S\<close>, \<open>lapic.c\<close>,
  \<open>ioapic.c\<close>, \<open>mp.c\<close>, \<open>ide.c\<close>, \<open>kbd.c\<close>, \<open>uart.c\<close> but for the output of a byte) act on device registers only;
  context switches and trap entry (\<open>swtch.S\<close>, \<open>trapasm.S\<close>) are the steps between the operations of the
  model. Test programs state no contract of their own.
\<close>

end
